(* ===== verification/Prelude.thy ===== *)
theory Prelude
  imports Main "HOL-Library.Word" "HOL-Library.Monad_Syntax"
begin

text \<open>
  What every component shares: the names of the machine types, the option monad in which
  \<open>None\<close> is a C++ execution with undefined behaviour, a failed assertion or no end, the
  collections of simp rules, and generic lemmas on lists, maps and words.
\<close>

unbundle bit_operations_syntax

section \<open>Machine types\<close>

type_synonym u8 = "8 word"
type_synonym u32 = "32 word"
type_synonym u64 = "64 word"
type_synonym bytes = "u8 list"

text \<open>
  An object address. The address of a member (the \<open>HNode\<close>, the \<open>AVLNode\<close>, the
  \<open>heap_idx\<close> of an entry) determines the address of its container by a constant offset
  (\<open>container_of\<close> in common.h), so one number stands for the object and all its members,
  and each member lives in a map of its own.
\<close>

type_synonym addr = nat
type_synonym ptr = "addr option"

text \<open>The value \<open>(size_t)-1\<close>. All other sizes and positions are counts of objects in memory and are natural numbers.\<close>

definition npos :: nat where
  "npos = 2 ^ 64 - 1"

text \<open>A string literal of the source as its bytes.\<close>

definition lit :: "string \<Rightarrow> bytes" where
  "lit s = map of_char s"

lemma length_lit [simp]: "length (lit s) = length s"
  by (simp add: lit_def)

lemma lit_Nil [simp]: "lit [] = []"
  by (simp add: lit_def)

section \<open>Rule collections\<close>

named_theorems mem_simps \<open>reading and writing the memory maps\<close>
named_theorems inv_intros \<open>introduction rules of the component invariants\<close>
named_theorems run_simps \<open>defining equations used to run the code on a closed state\<close>

section \<open>The option monad\<close>

text \<open>An \<open>assert\<close> of the source, and any access the language leaves undefined.\<close>

definition guard :: "bool \<Rightarrow> unit option" where
  "guard b = (if b then Some () else None)"

lemma guard_True [simp]: "guard True = Some ()"
  by (simp add: guard_def)

lemma guard_False [simp]: "guard False = None"
  by (simp add: guard_def)

lemma guard_eq_Some [simp]: "guard b = Some u \<longleftrightarrow> b"
  by (simp add: guard_def)

lemma guard_eq_None [simp]: "guard b = None \<longleftrightarrow> \<not> b"
  by (simp add: guard_def)

lemma bind_guard: "b \<Longrightarrow> (guard b \<bind> f) = f ()"
  by simp

section \<open>Lists\<close>

lemma nth_list_update_if: "i < length xs \<Longrightarrow> xs[i := x] ! j = (if i = j then x else xs ! j)"
  by (simp add: nth_list_update)

lemma sum_list_map_update_nat:
  fixes f :: "'a \<Rightarrow> nat"
  assumes "i < length xs"
  shows "sum_list (map f (xs[i := x])) + f (xs ! i) = sum_list (map f xs) + f x"
  using assms by (induction xs arbitrary: i) (auto split: nat.splits)

lemma concat_update_split:
  assumes "i < length xss"
  shows "concat (xss[i := ys]) = concat (take i xss) @ ys @ concat (drop (Suc i) xss)"
    and "concat xss = concat (take i xss) @ xss ! i @ concat (drop (Suc i) xss)"
  using assms by (simp_all add: upd_conv_take_nth_drop) (metis concat_append concat.simps(2) id_take_nth_drop)

lemma in_set_tl: "x \<in> set (tl xs) \<Longrightarrow> x \<in> set xs"
  by (cases xs) auto

lemma take_append_exact: "length xs = n \<Longrightarrow> take n (xs @ ys) = xs"
  by simp

lemma drop_append_exact: "length xs = n \<Longrightarrow> drop n (xs @ ys) = ys"
  by simp

section \<open>Words\<close>

lemma unat_lt_u8 [simp]: "unat (w :: u8) < 256"
  using unsigned_less [of w] by simp

lemma unat_lt_u32 [simp]: "unat (w :: u32) < 4294967296"
  using unsigned_less [of w] by simp

lemma unat_lt_u64 [simp]: "unat (w :: u64) < 18446744073709551616"
  using unsigned_less [of w] by simp


text \<open>Reading back a count stored in a 32-bit field.\<close>

lemma unat_of_nat_u32: "a < 2 ^ 32 \<Longrightarrow> unat (of_nat a :: u32) = a"
  by (simp add: unat_of_nat)

lemma unat_of_nat_u64: "a < 2 ^ 64 \<Longrightarrow> unat (of_nat a :: u64) = a"
  by (simp add: unat_of_nat)

lemma of_nat_u32_eq_iff:
  assumes "a < 2 ^ 32" and "b < 2 ^ 32"
  shows "(of_nat a :: u32) = of_nat b \<longleftrightarrow> a = b"
  using assms unat_of_nat_u32 by metis

end
