(* ===== verification/AvlTree.thy ===== *)
theory AvlTree
  imports Prelude "HOL-Library.Tree"
begin

text \<open>
  The AVL trees of avl.cpp as values: a binary tree whose nodes carry the node's identity and
  the two stored fields \<open>height\<close> and \<open>cnt\<close>. The rebalancing is written over the stored
  fields, whether or not they are right, so that the pointer program of theory \<open>Avl\<close>
  computes exactly these functions. The second half shows what they do when the stored
  fields are right.
\<close>

type_synonym 'a atree = "('a \<times> u32 \<times> u32) tree"

section \<open>Stored fields and rebalancing\<close>

fun ht :: "'a atree \<Rightarrow> u32" where
  "ht Leaf = 0"
| "ht (Node l (a, h, c) r) = h"

fun ct :: "'a atree \<Rightarrow> u32" where
  "ct Leaf = 0"
| "ct (Node l (a, h, c) r) = c"

definition mk :: "'a atree \<Rightarrow> 'a \<Rightarrow> 'a atree \<Rightarrow> 'a atree" where
  "mk l a r = Node l (a, 1 + max (ht l) (ht r), 1 + ct l + ct r) r"

fun rotl :: "'a atree \<Rightarrow> 'a atree" where
  "rotl (Node A (x, _) (Node B (y, _) C)) = mk (mk A x B) y C"
| "rotl t = t"

fun rotr :: "'a atree \<Rightarrow> 'a atree" where
  "rotr (Node (Node A (x, _) B) (y, _) C) = mk A x (mk B y C)"
| "rotr t = t"

fun left_heavy :: "'a atree \<Rightarrow> bool" where
  "left_heavy (Node l x r) = (ht r < ht l)"
| "left_heavy Leaf = False"

fun right_heavy :: "'a atree \<Rightarrow> bool" where
  "right_heavy (Node l x r) = (ht l < ht r)"
| "right_heavy Leaf = False"

fun fixl :: "'a atree \<Rightarrow> 'a atree" where
  "fixl (Node l x r) = rotr (Node (if right_heavy l then rotl l else l) x r)"
| "fixl Leaf = Leaf"

fun fixr :: "'a atree \<Rightarrow> 'a atree" where
  "fixr (Node l x r) = rotl (Node l x (if left_heavy r then rotr r else r))"
| "fixr Leaf = Leaf"

text \<open>One round of the loop of \<open>avl_fix\<close> at a node.\<close>

definition bal :: "'a atree \<Rightarrow> 'a \<Rightarrow> 'a atree \<Rightarrow> 'a atree" where
  "bal l a r =
     (if ht l = ht r + 2 then fixl (mk l a r)
      else if ht l + 2 = ht r then fixr (mk l a r)
      else mk l a r)"

fun bal1 :: "'a atree \<Rightarrow> 'a atree" where
  "bal1 (Node l (a, _) r) = bal l a r"
| "bal1 Leaf = Leaf"

section \<open>Positions in a tree\<close>

datatype 'a frame = InL 'a "'a tree" | InR "'a tree" 'a

fun plug1 :: "'a tree \<Rightarrow> 'a frame \<Rightarrow> 'a tree" where
  "plug1 t (InL x r) = Node t x r"
| "plug1 t (InR l x) = Node l x t"

fun plug :: "'a tree \<Rightarrow> 'a frame list \<Rightarrow> 'a tree" where
  "plug t [] = t"
| "plug t (f # fs) = plug (plug1 t f) fs"

text \<open>The whole loop of \<open>avl_fix\<close>, from a node up to the root.\<close>

fun fix_up :: "'a atree \<Rightarrow> ('a \<times> u32 \<times> u32) frame list \<Rightarrow> 'a atree" where
  "fix_up t [] = bal1 t"
| "fix_up t (f # fs) = fix_up (plug1 (bal1 t) f) fs"

text \<open>Detaching the node above \<open>child\<close>: its parent takes the child and is rebalanced upwards.\<close>

fun detach_up :: "'a atree \<Rightarrow> ('a \<times> u32 \<times> u32) frame list \<Rightarrow> 'a atree" where
  "detach_up child [] = child"
| "detach_up child (f # fs) = fix_up (plug1 child f) fs"

text \<open>The leftmost node of a tree, with the way to it.\<close>

fun leftmost_path :: "'a tree \<Rightarrow> 'a frame list \<Rightarrow> 'a tree \<times> 'a frame list" where
  "leftmost_path (Node (Node ll lx lr) x r) fs = leftmost_path (Node ll lx lr) (InL x r # fs)"
| "leftmost_path t fs = (t, fs)"

text \<open>\<open>avl_del\<close> at a position: the easy case, and the case where the successor takes the node's place.\<close>

definition relabel :: "'a \<Rightarrow> ('a \<times> u32 \<times> u32) \<Rightarrow> 'a atree \<Rightarrow> 'a atree" where
  "relabel a v t = map_tree (\<lambda>x. if fst x = a then v else x) t"

fun del_at :: "'a atree \<Rightarrow> ('a \<times> u32 \<times> u32) frame list \<Rightarrow> 'a atree" where
  "del_at (Node l x r) fs =
     (if l = Leaf then detach_up r fs
      else if r = Leaf then detach_up l fs
      else (case leftmost_path r (InR l x # fs) of
              (Node vl v vr, gs) \<Rightarrow> relabel (fst x) v (detach_up vr gs)
            | (Leaf, gs) \<Rightarrow> Leaf))"
| "del_at Leaf fs = plug Leaf fs"

section \<open>The nodes of a tree in order\<close>

definition nodes :: "'a atree \<Rightarrow> 'a list" where
  "nodes t = map fst (inorder t)"

lemma nodes_simps [simp]:
  "nodes Leaf = []"
  "nodes (Node l x r) = nodes l @ fst x # nodes r"
  by (simp_all add: nodes_def)

lemma nodes_mk [simp]: "nodes (mk l a r) = nodes l @ a # nodes r"
  by (simp add: mk_def)

lemma nodes_rotl [simp]: "nodes (rotl t) = nodes t"
  by (cases t rule: rotl.cases) auto

lemma nodes_rotr [simp]: "nodes (rotr t) = nodes t"
  by (cases t rule: rotr.cases) auto

lemma nodes_fixl [simp]: "nodes (fixl t) = nodes t"
  by (cases t) auto

lemma nodes_fixr [simp]: "nodes (fixr t) = nodes t"
  by (cases t) auto

lemma nodes_bal [simp]: "nodes (bal l a r) = nodes l @ a # nodes r"
  by (simp add: bal_def)

lemma nodes_bal1 [simp]: "nodes (bal1 t) = nodes t"
  by (cases t rule: bal1.cases) auto

lemma nodes_eq_Nil [simp]: "nodes t = [] \<longleftrightarrow> t = Leaf"
  by (cases t) auto

lemma length_nodes [simp]: "length (nodes t) = size t"
  by (simp add: nodes_def)

text \<open>What stands left and right of a position.\<close>

fun lefts :: "('a \<times> u32 \<times> u32) frame list \<Rightarrow> 'a list" where
  "lefts [] = []"
| "lefts (InL x r # fs) = lefts fs"
| "lefts (InR l x # fs) = lefts fs @ nodes l @ [fst x]"

fun rights :: "('a \<times> u32 \<times> u32) frame list \<Rightarrow> 'a list" where
  "rights [] = []"
| "rights (InL x r # fs) = fst x # nodes r @ rights fs"
| "rights (InR l x # fs) = rights fs"

lemma nodes_plug [simp]: "nodes (plug t fs) = lefts fs @ nodes t @ rights fs"
proof (induction fs arbitrary: t)
  case (Cons f fs)
  then show ?case by (cases f) auto
qed simp

lemma nodes_fix_up [simp]: "nodes (fix_up t fs) = lefts fs @ nodes t @ rights fs"
proof (induction fs arbitrary: t)
  case (Cons f fs)
  then show ?case by (cases f) auto
qed simp

lemma nodes_detach_up [simp]: "nodes (detach_up t fs) = lefts fs @ nodes t @ rights fs"
proof (cases fs)
  case (Cons f gs)
  then show ?thesis by (cases f) auto
qed simp

lemma leftmost_path_spec:
  assumes "t \<noteq> Leaf"
  shows "\<exists>v vr gs. leftmost_path t fs = (Node Leaf v vr, gs @ fs) \<and>
           plug (Node Leaf v vr) (gs @ fs) = plug t fs \<and> lefts (gs @ fs) = lefts fs"
  using assms
proof (induction t fs rule: leftmost_path.induct)
  case (1 ll lx lr x r fs)
  then obtain v vr gs where "leftmost_path (Node ll lx lr) (InL x r # fs) = (Node Leaf v vr, gs @ InL x r # fs)"
    "plug (Node Leaf v vr) (gs @ InL x r # fs) = plug (Node ll lx lr) (InL x r # fs)"
    "lefts (gs @ InL x r # fs) = lefts (InL x r # fs)"
    by auto
  then show ?case
    by (intro exI [of _ v] exI [of _ vr] exI [of _ "gs @ [InL x r]"]) simp
qed (simp, intro exI [of _ "[]"] exI, simp)

lemma nodes_relabel: "nodes (relabel a v t) = map (\<lambda>b. if b = a then fst v else b) (nodes t)"
  by (induction t) (auto simp: relabel_def)

text \<open>Whatever the stored fields say, deletion removes exactly the one node from the order.\<close>

lemma nodes_del_at:
  assumes "distinct (nodes (plug (Node l x r) fs))"
  shows "nodes (del_at (Node l x r) fs) = lefts fs @ nodes l @ nodes r @ rights fs"
proof (cases "l = Leaf \<or> r = Leaf")
  case True
  then show ?thesis by auto
next
  case False
  then obtain v vr gs where lp: "leftmost_path r (InR l x # fs) = (Node Leaf v vr, gs @ InR l x # fs)"
    and pl: "plug (Node Leaf v vr) (gs @ InR l x # fs) = plug r (InR l x # fs)"
    and lf: "lefts (gs @ InR l x # fs) = lefts (InR l x # fs)"
    using leftmost_path_spec [of r "InR l x # fs"] by auto
  let ?hs = "gs @ InR l x # fs"
  have "lefts ?hs @ fst v # nodes vr @ rights ?hs = lefts (InR l x # fs) @ nodes r @ rights fs"
    using arg_cong [OF pl, of nodes] by simp
  then have r: "fst v # nodes vr @ rights ?hs = nodes r @ rights fs"
    using lf by simp
  then have "nodes vr @ rights ?hs = tl (nodes r @ rights fs)" "fst v = hd (nodes r @ rights fs)"
    by (metis list.sel(3), metis list.sel(1))
  then have "nodes (del_at (Node l x r) fs) = map (\<lambda>b. if b = fst x then fst v else b)
      (lefts fs @ nodes l @ fst x # tl (nodes r @ rights fs))"
    using False lp lf by (simp add: nodes_relabel)
  also have "\<dots> = lefts fs @ nodes l @ fst v # tl (nodes r @ rights fs)"
    using assms by (auto intro!: map_idI dest: in_set_tl)
  also have "fst v # tl (nodes r @ rights fs) = nodes r @ rights fs"
    using r by (metis list.sel(3))
  finally show ?thesis .
qed

section \<open>The AVL invariant\<close>

text \<open>
  Stored fields are right and sibling heights differ by at most one. Heights and sizes are
  32-bit fields, so the invariant is only meaningful while they fit: \<open>small\<close>.
\<close>

fun avl :: "'a atree \<Rightarrow> bool" where
  "avl Leaf = True"
| "avl (Node l (a, h, c) r) =
     (avl l \<and> avl r \<and> height l \<le> height r + 1 \<and> height r \<le> height l + 1
      \<and> h = of_nat (1 + max (height l) (height r)) \<and> c = of_nat (1 + size l + size r))"

definition small :: "'a atree \<Rightarrow> bool" where
  "small t \<longleftrightarrow> size t + 4 < 2 ^ 32"

lemma height_le_size: "height t \<le> size (t :: 'a tree)"
  by (induction t) auto

lemma smallD:
  assumes "small t"
  shows "height t + 4 < 2 ^ 32" and "size t + 4 < 2 ^ 32"
  using assms height_le_size [of t] by (auto simp: small_def)

lemma small_subtree: "small (Node l x r) \<Longrightarrow> small l" "small (Node l x r) \<Longrightarrow> small r"
  by (auto simp: small_def)

lemma avl_ht: "avl t \<Longrightarrow> ht t = of_nat (height t)"
  by (cases t rule: ht.cases) auto

lemma avl_ct: "avl t \<Longrightarrow> ct t = of_nat (size t)"
  by (cases t rule: ct.cases) auto

lemma max_of_nat_u32:
  assumes "a < 2 ^ 32" and "b < 2 ^ 32"
  shows "max (of_nat a :: u32) (of_nat b) = of_nat (max a b)"
  using assms by (auto simp: max_def word_le_nat_alt unat_of_nat)

lemma less_of_nat_u32:
  assumes "a < 2 ^ 32" and "b < 2 ^ 32"
  shows "(of_nat a :: u32) < of_nat b \<longleftrightarrow> a < b"
  using assms by (simp add: word_less_nat_alt unat_of_nat)

lemma eq_add2_u32:
  assumes "a < 2 ^ 32" and "b + 2 < 2 ^ 32"
  shows "(of_nat a :: u32) = of_nat b + 2 \<longleftrightarrow> a = b + 2"
  using of_nat_u32_eq_iff [of a "b + 2"] assms by (simp add: add.commute)

lemma ht_less:
  assumes "avl l" "avl r" "small l" "small r"
  shows "ht l < ht r \<longleftrightarrow> height l < height r"
  using assms smallD(1) [of l] smallD(1) [of r] by (simp add: avl_ht less_of_nat_u32)

lemma ht_eq2:
  assumes "avl l" "avl r" "small l" "small r"
  shows "ht l = ht r + 2 \<longleftrightarrow> height l = height r + 2"
  using assms smallD(1) [of l] smallD(1) [of r] by (simp add: avl_ht eq_add2_u32)

text \<open>The node that \<open>avl_update\<close> builds: right fields, whatever the balance.\<close>

lemma size_mk [simp]: "size (mk l a r) = 1 + size l + size r"
  by (simp add: mk_def)

lemma height_mk [simp]: "height (mk l a r) = 1 + max (height l) (height r)"
  by (simp add: mk_def)

lemma mk_fields:
  assumes "avl l" "avl r" "small l" "small r"
  shows "mk l a r = Node l (a, of_nat (1 + max (height l) (height r)), of_nat (1 + size l + size r)) r"
  using assms smallD(1) [of l] smallD(1) [of r]
  by (simp add: mk_def avl_ht avl_ct max_of_nat_u32)

lemma avl_mk:
  assumes "avl l" "avl r" "small l" "small r"
    and "height l \<le> height r + 1" "height r \<le> height l + 1"
  shows "avl (mk l a r)"
  using assms by (simp add: mk_fields)

text \<open>Rebalancing a node whose subtrees differ by two.\<close>

lemma fixl_mk:
  assumes l: "avl l" and r: "avl r" and s: "size l + size r + 5 < 2 ^ 32"
    and h: "height l = height r + 2"
  shows "avl (fixl (mk l a r)) \<and> height (fixl (mk l a r)) \<in> {height l, height l + 1}"
proof -
  from h obtain A x hx cx B where l_eq: "l = Node A (x, hx, cx) B"
    by (cases l rule: ht.cases) auto
  note A = l [unfolded l_eq]
  have sm: "small A" "small B" "small r"
    using s by (auto simp: small_def l_eq)
  show ?thesis
  proof (cases "height A < height B")
    case False
    then have "fixl (mk l a r) = mk A x (mk B a r)"
      using A sm by (simp add: mk_def l_eq ht_less)
    moreover have "avl (mk B a r)"
      using A r sm h False by (intro avl_mk) (auto simp: l_eq)
    moreover have "small (mk B a r)"
      using s by (auto simp: small_def l_eq)
    ultimately show ?thesis
      using A sm h False by (auto simp: l_eq intro!: avl_mk)
  next
    case True
    then obtain B1 y hy cy B2 where B_eq: "B = Node B1 (y, hy, cy) B2"
      by (cases B rule: ht.cases) auto
    have sB: "small B1" "small B2"
      using s by (auto simp: small_def l_eq B_eq)
    have "fixl (mk l a r) = mk (mk A x B1) y (mk B2 a r)"
      using A sm True ht_less [of A B] by (simp add: mk_def l_eq B_eq)
    moreover have "avl (mk A x B1)" "avl (mk B2 a r)"
      using A r sm sB h True by (auto intro!: avl_mk simp: l_eq B_eq)
    moreover have "small (mk A x B1)" "small (mk B2 a r)"
      using s by (auto simp: small_def l_eq B_eq)
    ultimately show ?thesis
      using A sm h True by (auto simp: l_eq B_eq intro!: avl_mk)
  qed
qed

lemma fixr_mk:
  assumes l: "avl l" and r: "avl r" and s: "size l + size r + 5 < 2 ^ 32"
    and h: "height r = height l + 2"
  shows "avl (fixr (mk l a r)) \<and> height (fixr (mk l a r)) \<in> {height r, height r + 1}"
proof -
  from h obtain B x hx cx C where r_eq: "r = Node B (x, hx, cx) C"
    by (cases r rule: ht.cases) auto
  note A = r [unfolded r_eq]
  have sm: "small B" "small C" "small l"
    using s by (auto simp: small_def r_eq)
  show ?thesis
  proof (cases "height C < height B")
    case False
    then have "fixr (mk l a r) = mk (mk l a B) x C"
      using A sm by (simp add: mk_def r_eq ht_less)
    moreover have "avl (mk l a B)"
      using A l sm h False by (intro avl_mk) (auto simp: r_eq)
    moreover have "small (mk l a B)"
      using s by (auto simp: small_def r_eq)
    ultimately show ?thesis
      using A sm h False by (auto simp: r_eq intro!: avl_mk)
  next
    case True
    then obtain B1 y hy cy B2 where B_eq: "B = Node B1 (y, hy, cy) B2"
      by (cases B rule: ht.cases) auto
    have sB: "small B1" "small B2"
      using s by (auto simp: small_def r_eq B_eq)
    have "fixr (mk l a r) = mk (mk l a B1) y (mk B2 x C)"
      using A sm True ht_less [of C B] by (simp add: mk_def r_eq B_eq)
    moreover have "avl (mk l a B1)" "avl (mk B2 x C)"
      using A l sm sB h True by (auto intro!: avl_mk simp: r_eq B_eq)
    moreover have "small (mk l a B1)" "small (mk B2 x C)"
      using s by (auto simp: small_def r_eq B_eq)
    ultimately show ?thesis
      using A sm h True by (auto simp: r_eq B_eq intro!: avl_mk)
  qed
qed

lemma bal_spec:
  assumes "avl l" "avl r" "size l + size r + 5 < 2 ^ 32"
    and "height l \<le> height r + 2" "height r \<le> height l + 2"
  shows "avl (bal l a r)"
    and "height l \<noteq> height r + 2 \<Longrightarrow> height r \<noteq> height l + 2 \<Longrightarrow>
           height (bal l a r) = 1 + max (height l) (height r)"
    and "height l = height r + 2 \<or> height r = height l + 2 \<Longrightarrow>
           height (bal l a r) \<in> {max (height l) (height r), 1 + max (height l) (height r)}"
proof -
  have sm: "small l" "small r"
    using assms(3) by (auto simp: small_def)
  note e = ht_eq2 [OF assms(1,2) sm] ht_eq2 [OF assms(2,1) sm(2,1)]
  have e2: "ht l + 2 = ht r \<longleftrightarrow> height r = height l + 2"
    using e(2) by metis
  note cs = fixl_mk [OF assms(1-3), of a] fixr_mk [OF assms(1-3), of a]
  show "avl (bal l a r)"
    using cs assms sm unfolding bal_def e(1) e2 by (auto intro!: avl_mk)
  show "height (bal l a r) = 1 + max (height l) (height r)"
    if "height l \<noteq> height r + 2" "height r \<noteq> height l + 2"
    using that unfolding bal_def e(1) e2 by simp
  show "height (bal l a r) \<in> {max (height l) (height r), 1 + max (height l) (height r)}"
    if "height l = height r + 2 \<or> height r = height l + 2"
    using that cs unfolding bal_def e(1) e2 by auto
qed

section \<open>Rebalancing up to the root\<close>

lemma size_plug: "size (plug t fs) = length (lefts fs) + size t + length (rights fs)"
  by (simp add: length_nodes [symmetric] del: length_nodes)

lemma size_bal [simp]: "size (bal l a r) = 1 + size l + size r"
  by (simp add: length_nodes [symmetric] del: length_nodes)

lemma size_bal1 [simp]: "size (bal1 t) = size t"
  by (simp add: length_nodes [symmetric] del: length_nodes)

lemma size_fix_up: "size (fix_up t fs) = size (plug t fs)"
  by (simp add: length_nodes [symmetric] del: length_nodes)

lemma avl_plugD: "avl (plug t fs) \<Longrightarrow> avl t"
proof (induction fs arbitrary: t)
  case (Cons f fs)
  then show ?case by (cases f) (force elim: avl.elims)+
qed simp

text \<open>A node whose two subtrees are balanced and differ by at most two: what the loop meets.\<close>

fun near :: "'a atree \<Rightarrow> bool" where
  "near Leaf = False"
| "near (Node l (a, _) r) \<longleftrightarrow> avl l \<and> avl r \<and> height l \<le> height r + 2 \<and> height r \<le> height l + 2"

lemma bal1_spec:
  assumes "near t" "small t"
  shows "avl (bal1 t)"
    and "height (bal1 t) \<le> height t" "height t \<le> height (bal1 t) + 1"
proof -
  obtain l a h c r where t: "t = Node l (a, h, c) r"
    using assms(1) by (cases t rule: near.cases) auto
  have s: "size l + size r + 5 < 2 ^ 32"
    using assms(2) by (simp add: t small_def)
  note sp = bal_spec [OF _ _ s, of a]
  show "avl (bal1 t)"
    using assms sp(1) by (simp add: t)
  show "height (bal1 t) \<le> height t" "height t \<le> height (bal1 t) + 1"
    using assms(1) sp(2,3) by (force simp: t)+
qed

lemma climb_arith:
  fixes b h0 k H :: nat
  assumes "b \<le> h0 + 1" "h0 \<le> b + 1" "k \<le> h0 + 1" "h0 \<le> k + 1"
    and "b \<noteq> k + 2 \<Longrightarrow> k \<noteq> b + 2 \<Longrightarrow> H = 1 + max b k"
    and "b = k + 2 \<or> k = b + 2 \<Longrightarrow> H \<in> {max b k, 1 + max b k}"
  shows "H \<le> 1 + max h0 k + 1 \<and> 1 + max h0 k \<le> H + 1"
proof (cases "b = k + 2 \<or> k = b + 2")
  case True
  from assms(6) [OF this] assms(1-4) True show ?thesis by (auto simp: max_def)
next
  case False
  with assms show ?thesis by (auto simp: max_def)
qed

text \<open>
  A subtree of an AVL tree is replaced by one that, once rebalanced, is at most one higher or
  lower; the loop then restores the invariant all the way up.
\<close>

lemma avl_fix_up:
  assumes "avl (plug t0 fs)" "near t" "small (plug t fs)"
    and "height (bal1 t) \<le> height t0 + 1" "height t0 \<le> height (bal1 t) + 1"
  shows "avl (fix_up t fs)"
  using assms
proof (induction fs arbitrary: t0 t)
  case Nil
  then show ?case by (simp add: bal1_spec)
next
  case (Cons f fs)
  have sm: "small t" "small (plug1 t f)"
    using Cons.prems(3) by (cases f; simp add: small_def size_plug)+
  have b: "avl (bal1 t)"
    using Cons.prems(2) sm(1) by (rule bal1_spec)
  have p: "avl (plug1 t0 f)"
    using Cons.prems(1) avl_plugD by auto
  have near: "near (plug1 (bal1 t) f)"
    using p b Cons.prems(4,5) by (cases f) (auto elim: avl.elims)
  have sz: "small (plug1 (bal1 t) f)"
    using sm(2) by (cases f) (auto simp: small_def)
  have ht: "height (bal1 (plug1 (bal1 t) f)) \<le> height (plug1 t0 f) + 1 \<and>
      height (plug1 t0 f) \<le> height (bal1 (plug1 (bal1 t) f)) + 1"
  proof (cases f)
    case (InL x r)
    then obtain a h c where x: "x = (a, h, c)" by (cases x) auto
    have s: "size (bal1 t) + size r + 5 < 2 ^ 32"
      using sz by (simp add: InL small_def)
    have r: "avl r" "height r \<le> height t0 + 1" "height t0 \<le> height r + 1"
      using p by (simp_all add: InL x)
    show ?thesis
      using climb_arith [OF Cons.prems(4,5) r(2,3), of "height (bal (bal1 t) a r)"]
        bal_spec(2,3) [OF b r(1) s, of a] Cons.prems(4,5) r(2,3)
      by (simp add: InL x)
  next
    case (InR l x)
    then obtain a h c where x: "x = (a, h, c)" by (cases x) auto
    have s: "size l + size (bal1 t) + 5 < 2 ^ 32"
      using sz by (simp add: InR small_def)
    have l: "avl l" "height l \<le> height t0 + 1" "height t0 \<le> height l + 1"
      using p by (simp_all add: InR x)
    show ?thesis
      using climb_arith [OF Cons.prems(4,5) l(2,3), of "height (bal l a (bal1 t))"]
        bal_spec(2,3) [OF l(1) b s, of a] Cons.prems(4,5) l(2,3)
      by (simp add: InR x max.commute disj_commute)
  qed
  have "small (plug (plug1 (bal1 t) f) fs)"
    using Cons.prems(3) by (cases f) (auto simp: small_def size_plug)
  then have "avl (fix_up (plug1 (bal1 t) f) fs)"
    using Cons.prems(1) near ht by (intro Cons.IH [of "plug1 t0 f"]) auto
  then show ?case by simp
qed

text \<open>Inserting a fresh leaf where a subtree was empty.\<close>

lemma avl_insert_at:
  assumes "avl (plug Leaf fs)" "size (plug Leaf fs) + 5 < 2 ^ 32"
  shows "avl (fix_up (Node Leaf (a, 1, 1) Leaf) fs)"
proof -
  have "height (bal1 (Node Leaf (a, 1, 1) Leaf)) = 1"
    using bal_spec(2) [of Leaf Leaf a] by simp
  then show ?thesis
    using assms by (intro avl_fix_up [of Leaf]) (auto simp: small_def size_plug)
qed

text \<open>Detaching a node with at most one child.\<close>

lemma avl_detach_up:
  assumes "avl (plug (Node l x r) fs)" "l = Leaf \<or> r = Leaf" "small (plug (Node l x r) fs)"
    and "child = (if l = Leaf then r else l)"
  shows "avl (detach_up child fs)"
proof (cases fs)
  case Nil
  then show ?thesis
    using assms by (cases x) auto
next
  case (Cons f gs)
  have t: "avl (Node l x r)"
    using assms(1) by (rule avl_plugD)
  have c: "avl child" "height (Node l x r) = height child + 1"
    using t assms(2,4) by (cases x; force)+
  have p: "avl (plug1 (Node l x r) f)"
    using assms(1) Cons avl_plugD by auto
  have near: "near (plug1 child f)"
    using p c assms(2) by (cases f) (auto elim: avl.elims)
  have s: "size child \<le> size (Node l x r)"
    using assms(4) by auto
  have sm: "small (plug (plug1 child f) gs)" "small (plug1 child f)"
    using assms(3) s Cons by (cases f; force simp: small_def size_plug)+
  have "height (plug1 child f) \<le> height (plug1 (Node l x r) f)"
    "height (plug1 (Node l x r) f) \<le> height (plug1 child f) + 1"
    using c(2) by (cases f; simp add: max_def)+
  moreover have "height (bal1 (plug1 child f)) + 1 \<ge> height (plug1 (Node l x r) f)"
  proof (cases f)
    case (InL y r')
    obtain a h c' where y: "y = (a, h, c')" by (cases y) auto
    show ?thesis
      using near p c sm(2) bal_spec(2,3) [of child r' a]
      by (cases "height r' = height child + 2") (auto simp: InL y small_def max_def split: if_splits)
  next
    case (InR l' y)
    obtain a h c' where y: "y = (a, h, c')" by (cases y) auto
    show ?thesis
      using near p c sm(2) bal_spec(2,3) [of l' child a]
      by (cases "height l' = height child + 2") (auto simp: InR y small_def max_def split: if_splits)
  qed
  ultimately show ?thesis
    using Cons near sm assms(1) bal1_spec [OF near sm(2)]
    by (auto intro!: avl_fix_up [of "plug1 (Node l x r) f"])
qed

section \<open>A bound on the stored heights\<close>

text \<open>
  The comparisons \<open>l == r + 2\<close> are made modulo \<open>2^32\<close>. They mean what they say as long as
  every stored height is well below that, which \<open>hle K\<close> states without asking that the
  stored heights be right.
\<close>

fun hle :: "nat \<Rightarrow> 'a atree \<Rightarrow> bool" where
  "hle K Leaf = True"
| "hle K (Node l (a, h, c) r) \<longleftrightarrow> unat h \<le> K \<and> hle K l \<and> hle K r"

fun hle_ctx :: "nat \<Rightarrow> ('a \<times> u32 \<times> u32) frame list \<Rightarrow> bool" where
  "hle_ctx K [] = True"
| "hle_ctx K (InL (a, h, c) r # fs) \<longleftrightarrow> unat h \<le> K \<and> hle K r \<and> hle_ctx K fs"
| "hle_ctx K (InR l (a, h, c) # fs) \<longleftrightarrow> unat h \<le> K \<and> hle K l \<and> hle_ctx K fs"

lemma hle_mono: "hle K t \<Longrightarrow> K \<le> K' \<Longrightarrow> hle K' t"
  by (induction K t rule: hle.induct) auto

lemma hle_ctx_mono: "hle_ctx K fs \<Longrightarrow> K \<le> K' \<Longrightarrow> hle_ctx K' fs"
  by (induction K fs rule: hle_ctx.induct) (auto intro: hle_mono)

lemma hle_plug: "hle K (plug t fs) \<longleftrightarrow> hle K t \<and> hle_ctx K fs"
proof (induction fs arbitrary: t)
  case (Cons f fs)
  show ?case
  proof (cases f)
    case (InL x r)
    then show ?thesis using Cons [of "plug1 t f"] by (cases x) auto
  next
    case (InR l x)
    then show ?thesis using Cons [of "plug1 t f"] by (cases x) auto
  qed
qed simp

lemma hle_ht: "hle K t \<Longrightarrow> unat (ht t) \<le> K"
  by (cases t rule: ht.cases) auto

lemma unat_Suc_max:
  assumes "unat (a :: u32) \<le> K" "unat b \<le> K" "K + 1 < 2 ^ 32"
  shows "unat (1 + max a b) \<le> K + 1"
  using assms by (simp add: max_def unat_word_ariths)

lemma hle_mk:
  assumes "hle K l" "hle K r" "K + 1 < 2 ^ 32"
  shows "hle (Suc K) (mk l a r)"
  using assms unat_Suc_max [of "ht l" K "ht r"] by (auto simp: mk_def hle_ht intro: hle_mono)

lemma hle_rotl:
  assumes "hle K (Node A x (Node B y C))" "K + 2 < 2 ^ 32"
  shows "hle (Suc (Suc K)) (rotl (Node A x (Node B y C)))"
proof -
  obtain a h c b h' c' where xy: "x = (a, h, c)" "y = (b, h', c')" by (cases x, cases y) auto
  have "hle (Suc K) (mk A a B)" "hle (Suc K) C"
    using assms by (auto simp: xy intro!: hle_mk intro: hle_mono)
  then show ?thesis
    using hle_mk [of "Suc K" "mk A a B" C b] assms(2) by (simp add: xy)
qed

lemma fits_ne_Leaf:
  assumes "hle K r" "K + 2 < 2 ^ 32" "ht l = ht r + 2"
  shows "l \<noteq> Leaf"
proof
  assume "l = Leaf"
  then have "unat (ht r + 2) = 0"
    using assms(3) by simp
  moreover have "unat (ht r + 2) = unat (ht r) + 2"
    using assms(2) hle_ht [OF assms(1)] by (simp add: unat_word_ariths)
  ultimately show False by simp
qed

lemma hle_fixl:
  assumes "hle K l" "hle K r" "K + 2 < 2 ^ 32" "l \<noteq> Leaf"
  shows "hle (Suc (Suc K)) (fixl (mk l a r))"
proof -
  obtain A b h c B where l: "l = Node A (b, h, c) B"
    using assms(4) by (cases l rule: ht.cases) auto
  show ?thesis
  proof (cases "ht A < ht B")
    case False
    have "hle (Suc K) (mk B a r)" "hle (Suc K) A"
      using assms by (auto simp: l intro!: hle_mk intro: hle_mono)
    then show ?thesis
      using False hle_mk [of "Suc K" A "mk B a r" b] assms(3) by (simp add: mk_def l)
  next
    case True
    from True have "B \<noteq> Leaf" by auto
    then obtain B1 y h' c' B2 where B: "B = Node B1 (y, h', c') B2" by (cases B rule: ht.cases) auto
    have "hle (Suc K) (mk A b B1)" "hle (Suc K) (mk B2 a r)"
      using assms by (auto simp: l B intro!: hle_mk)
    then show ?thesis
      using True hle_mk [of "Suc K" "mk A b B1" "mk B2 a r" y] assms(3) by (simp add: mk_def l B)
  qed
qed

lemma hle_fixr:
  assumes "hle K l" "hle K r" "K + 2 < 2 ^ 32" "r \<noteq> Leaf"
  shows "hle (Suc (Suc K)) (fixr (mk l a r))"
proof -
  obtain B b h c A where r: "r = Node B (b, h, c) A"
    using assms(4) by (cases r rule: ht.cases) auto
  show ?thesis
  proof (cases "ht A < ht B")
    case False
    have "hle (Suc K) (mk l a B)" "hle (Suc K) A"
      using assms by (auto simp: r intro!: hle_mk intro: hle_mono)
    then show ?thesis
      using False hle_mk [of "Suc K" "mk l a B" A b] assms(3) by (simp add: mk_def r)
  next
    case True
    from True have "B \<noteq> Leaf" by auto
    then obtain B1 y h' c' B2 where B: "B = Node B1 (y, h', c') B2" by (cases B rule: ht.cases) auto
    have "hle (Suc K) (mk l a B1)" "hle (Suc K) (mk B2 b A)"
      using assms by (auto simp: r B intro!: hle_mk)
    then show ?thesis
      using True hle_mk [of "Suc K" "mk l a B1" "mk B2 b A" y] assms(3) by (simp add: mk_def r B)
  qed
qed

lemma hle_bal:
  assumes "hle K l" "hle K r" "K + 2 < 2 ^ 32"
  shows "hle (Suc (Suc K)) (bal l a r)"
proof -
  have "hle (Suc (Suc K)) (mk l a r)"
    using hle_mk [OF assms(1,2), of a] assms(3) by (auto intro: hle_mono)
  then show ?thesis
    using assms fits_ne_Leaf [OF assms(2,3), of l] fits_ne_Leaf [OF assms(1,3), of r]
    by (auto simp: bal_def intro: hle_fixl hle_fixr)
qed

lemma hle_fix_up:
  assumes "hle K (plug t fs)" "K + 2 * length fs + 2 < 2 ^ 32"
  shows "hle (K + 2 * length fs + 2) (fix_up t fs)"
  using assms
proof (induction fs arbitrary: t K)
  case Nil
  then show ?case by (cases t rule: bal1.cases) (auto intro!: hle_bal)
next
  case (Cons f fs)
  have "hle (Suc (Suc K)) (bal1 t)"
    using Cons.prems hle_plug [of K t "f # fs"]
    by (cases t rule: bal1.cases) (auto intro!: hle_bal)
  moreover have "hle_ctx (Suc (Suc K)) (f # fs)"
    using Cons.prems(1) hle_plug [of K t "f # fs"] by (auto intro: hle_ctx_mono)
  ultimately have "hle (Suc (Suc K)) (plug (plug1 (bal1 t) f) fs)"
    using hle_plug [of "Suc (Suc K)" "bal1 t" "f # fs"] by simp
  from Cons.IH [OF this] Cons.prems(2) show ?case by simp
qed

lemma length_path:
  fixes fs :: "('a \<times> u32 \<times> u32) frame list"
  shows "length fs \<le> size (plug t fs)"
proof -
  have "length fs \<le> length (lefts fs) + length (rights fs)"
    by (induction fs rule: lefts.induct) auto
  then show ?thesis by (simp add: size_plug)
qed

text \<open>Right heights are small.\<close>

lemma avl_hle:
  assumes "avl t" "small t"
  shows "hle (size t) t"
  using assms
proof (induction t rule: avl.induct)
  case (2 l a h c r)
  have "hle (size l) l" "hle (size r) r"
    using 2 by (auto dest: small_subtree)
  moreover have "h = of_nat (Suc (max (height l) (height r)))"
    using 2(3) by simp
  then have "unat h \<le> size l + size r + 1"
    using height_le_size [of l] height_le_size [of r] smallD(1) [OF 2(4)]
    by (simp add: unat_of_nat del: of_nat_Suc)
  ultimately show ?case
    by (auto intro: hle_mono)
qed simp

end
