(* ===== verification/Avl.thy ===== *)
theory Avl
  imports AvlTree
begin

text \<open>
  avl.h and avl.cpp: the intrusive AVL tree with parent pointers. A memory maps addresses to
  nodes; every operation is the pointer program of the source, and \<open>None\<close> is a dereference
  of a null or dead pointer, a failed assertion, or a loop that does not end. Trees as values
  (theory \<open>AvlTree\<close>) are related to memories by \<open>tree_at\<close>.
\<close>

section \<open>Nodes and memory\<close>

record avlnode =
  n_parent :: ptr
  n_left :: ptr
  n_right :: ptr
  n_height :: u32
  n_cnt :: u32

type_synonym avlmem = "addr \<rightharpoonup> avlnode"

definition rd :: "(avlnode \<Rightarrow> 'b) \<Rightarrow> avlmem \<Rightarrow> ptr \<Rightarrow> 'b option" where
  "rd f m p = (case p of None \<Rightarrow> None | Some a \<Rightarrow> map_option f (m a))"

definition wr :: "(avlnode \<Rightarrow> avlnode) \<Rightarrow> avlmem \<Rightarrow> ptr \<Rightarrow> avlmem option" where
  "wr f m p = (case p of None \<Rightarrow> None | Some a \<Rightarrow> map_option (\<lambda>n. m(a \<mapsto> f n)) (m a))"

definition set_parent :: "ptr \<Rightarrow> avlnode \<Rightarrow> avlnode" where
  "set_parent p n = n\<lparr>n_parent := p\<rparr>"

definition set_left :: "ptr \<Rightarrow> avlnode \<Rightarrow> avlnode" where
  "set_left p n = n\<lparr>n_left := p\<rparr>"

definition set_right :: "ptr \<Rightarrow> avlnode \<Rightarrow> avlnode" where
  "set_right p n = n\<lparr>n_right := p\<rparr>"

definition avl_init :: "avlmem \<Rightarrow> ptr \<Rightarrow> avlmem option" where
  "avl_init m node =
     wr (\<lambda>n. \<lparr>n_parent = None, n_left = None, n_right = None, n_height = 1, n_cnt = 1\<rparr>) m node"

section \<open>The operations\<close>

definition avl_height :: "avlmem \<Rightarrow> ptr \<Rightarrow> u32 option" where
  "avl_height m node = (if node = None then Some 0 else rd n_height m node)"

definition avl_cnt :: "avlmem \<Rightarrow> ptr \<Rightarrow> u32 option" where
  "avl_cnt m node = (if node = None then Some 0 else rd n_cnt m node)"

definition avl_max :: "u32 \<Rightarrow> u32 \<Rightarrow> u32" where
  "avl_max lhs rhs = (if lhs < rhs then rhs else lhs)"

definition avl_update :: "avlmem \<Rightarrow> ptr \<Rightarrow> avlmem option" where
  "avl_update m node = do {
     l \<leftarrow> rd n_left m node;
     r \<leftarrow> rd n_right m node;
     hl \<leftarrow> avl_height m l;
     hr \<leftarrow> avl_height m r;
     m \<leftarrow> wr (\<lambda>n. n\<lparr>n_height := 1 + avl_max hl hr\<rparr>) m node;
     cl \<leftarrow> avl_cnt m l;
     cr \<leftarrow> avl_cnt m r;
     wr (\<lambda>n. n\<lparr>n_cnt := 1 + cl + cr\<rparr>) m node
   }"

definition rot_left :: "avlmem \<Rightarrow> ptr \<Rightarrow> (avlmem \<times> ptr) option" where
  "rot_left m node = do {
     parent \<leftarrow> rd n_parent m node;
     new_node \<leftarrow> rd n_right m node;
     inner \<leftarrow> rd n_left m new_node;
     m \<leftarrow> wr (set_right inner) m node;
     m \<leftarrow> (if inner \<noteq> None then wr (set_parent node) m inner else Some m);
     m \<leftarrow> wr (set_parent parent) m new_node;
     m \<leftarrow> wr (set_left node) m new_node;
     m \<leftarrow> wr (set_parent new_node) m node;
     m \<leftarrow> avl_update m node;
     m \<leftarrow> avl_update m new_node;
     Some (m, new_node)
   }"

definition rot_right :: "avlmem \<Rightarrow> ptr \<Rightarrow> (avlmem \<times> ptr) option" where
  "rot_right m node = do {
     parent \<leftarrow> rd n_parent m node;
     new_node \<leftarrow> rd n_left m node;
     inner \<leftarrow> rd n_right m new_node;
     m \<leftarrow> wr (set_left inner) m node;
     m \<leftarrow> (if inner \<noteq> None then wr (set_parent node) m inner else Some m);
     m \<leftarrow> wr (set_parent parent) m new_node;
     m \<leftarrow> wr (set_right node) m new_node;
     m \<leftarrow> wr (set_parent new_node) m node;
     m \<leftarrow> avl_update m node;
     m \<leftarrow> avl_update m new_node;
     Some (m, new_node)
   }"

definition avl_fix_left :: "avlmem \<Rightarrow> ptr \<Rightarrow> (avlmem \<times> ptr) option" where
  "avl_fix_left m node = do {
     l \<leftarrow> rd n_left m node;
     ll \<leftarrow> rd n_left m l;
     lr \<leftarrow> rd n_right m l;
     h1 \<leftarrow> avl_height m ll;
     h2 \<leftarrow> avl_height m lr;
     m \<leftarrow> (if h1 < h2 then do {
              (m, l') \<leftarrow> rot_left m l;
              wr (set_left l') m node
            } else Some m);
     rot_right m node
   }"

definition avl_fix_right :: "avlmem \<Rightarrow> ptr \<Rightarrow> (avlmem \<times> ptr) option" where
  "avl_fix_right m node = do {
     r \<leftarrow> rd n_right m node;
     rr \<leftarrow> rd n_right m r;
     rl \<leftarrow> rd n_left m r;
     h1 \<leftarrow> avl_height m rr;
     h2 \<leftarrow> avl_height m rl;
     m \<leftarrow> (if h1 < h2 then do {
              (m, r') \<leftarrow> rot_right m r;
              wr (set_right r') m node
            } else Some m);
     rot_left m node
   }"

text \<open>
  The pointer \<open>from\<close> of the source is one of three places: the local variable, the parent's
  \<open>left\<close> or its \<open>right\<close>. Writing through it is \<open>wr_from\<close>.
\<close>

datatype from_slot = FromLocal | FromLeft ptr | FromRight ptr

definition child_slot :: "avlmem \<Rightarrow> ptr \<Rightarrow> ptr \<Rightarrow> from_slot option" where
  "child_slot m parent node =
     (if parent = None then Some FromLocal
      else do {
        l \<leftarrow> rd n_left m parent;
        Some (if l = node then FromLeft parent else FromRight parent)
      })"

definition wr_from :: "avlmem \<Rightarrow> from_slot \<Rightarrow> ptr \<Rightarrow> avlmem option" where
  "wr_from m from p =
     (case from of
        FromLocal \<Rightarrow> Some m
      | FromLeft parent \<Rightarrow> wr (set_left p) m parent
      | FromRight parent \<Rightarrow> wr (set_right p) m parent)"

partial_function (option) avl_fix :: "avlmem \<Rightarrow> ptr \<Rightarrow> (avlmem \<times> ptr) option" where
  "avl_fix m node = do {
     parent \<leftarrow> rd n_parent m node;
     from \<leftarrow> child_slot m parent node;
     m \<leftarrow> avl_update m node;
     l \<leftarrow> rd n_left m node;
     r \<leftarrow> rd n_right m node;
     hl \<leftarrow> avl_height m l;
     hr \<leftarrow> avl_height m r;
     (m, res) \<leftarrow> (if hl = hr + 2 then do {
                     (m, t) \<leftarrow> avl_fix_left m node;
                     m \<leftarrow> wr_from m from t;
                     Some (m, t)
                   } else if hl + 2 = hr then do {
                     (m, t) \<leftarrow> avl_fix_right m node;
                     m \<leftarrow> wr_from m from t;
                     Some (m, t)
                   } else Some (m, node));
     if parent = None then Some (m, res) else avl_fix m parent
   }"

definition avl_del_easy :: "avlmem \<Rightarrow> ptr \<Rightarrow> (avlmem \<times> ptr) option" where
  "avl_del_easy m node = do {
     l \<leftarrow> rd n_left m node;
     r \<leftarrow> rd n_right m node;
     guard (l = None \<or> r = None);
     let child = (if l \<noteq> None then l else r);
     parent \<leftarrow> rd n_parent m node;
     m \<leftarrow> (if child \<noteq> None then wr (set_parent parent) m child else Some m);
     if parent = None then Some (m, child)
     else do {
       from \<leftarrow> child_slot m parent node;
       m \<leftarrow> wr_from m from child;
       avl_fix m parent
     }
   }"

partial_function (option) find_leftmost :: "avlmem \<Rightarrow> ptr \<Rightarrow> ptr option" where
  "find_leftmost m victim = do {
     l \<leftarrow> rd n_left m victim;
     if l = None then Some victim else find_leftmost m l
   }"

definition avl_del :: "avlmem \<Rightarrow> ptr \<Rightarrow> (avlmem \<times> ptr) option" where
  "avl_del m node =
     (if node = None then Some (m, None)
      else do {
        l \<leftarrow> rd n_left m node;
        r \<leftarrow> rd n_right m node;
        if l = None \<or> r = None then avl_del_easy m node
        else do {
          victim \<leftarrow> find_leftmost m r;
          (m, root) \<leftarrow> avl_del_easy m victim;
          nl \<leftarrow> rd n_left m node;
          nr \<leftarrow> rd n_right m node;
          np \<leftarrow> rd n_parent m node;
          m \<leftarrow> wr (set_left nl) m victim;
          m \<leftarrow> wr (set_right nr) m victim;
          m \<leftarrow> wr (set_parent np) m victim;
          m \<leftarrow> (if nl \<noteq> None then wr (set_parent victim) m nl else Some m);
          m \<leftarrow> (if nr \<noteq> None then wr (set_parent victim) m nr else Some m);
          from \<leftarrow> child_slot m np node;
          m \<leftarrow> wr_from m from victim;
          Some (m, if from = FromLocal then victim else root)
        }
      })"

text \<open>
  \<open>Some None\<close> is the null result. Positions are \<open>int64_t\<close> in the source; they are sums of
  32-bit counts of disjoint sets of nodes, so they do not overflow and are integers here.
\<close>

partial_function (option) avl_offset_from :: "avlmem \<Rightarrow> ptr \<Rightarrow> int \<Rightarrow> int \<Rightarrow> ptr option" where
  "avl_offset_from m node offset pos =
     (if offset = pos then Some node
      else do {
        go_right \<leftarrow> (if pos < offset then do {
                        r \<leftarrow> rd n_right m node;
                        c \<leftarrow> avl_cnt m r;
                        Some (pos + uint c \<ge> offset)
                      } else Some False);
        go_left \<leftarrow> (if \<not> go_right \<and> pos > offset then do {
                       l \<leftarrow> rd n_left m node;
                       c \<leftarrow> avl_cnt m l;
                       Some (pos - uint c \<le> offset)
                     } else Some False);
        if go_right then do {
          node \<leftarrow> rd n_right m node;
          l \<leftarrow> rd n_left m node;
          c \<leftarrow> avl_cnt m l;
          avl_offset_from m node offset (pos + uint (c + 1))
        } else if go_left then do {
          node \<leftarrow> rd n_left m node;
          r \<leftarrow> rd n_right m node;
          c \<leftarrow> avl_cnt m r;
          avl_offset_from m node offset (pos - uint (c + 1))
        } else do {
          parent \<leftarrow> rd n_parent m node;
          if parent = None then Some None
          else do {
            pr \<leftarrow> rd n_right m parent;
            if pr = node then do {
              l \<leftarrow> rd n_left m node;
              c \<leftarrow> avl_cnt m l;
              avl_offset_from m parent offset (pos - uint (c + 1))
            } else do {
              r \<leftarrow> rd n_right m node;
              c \<leftarrow> avl_cnt m r;
              avl_offset_from m parent offset (pos + uint (c + 1))
            }
          }
        }
      })"

definition avl_offset :: "avlmem \<Rightarrow> ptr \<Rightarrow> int \<Rightarrow> ptr option" where
  "avl_offset m node offset = avl_offset_from m node offset 0"

text \<open>The loops run on a closed memory by unfolding their equations.\<close>

declare avl_fix.simps [code] find_leftmost.simps [code] avl_offset_from.simps [code]

end
