(* ===== verification/AvlRefine.thy ===== *)
theory AvlRefine
  imports Avl
begin

text \<open>
  The pointer program of theory \<open>Avl\<close> computes the functions of theory \<open>AvlTree\<close>: a
  simulation through \<open>tree_at\<close>, with the parts of the memory outside the tree unchanged.
\<close>

section \<open>Trees in memory\<close>

fun root :: "addr atree \<Rightarrow> ptr" where
  "root Leaf = None"
| "root (Node l (a, h, c) r) = Some a"

text \<open>\<open>tree_at m p t\<close>: the memory holds the tree \<open>t\<close>, and the parent pointer of its root is \<open>p\<close>.\<close>

fun tree_at :: "avlmem \<Rightarrow> ptr \<Rightarrow> addr atree \<Rightarrow> bool" where
  "tree_at m p Leaf = True"
| "tree_at m p (Node l (a, h, c) r) \<longleftrightarrow>
     m a = Some \<lparr>n_parent = p, n_left = root l, n_right = root r, n_height = h, n_cnt = c\<rparr>
     \<and> tree_at m (Some a) l \<and> tree_at m (Some a) r"

fun up_ptr :: "(addr \<times> u32 \<times> u32) frame list \<Rightarrow> ptr" where
  "up_ptr [] = None"
| "up_ptr (InL x r # fs) = Some (fst x)"
| "up_ptr (InR l x # fs) = Some (fst x)"

text \<open>\<open>ctx_at m p fs\<close>: the memory holds the surroundings \<open>fs\<close> of a subtree with root \<open>p\<close>.\<close>

fun ctx_at :: "avlmem \<Rightarrow> ptr \<Rightarrow> (addr \<times> u32 \<times> u32) frame list \<Rightarrow> bool" where
  "ctx_at m p [] = True"
| "ctx_at m p (InL (a, h, c) r # fs) \<longleftrightarrow>
     m a = Some \<lparr>n_parent = up_ptr fs, n_left = p, n_right = root r, n_height = h, n_cnt = c\<rparr>
     \<and> tree_at m (Some a) r \<and> ctx_at m (Some a) fs"
| "ctx_at m p (InR l (a, h, c) # fs) \<longleftrightarrow>
     m a = Some \<lparr>n_parent = up_ptr fs, n_left = root l, n_right = p, n_height = h, n_cnt = c\<rparr>
     \<and> tree_at m (Some a) l \<and> ctx_at m (Some a) fs"

text \<open>Memories that agree outside a set of addresses.\<close>

definition same_except :: "avlmem \<Rightarrow> avlmem \<Rightarrow> addr set \<Rightarrow> bool" where
  "same_except m m' A \<longleftrightarrow> (\<forall>a. a \<notin> A \<longrightarrow> m' a = m a)"

lemma same_except_refl [simp]: "same_except m m A"
  by (simp add: same_except_def)

lemma same_except_trans:
  "same_except m m' A \<Longrightarrow> same_except m' m'' B \<Longrightarrow> A \<union> B \<subseteq> C \<Longrightarrow> same_except m m'' C"
  unfolding same_except_def by (metis UnCI subsetD)

lemma same_except_mono: "same_except m m' A \<Longrightarrow> A \<subseteq> B \<Longrightarrow> same_except m m' B"
  by (auto simp: same_except_def)

lemma same_exceptD: "same_except m m' A \<Longrightarrow> a \<notin> A \<Longrightarrow> m' a = m a"
  by (simp add: same_except_def)

lemma tree_at_cong: "(\<And>a. a \<in> set (nodes t) \<Longrightarrow> m' a = m a) \<Longrightarrow> tree_at m' p t = tree_at m p t"
  by (induction m p t rule: tree_at.induct) auto

lemma tree_at_frame:
  "tree_at m p t \<Longrightarrow> same_except m m' A \<Longrightarrow> set (nodes t) \<inter> A = {} \<Longrightarrow> tree_at m' p t"
  using tree_at_cong [of t m' m p] by (auto simp: same_except_def)

lemma tree_at_upd [simp]: "a \<notin> set (nodes t) \<Longrightarrow> tree_at (m(a := v)) p t = tree_at m p t"
  by (rule tree_at_cong) auto

lemma ctx_at_cong:
  "(\<And>a. a \<in> set (lefts fs) \<union> set (rights fs) \<Longrightarrow> m' a = m a) \<Longrightarrow> ctx_at m' p fs = ctx_at m p fs"
proof (induction m p fs rule: ctx_at.induct)
  case (2 m p a h c r fs)
  then show ?case using tree_at_cong [of r m' m "Some a"] by auto
next
  case (3 m p l a h c fs)
  then show ?case using tree_at_cong [of l m' m "Some a"] by auto
qed simp

lemma ctx_at_upd [simp]:
  "a \<notin> set (lefts fs) \<union> set (rights fs) \<Longrightarrow> ctx_at (m(a := v)) p fs = ctx_at m p fs"
  by (rule ctx_at_cong) auto

lemma ctx_at_frame:
  "ctx_at m p fs \<Longrightarrow> same_except m m' A \<Longrightarrow> (set (lefts fs) \<union> set (rights fs)) \<inter> A = {} \<Longrightarrow> ctx_at m' p fs"
  using ctx_at_cong [of fs m' m p] by (auto simp: same_except_def)

lemma tree_at_plug: "tree_at m None (plug t fs) \<longleftrightarrow> tree_at m (up_ptr fs) t \<and> ctx_at m (root t) fs"
proof (induction fs arbitrary: t)
  case (Cons f fs)
  show ?case
  proof (cases f)
    case (InL x r)
    then show ?thesis using Cons [of "plug1 t f"] by (cases x) auto
  next
    case (InR l x)
    then show ?thesis using Cons [of "plug1 t f"] by (cases x) auto
  qed
qed simp

lemma tree_at_dom: "tree_at m p t \<Longrightarrow> a \<in> set (nodes t) \<Longrightarrow> a \<in> dom m"
  by (induction m p t rule: tree_at.induct) auto

lemma root_eq_None [simp]: "root t = None \<longleftrightarrow> t = Leaf"
  by (cases t rule: root.cases) auto

lemma root_in_nodes: "root t = Some a \<Longrightarrow> a \<in> set (nodes t)"
  by (cases t rule: root.cases) auto

lemma root_mk [simp]: "root (mk l a r) = Some a"
  by (simp add: mk_def)

section \<open>Running the basic operations\<close>

lemma rd_simps [mem_simps]:
  "rd f m None = None"
  "rd f m (Some a) = map_option f (m a)"
  by (simp_all add: rd_def)

lemma wr_simps [mem_simps]:
  "wr f m None = None"
  "wr f m (Some a) = map_option (\<lambda>n. m(a \<mapsto> f n)) (m a)"
  by (simp_all add: wr_def)

lemma set_simps [mem_simps]:
  "set_parent p n = n\<lparr>n_parent := p\<rparr>"
  "set_left p n = n\<lparr>n_left := p\<rparr>"
  "set_right p n = n\<lparr>n_right := p\<rparr>"
  by (simp_all add: set_parent_def set_left_def set_right_def)

lemma avl_max_eq [simp]: "avl_max a b = max a b"
  unfolding avl_max_def max_def by auto

lemma avl_height_root [mem_simps]: "tree_at m p t \<Longrightarrow> avl_height m (root t) = Some (ht t)"
  by (cases t rule: ht.cases) (auto simp: avl_height_def rd_simps)

lemma avl_cnt_root [mem_simps]: "tree_at m p t \<Longrightarrow> avl_cnt m (root t) = Some (ct t)"
  by (cases t rule: ct.cases) (auto simp: avl_cnt_def rd_simps)

lemma avl_update_run:
  assumes "m a = Some \<lparr>n_parent = p, n_left = root l, n_right = root r, n_height = h, n_cnt = c\<rparr>"
    and "tree_at m (Some a) l" "tree_at m (Some a) r" "a \<notin> set (nodes l)" "a \<notin> set (nodes r)"
  shows "avl_update m (Some a) =
     Some (m(a \<mapsto> \<lparr>n_parent = p, n_left = root l, n_right = root r,
                   n_height = 1 + max (ht l) (ht r), n_cnt = 1 + ct l + ct r\<rparr>))"
proof -
  let ?m = "m(a \<mapsto> \<lparr>n_parent = p, n_left = root l, n_right = root r,
                   n_height = 1 + max (ht l) (ht r), n_cnt = c\<rparr>)"
  have "tree_at ?m (Some a) l" "tree_at ?m (Some a) r"
    using assms by simp_all
  then show ?thesis
    using assms by (simp add: avl_update_def mem_simps)
qed

lemma avl_update_tree:
  assumes "tree_at m p (Node l (a, h, c) r)" "distinct (nodes (Node l (a, h, c) r))"
  shows "\<exists>m'. avl_update m (Some a) = Some m' \<and> tree_at m' p (mk l a r) \<and> same_except m m' {a}"
  using assms avl_update_run [of m a p l r h c]
  by (auto simp: mk_def same_except_def)

section \<open>Rotations\<close>

lemma avl_height_upd [mem_simps]:
  "a \<notin> set (nodes t) \<Longrightarrow> avl_height (m(a := v)) (root t) = avl_height m (root t)"
  by (cases t rule: root.cases) (auto simp: avl_height_def rd_simps)

lemma avl_cnt_upd [mem_simps]:
  "a \<notin> set (nodes t) \<Longrightarrow> avl_cnt (m(a := v)) (root t) = avl_cnt m (root t)"
  by (cases t rule: root.cases) (auto simp: avl_cnt_def rd_simps)

lemma avl_height_Some [mem_simps]: "avl_height m (Some a) = map_option n_height (m a)"
  by (simp add: avl_height_def rd_simps)

lemma avl_cnt_Some [mem_simps]: "avl_cnt m (Some a) = map_option n_cnt (m a)"
  by (simp add: avl_cnt_def rd_simps)

lemma avl_height_None [mem_simps]: "avl_height m None = Some 0"
  by (simp add: avl_height_def)

lemma avl_cnt_None [mem_simps]: "avl_cnt m None = Some 0"
  by (simp add: avl_cnt_def)

lemma rot_left_run:
  assumes t: "tree_at m p (Node A (x, hx, cx) (Node B (y, hy, cy) C))"
    and d: "distinct (nodes (Node A (x, hx, cx) (Node B (y, hy, cy) C)))"
  shows "\<exists>m'. rot_left m (Some x) = Some (m', Some y)
           \<and> tree_at m' p (mk (mk A x B) y C)
           \<and> same_except m m' ({x, y} \<union> set (nodes B))"
proof -
  have A: "avl_height m (root A) = Some (ht A)" "avl_cnt m (root A) = Some (ct A)"
    and C: "avl_height m (root C) = Some (ht C)" "avl_cnt m (root C) = Some (ct C)"
    using t by (auto intro: avl_height_root avl_cnt_root)
  show ?thesis
  proof (cases B rule: root.cases)
    case 1
    then show ?thesis
      using t d A C by (simp add: rot_left_def avl_update_def mem_simps mk_def same_except_def)
  next
    case (2 B1 b hb cb B2)
    then show ?thesis
      using t d A C by (simp add: rot_left_def avl_update_def mem_simps mk_def same_except_def)
  qed
qed

lemma rot_right_run:
  assumes t: "tree_at m p (Node (Node A (x, hx, cx) B) (y, hy, cy) C)"
    and d: "distinct (nodes (Node (Node A (x, hx, cx) B) (y, hy, cy) C))"
  shows "\<exists>m'. rot_right m (Some y) = Some (m', Some x)
           \<and> tree_at m' p (mk A x (mk B y C))
           \<and> same_except m m' ({x, y} \<union> set (nodes B))"
proof -
  have A: "avl_height m (root A) = Some (ht A)" "avl_cnt m (root A) = Some (ct A)"
    and C: "avl_height m (root C) = Some (ht C)" "avl_cnt m (root C) = Some (ct C)"
    using t by (auto intro: avl_height_root avl_cnt_root)
  show ?thesis
  proof (cases B rule: root.cases)
    case 1
    then show ?thesis
      using t d A C by (simp add: rot_right_def avl_update_def mem_simps mk_def same_except_def)
  next
    case (2 B1 b hb cb B2)
    then show ?thesis
      using t d A C by (simp add: rot_right_def avl_update_def mem_simps mk_def same_except_def)
  qed
qed

text \<open>\<open>computes\<close>: an operation turns the tree \<open>t\<close> into \<open>t'\<close>, returns its root and touches nothing else.\<close>

definition computes :: "(avlmem \<times> ptr) option \<Rightarrow> avlmem \<Rightarrow> ptr \<Rightarrow> addr atree \<Rightarrow> addr atree \<Rightarrow> bool" where
  "computes res m p t t' \<longleftrightarrow>
     (\<exists>m'. res = Some (m', root t') \<and> tree_at m' p t' \<and> same_except m m' (set (nodes t)))"

lemma computesE:
  assumes "computes res m p t t'"
  obtains m' where "res = Some (m', root t')" "tree_at m' p t'" "same_except m m' (set (nodes t))"
  using assms by (auto simp: computes_def)

lemma computes_trans:
  assumes "computes res m2 p t2 t3" "same_except m m2 (set (nodes t))" "set (nodes t2) = set (nodes t)"
  shows "computes res m p t t3"
  using assms by (auto simp: computes_def same_except_def)

lemma rot_left_computes:
  assumes "tree_at m p t" "distinct (nodes t)" "t = Node A x (Node B y C)"
  shows "computes (rot_left m (root t)) m p t (rotl t)"
proof -
  obtain a h c b h' c' where xy: "x = (a, h, c)" "y = (b, h', c')" by (cases x, cases y) auto
  obtain m' where "rot_left m (Some a) = Some (m', Some b)" "tree_at m' p (mk (mk A a B) b C)"
    "same_except m m' ({a, b} \<union> set (nodes B))"
    using rot_left_run [of m p A a h c B b h' c' C] assms by (auto simp: xy)
  then show ?thesis
    using assms by (auto simp: computes_def xy elim!: same_except_mono)
qed

lemma rot_right_computes:
  assumes "tree_at m p t" "distinct (nodes t)" "t = Node (Node A x B) y C"
  shows "computes (rot_right m (root t)) m p t (rotr t)"
proof -
  obtain a h c b h' c' where xy: "x = (a, h, c)" "y = (b, h', c')" by (cases x, cases y) auto
  obtain m' where "rot_right m (Some b) = Some (m', Some a)" "tree_at m' p (mk A a (mk B b C))"
    "same_except m m' ({a, b} \<union> set (nodes B))"
    using rot_right_run [of m p A a h c B b h' c' C] assms by (auto simp: xy)
  then show ?thesis
    using assms by (auto simp: computes_def xy elim!: same_except_mono)
qed

lemma avl_fix_left_computes:
  assumes t: "tree_at m p t" and d: "distinct (nodes t)" and eq: "t = Node (Node A x B) (a, h, c) r"
  shows "computes (avl_fix_left m (root t)) m p t (fixl t)"
proof -
  obtain b hb cb where x: "x = (b, hb, cb)" by (cases x) auto
  let ?l = "Node A x B"
  have l: "tree_at m (Some a) ?l" and ra: "m a = Some \<lparr>n_parent = p, n_left = Some b, n_right = root r, n_height = h, n_cnt = c\<rparr>"
    and r: "tree_at m (Some a) r"
    using t by (simp_all add: eq x)
  have AB: "avl_height m (root A) = Some (ht A)" "avl_height m (root B) = Some (ht B)"
    using l by (auto simp: x intro: avl_height_root)
  show ?thesis
  proof (cases "ht A < ht B")
    case False
    then have "avl_fix_left m (root t) = rot_right m (root t)"
      using t AB by (simp add: avl_fix_left_def eq x mem_simps)
    moreover have "fixl t = rotr t"
      using False by (simp add: eq)
    ultimately show ?thesis
      using rot_right_computes [OF t d] eq by simp
  next
    case True
    then have rh: "right_heavy ?l" by simp
    from True have "B \<noteq> Leaf" by auto
    then obtain B1 y hy cy B2 where B: "B = Node B1 (y, hy, cy) B2"
      by (cases B rule: root.cases) auto
    have dl: "distinct (nodes ?l)"
      using d by (auto simp: eq)
    have "computes (rot_left m (root ?l)) m (Some a) ?l (rotl ?l)"
      using rot_left_computes [OF l dl] B by blast
    then obtain m1 where m1: "rot_left m (Some b) = Some (m1, root (rotl ?l))" "tree_at m1 (Some a) (rotl ?l)"
      "same_except m m1 (set (nodes ?l))"
      by (auto simp: x elim!: computesE)
    have m1a: "m1 a = m a"
      using m1(3) d by (auto simp: eq same_except_def)
    define m2 where "m2 = m1(a \<mapsto> \<lparr>n_parent = p, n_left = root (rotl ?l), n_right = root r, n_height = h, n_cnt = c\<rparr>)"
    have m2: "tree_at m2 p (Node (rotl ?l) (a, h, c) r)"
    proof -
      have "tree_at m1 (Some a) r"
        using r m1(3) by (rule tree_at_frame) (use d in \<open>auto simp: eq\<close>)
      then show ?thesis
        using m1(2) d by (auto simp: m2_def eq)
    qed
    have "avl_fix_left m (root t) = rot_right m2 (Some a)"
      using t AB True m1(1) m1a ra by (simp add: avl_fix_left_def eq x mem_simps m2_def)
    moreover have "computes (rot_right m2 (root (Node (rotl ?l) (a, h, c) r))) m2 p
        (Node (rotl ?l) (a, h, c) r) (rotr (Node (rotl ?l) (a, h, c) r))"
      by (rule rot_right_computes [OF m2, where y = "(a, h, c)" and C = r])
        (use d in \<open>auto simp: eq B x mk_def\<close>)
    moreover have "fixl t = rotr (Node (rotl ?l) (a, h, c) r)"
      using rh by (simp add: eq)
    moreover have "same_except m m2 (set (nodes t))"
      using m1(3) by (auto simp: m2_def eq same_except_def)
    moreover have "set (nodes (Node (rotl ?l) (a, h, c) r)) = set (nodes t)"
      by (simp add: eq)
    ultimately show ?thesis
      by (metis computes_trans root.simps(2))
  qed
qed

lemma avl_fix_right_computes:
  assumes t: "tree_at m p t" and d: "distinct (nodes t)" and eq: "t = Node l (a, h, c) (Node B x A)"
  shows "computes (avl_fix_right m (root t)) m p t (fixr t)"
proof -
  obtain b hb cb where x: "x = (b, hb, cb)" by (cases x) auto
  let ?l = "Node B x A"
  have L: "tree_at m (Some a) ?l" and ra: "m a = Some \<lparr>n_parent = p, n_left = root l, n_right = Some b, n_height = h, n_cnt = c\<rparr>"
    and R: "tree_at m (Some a) l"
    using t by (simp_all add: eq x)
  have AB: "avl_height m (root A) = Some (ht A)" "avl_height m (root B) = Some (ht B)"
    using L by (auto simp: x intro: avl_height_root)
  show ?thesis
  proof (cases "ht A < ht B")
    case False
    then have "avl_fix_right m (root t) = rot_left m (root t)"
      using t AB by (simp add: avl_fix_right_def eq x mem_simps)
    moreover have "fixr t = rotl t"
      using False by (simp add: eq)
    ultimately show ?thesis
      using rot_left_computes [OF t d] eq by simp
  next
    case True
    then have rh: "left_heavy ?l" by simp
    from True have "B \<noteq> Leaf" by auto
    then obtain B1 y hy cy B2 where B: "B = Node B1 (y, hy, cy) B2"
      by (cases B rule: root.cases) auto
    have dl: "distinct (nodes ?l)"
      using d by (auto simp: eq)
    have "computes (rot_right m (root ?l)) m (Some a) ?l (rotr ?l)"
      using rot_right_computes [OF L dl] B by blast
    then obtain m1 where m1: "rot_right m (Some b) = Some (m1, root (rotr ?l))" "tree_at m1 (Some a) (rotr ?l)"
      "same_except m m1 (set (nodes ?l))"
      by (auto simp: x elim!: computesE)
    have m1a: "m1 a = m a"
      using m1(3) d by (auto simp: eq same_except_def)
    define m2 where "m2 = m1(a \<mapsto> \<lparr>n_parent = p, n_left = root l, n_right = root (rotr ?l), n_height = h, n_cnt = c\<rparr>)"
    have m2: "tree_at m2 p (Node l (a, h, c) (rotr ?l))"
    proof -
      have "tree_at m1 (Some a) l"
        using R m1(3) by (rule tree_at_frame) (use d in \<open>auto simp: eq\<close>)
      then show ?thesis
        using m1(2) d by (auto simp: m2_def eq)
    qed
    have "avl_fix_right m (root t) = rot_left m2 (Some a)"
      using t AB True m1(1) m1a ra by (simp add: avl_fix_right_def eq x mem_simps m2_def)
    moreover have "computes (rot_left m2 (root (Node l (a, h, c) (rotr ?l)))) m2 p
        (Node l (a, h, c) (rotr ?l)) (rotl (Node l (a, h, c) (rotr ?l)))"
      by (rule rot_left_computes [OF m2, where x = "(a, h, c)" and A = l])
        (use d in \<open>auto simp: eq B x mk_def\<close>)
    moreover have "fixr t = rotl (Node l (a, h, c) (rotr ?l))"
      using rh by (simp add: eq)
    moreover have "same_except m m2 (set (nodes t))"
      using m1(3) by (auto simp: m2_def eq same_except_def)
    moreover have "set (nodes (Node l (a, h, c) (rotr ?l))) = set (nodes t)"
      by (simp add: eq)
    ultimately show ?thesis
      by (metis computes_trans root.simps(2))
  qed
qed


section \<open>The loop of \<open>avl_fix\<close>\<close>

fun slot_of :: "(addr \<times> u32 \<times> u32) frame list \<Rightarrow> from_slot" where
  "slot_of [] = FromLocal"
| "slot_of (InL x r # fs) = FromLeft (Some (fst x))"
| "slot_of (InR l x # fs) = FromRight (Some (fst x))"

abbreviation around :: "(addr \<times> u32 \<times> u32) frame list \<Rightarrow> addr set" where
  "around fs \<equiv> set (lefts fs) \<union> set (rights fs)"

lemma up_ptr_eq_None [simp]: "up_ptr fs = None \<longleftrightarrow> fs = []"
  by (cases fs rule: up_ptr.cases) auto

lemma child_slot_run:
  assumes "ctx_at m (Some a) fs" "a \<notin> around fs"
  shows "child_slot m (up_ptr fs) (Some a) = Some (slot_of fs)"
proof (cases fs rule: up_ptr.cases)
  case (2 x r gs)
  then show ?thesis using assms by (cases x) (auto simp: child_slot_def mem_simps)
next
  case (3 l x gs)
  then show ?thesis
    using assms root_in_nodes [of l a] by (cases x) (auto simp: child_slot_def mem_simps)
qed (simp add: child_slot_def)

lemma wr_from_run:
  assumes "ctx_at m p fs" "distinct (lefts fs @ rights fs)"
  shows "\<exists>m'. wr_from m (slot_of fs) q = Some m' \<and> ctx_at m' q fs \<and> same_except m m' (around fs)"
proof (cases fs rule: up_ptr.cases)
  case 1
  then show ?thesis by (simp add: wr_from_def)
next
  case (2 x r gs)
  obtain a h c where x: "x = (a, h, c)" by (cases x) auto
  have "ctx_at (m(a := v)) (Some a) gs = ctx_at m (Some a) gs" for v
    by (rule ctx_at_cong) (use assms(2) in \<open>auto simp: 2 x\<close>)
  then show ?thesis
    using assms by (auto simp: 2 x wr_from_def mem_simps same_except_def)
next
  case (3 l x gs)
  obtain a h c where x: "x = (a, h, c)" by (cases x) auto
  have "ctx_at (m(a := v)) (Some a) gs = ctx_at m (Some a) gs" for v
    by (rule ctx_at_cong) (use assms(2) in \<open>auto simp: 3 x\<close>)
  then show ?thesis
    using assms by (auto simp: 3 x wr_from_def mem_simps same_except_def)
qed

text \<open>A rotation in place: the fixed subtree is attached through \<open>from\<close>.\<close>

lemma attach_run:
  assumes "computes res m p t t'" "ctx_at m q fs" "p = up_ptr fs"
    and "distinct (nodes (plug t fs))" "set (nodes t') = set (nodes t)"
  shows "\<exists>m1 m'. res = Some (m1, root t') \<and> wr_from m1 (slot_of fs) (root t') = Some m'
           \<and> tree_at m' (up_ptr fs) t' \<and> ctx_at m' (root t') fs \<and> same_except m m' (set (nodes (plug t fs)))"
proof -
  obtain m1 where m1: "res = Some (m1, root t')" "tree_at m1 p t'" "same_except m m1 (set (nodes t))"
    using assms(1) by (rule computesE)
  have "ctx_at m1 q fs"
    using assms(2) m1(3) by (rule ctx_at_frame) (use assms(4) in auto)
  then obtain m2 where m2: "wr_from m1 (slot_of fs) (root t') = Some m2" "ctx_at m2 (root t') fs"
    "same_except m1 m2 (around fs)"
    using wr_from_run [of m1 q fs "root t'"] assms(4) by auto
  have "tree_at m2 p t'"
    using m1(2) m2(3) by (rule tree_at_frame) (use assms(4,5) in auto)
  moreover have "same_except m m2 (set (nodes (plug t fs)))"
    using m1(3) m2(3) by (rule same_except_trans) auto
  ultimately show ?thesis
    using m1(1) m2(1,2) assms(3) by simp
qed


text \<open>One round of the loop: the node is updated, fixed and attached.\<close>

lemma round_run:
  assumes t: "tree_at m (up_ptr fs) (Node l (a, h, c) r)" and ctx: "ctx_at m (Some a) fs"
    and d: "distinct (nodes (plug (Node l (a, h, c) r) fs))"
    and k: "hle K l" "hle K r" "K + 2 < 2 ^ 32"
  shows "\<exists>m'. tree_at m' (up_ptr fs) (bal l a r) \<and> ctx_at m' (root (bal l a r)) fs
           \<and> same_except m m' (set (nodes (plug (Node l (a, h, c) r) fs)))
           \<and> avl_fix m (Some a) =
               (if fs = [] then Some (m', root (bal l a r)) else avl_fix m' (up_ptr fs))"
proof -
  have slot: "child_slot m (up_ptr fs) (Some a) = Some (slot_of fs)"
    using child_slot_run [OF ctx] d by auto
  obtain m1 where m1: "avl_update m (Some a) = Some m1" "tree_at m1 (up_ptr fs) (mk l a r)"
    "same_except m m1 {a}"
    using avl_update_tree [OF t] d by auto
  have ctx1: "ctx_at m1 (Some a) fs"
    using ctx m1(3) by (rule ctx_at_frame) (use d in auto)
  obtain h' c' where mk: "mk l a r = Node l (a, h', c') r"
    by (simp add: mk_def)
  have fields: "rd n_parent m (Some a) = Some (up_ptr fs)" "rd n_left m1 (Some a) = Some (root l)"
      "rd n_right m1 (Some a) = Some (root r)"
      "avl_height m1 (root l) = Some (ht l)" "avl_height m1 (root r) = Some (ht r)"
    using t m1(2) avl_height_root [of m1 "Some a" l] avl_height_root [of m1 "Some a" r]
    by (simp_all add: mk mem_simps)
  note start = avl_fix.simps [of m "Some a"] slot m1(1) fields
  have d1: "distinct (nodes (plug (mk l a r) fs))" and d2: "distinct (nodes (mk l a r))"
    using d by auto
  have sm: "same_except m m1 (set (nodes (plug (Node l (a, h, c) r) fs)))"
    using m1(3) by (rule same_except_mono) auto
  show ?thesis
  proof (cases "ht l = ht r + 2")
    case True
    then obtain A x B where l: "l = Node A x B"
      using fits_ne_Leaf [OF k(2,3), of l] by (cases l) auto
    have "computes (avl_fix_left m1 (Some a)) m1 (up_ptr fs) (mk l a r) (fixl (mk l a r))"
      using avl_fix_left_computes [OF m1(2) d2, of A x B a h' c' r] mk by (simp add: l)
    from attach_run [OF this ctx1 refl d1] obtain mx m2 where
      "avl_fix_left m1 (Some a) = Some (mx, root (fixl (mk l a r)))"
      "wr_from mx (slot_of fs) (root (fixl (mk l a r))) = Some m2"
      "tree_at m2 (up_ptr fs) (fixl (mk l a r))" "ctx_at m2 (root (fixl (mk l a r))) fs"
      "same_except m1 m2 (set (nodes (plug (mk l a r) fs)))"
      by auto
    moreover have "same_except m m2 (set (nodes (plug (Node l (a, h, c) r) fs)))"
      using sm calculation(5) by (rule same_except_trans) auto
    ultimately show ?thesis
      using True start by (intro exI [of _ m2]) (simp add: bal_def)
  next
    case False
    show ?thesis
    proof (cases "ht l + 2 = ht r")
      case True
      then obtain B x A where r: "r = Node B x A"
        using fits_ne_Leaf [OF k(1,3), of r] by (cases r) auto
      have "computes (avl_fix_right m1 (Some a)) m1 (up_ptr fs) (mk l a r) (fixr (mk l a r))"
        using avl_fix_right_computes [OF m1(2) d2, of l a h' c' B x A] mk by (simp add: r)
      from attach_run [OF this ctx1 refl d1] obtain mx m2 where
      "avl_fix_right m1 (Some a) = Some (mx, root (fixr (mk l a r)))"
      "wr_from mx (slot_of fs) (root (fixr (mk l a r))) = Some m2"
      "tree_at m2 (up_ptr fs) (fixr (mk l a r))" "ctx_at m2 (root (fixr (mk l a r))) fs"
        "same_except m1 m2 (set (nodes (plug (mk l a r) fs)))"
        by auto
      moreover have "same_except m m2 (set (nodes (plug (Node l (a, h, c) r) fs)))"
        using sm calculation(5) by (rule same_except_trans) auto
      ultimately show ?thesis
        using True False start by (intro exI [of _ m2]) (simp add: bal_def)
    next
      case False
      then show ?thesis
        using \<open>ht l \<noteq> ht r + 2\<close> start sm m1(2) ctx1
        by (intro exI [of _ m1]) (simp add: bal_def)
    qed
  qed
qed

lemma up_ptr_plug1: "root (plug1 t f) = up_ptr (f # fs)"
  by (cases f; cases "case f of InL x r \<Rightarrow> x | InR l x \<Rightarrow> x") auto

lemma plug1_ne_Leaf [simp]: "plug1 t f \<noteq> Leaf"
  by (cases f) auto

lemma avl_fix_computes:
  assumes "tree_at m None (plug t fs)" "t \<noteq> Leaf" "distinct (nodes (plug t fs))"
    and "hle K (plug t fs)" "K + 2 * length fs + 2 < 2 ^ 32"
  shows "computes (avl_fix m (root t)) m None (plug t fs) (fix_up t fs)"
  using assms
proof (induction fs arbitrary: t m K)
  case Nil
  obtain l a h c r where t: "t = Node l (a, h, c) r"
    using Nil.prems(2) by (cases t rule: root.cases) auto
  show ?case
    using Nil.prems round_run [of m "[]" l a h c r K] by (auto simp: t computes_def)
next
  case (Cons f fs)
  obtain l a h c r where t: "t = Node l (a, h, c) r"
    using Cons.prems(2) by (cases t rule: root.cases) auto
  let ?b = "bal l a r"
  have k: "hle K l" "hle K r" "hle_ctx K (f # fs)"
    using Cons.prems(4) hle_plug [of K t "f # fs"] by (auto simp: t)
  have tc: "tree_at m (up_ptr (f # fs)) t" "ctx_at m (Some a) (f # fs)"
    using Cons.prems(1) tree_at_plug [of m t "f # fs"] by (auto simp: t)
  obtain m1 where m1: "tree_at m1 (up_ptr (f # fs)) ?b" "ctx_at m1 (root ?b) (f # fs)"
      "same_except m m1 (set (nodes (plug t (f # fs))))" "avl_fix m (root t) = avl_fix m1 (up_ptr (f # fs))"
    using round_run [OF tc(1) [unfolded t] tc(2) _ k(1,2)] Cons.prems(3,5) unfolding t by auto
  have up: "up_ptr (f # fs) = root (plug1 ?b f)"
    by (rule up_ptr_plug1 [symmetric])
  have ns: "nodes (plug (plug1 ?b f) fs) = nodes (plug t (f # fs))"
    using nodes_plug [of ?b "f # fs"] nodes_plug [of t "f # fs"] by (simp add: t)
  have "computes (avl_fix m1 (root (plug1 ?b f))) m1 None (plug (plug1 ?b f) fs) (fix_up (plug1 ?b f) fs)"
  proof (rule Cons.IH [where K = "Suc (Suc K)"])
    show "tree_at m1 None (plug (plug1 ?b f) fs)"
      using m1(1,2) tree_at_plug [of m1 ?b "f # fs"] by simp
    show "plug1 ?b f \<noteq> Leaf"
      by (cases f) auto
    show "distinct (nodes (plug (plug1 ?b f) fs))"
      using Cons.prems(3) ns by simp
    have "hle (Suc (Suc K)) ?b"
      using k Cons.prems(5) by (auto intro!: hle_bal)
    then show "hle (Suc (Suc K)) (plug (plug1 ?b f) fs)"
      using k(3) hle_plug [of "Suc (Suc K)" ?b "f # fs"] by (auto intro: hle_ctx_mono)
  qed (use Cons.prems(5) in simp)
  then have "computes (avl_fix m (root t)) m1 None (plug (plug1 ?b f) fs) (fix_up (plug1 ?b f) fs)"
    using m1(4) up by simp
  then show ?case
    using computes_trans [OF _ m1(3)] ns by (simp add: t)
qed

section \<open>Deletion\<close>

lemma reparent_run:
  assumes "tree_at m q t" "distinct (nodes t)"
  shows "\<exists>m'. (if root t \<noteq> None then wr (set_parent p) m (root t) else Some m) = Some m' \<and>
           tree_at m' p t \<and> same_except m m' (set (nodes t))"
proof (cases t rule: root.cases)
  case (2 l b h c r)
  then show ?thesis
    using assms by (auto simp: mem_simps same_except_def)
qed simp

lemma avl_del_easy_computes:
  assumes t: "tree_at m None (plug (Node l (a, h, c) r) fs)" and one: "l = Leaf \<or> r = Leaf"
    and d: "distinct (nodes (plug (Node l (a, h, c) r) fs))"
    and k: "hle K (plug (Node l (a, h, c) r) fs)" "K + 2 * length fs + 2 < 2 ^ 32"
    and child: "child = (if l \<noteq> Leaf then l else r)"
  shows "computes (avl_del_easy m (Some a)) m None (plug child fs) (detach_up child fs)"
proof -
  have tc: "tree_at m (up_ptr fs) (Node l (a, h, c) r)" "ctx_at m (Some a) fs"
    using t tree_at_plug [of m "Node l (a, h, c) r" fs] by auto
  have dc: "distinct (nodes child)" "set (nodes child) \<inter> around fs = {}" "a \<notin> set (nodes child)"
    using d child by (auto split: if_splits)
  have dp: "distinct (nodes (plug child fs))" and kp: "hle K (plug child fs)"
    using d k(1) child by (auto simp: hle_plug split: if_splits)
  obtain m1 where m1: "(if root child \<noteq> None then wr (set_parent (up_ptr fs)) m (root child) else Some m) = Some m1"
    "tree_at m1 (up_ptr fs) child" "same_except m m1 (set (nodes child))"
    using reparent_run [of m "Some a" child "up_ptr fs"] tc(1) dc(1) child by (auto split: if_splits)
  have ctx1: "ctx_at m1 (Some a) fs"
    using tc(2) m1(3) by (rule ctx_at_frame) (use dc in auto)
  have start: "avl_del_easy m (Some a) =
      (if fs = [] then Some (m1, root child)
       else child_slot m1 (up_ptr fs) (Some a) \<bind> (\<lambda>from. wr_from m1 from (root child) \<bind> (\<lambda>m. avl_fix m (up_ptr fs))))"
    using tc(1) one m1(1)
    by (auto simp: avl_del_easy_def mem_simps child Let_def simp del: not_None_eq split: if_splits)
  show ?thesis
  proof (cases fs)
    case Nil
    then show ?thesis using start m1 by (simp add: computes_def)
  next
    case (Cons f gs)
    have slot: "child_slot m1 (up_ptr fs) (Some a) = Some (slot_of fs)"
      using child_slot_run [OF ctx1] d by auto
    obtain m2 where m2: "wr_from m1 (slot_of fs) (root child) = Some m2" "ctx_at m2 (root child) fs"
      "same_except m1 m2 (around fs)"
      using wr_from_run [OF ctx1, of "root child"] d by (metis distinct_append nodes_plug Int_Un_distrib Un_empty set_append)
    have "tree_at m2 (up_ptr fs) child"
      using m1(2) m2(3) by (rule tree_at_frame) (use dc in auto)
    then have t2: "tree_at m2 None (plug (plug1 child f) gs)"
      using m2(2) tree_at_plug [of m2 child fs] by (simp add: Cons)
    have "computes (avl_fix m2 (root (plug1 child f))) m2 None (plug (plug1 child f) gs) (fix_up (plug1 child f) gs)"
    proof (rule avl_fix_computes [OF t2])
      show "distinct (nodes (plug (plug1 child f) gs))"
        using dp by (simp only: Cons plug.simps)
      show "hle K (plug (plug1 child f) gs)"
        using kp by (simp only: Cons plug.simps)
    qed (use k(2) Cons in auto)
    then have "computes (avl_del_easy m (Some a)) m2 None (plug child fs) (detach_up child fs)"
      using start slot m2(1) Cons up_ptr_plug1 [of child f gs] by simp
    moreover have "same_except m m2 (set (nodes (plug child fs)))"
      using m1(3) m2(3) by (rule same_except_trans) auto
    ultimately show ?thesis
      by (rule computes_trans) simp
  qed
qed

lemma find_leftmost_run:
  assumes "tree_at m p t" "t \<noteq> Leaf"
  shows "find_leftmost m (root t) = Some (root (fst (leftmost_path t fs)))"
  using assms
proof (induction t fs arbitrary: p rule: leftmost_path.induct)
  case (1 ll lx lr x r fs)
  obtain a h c b h' c' where xy: "x = (a, h, c)" "lx = (b, h', c')" by (cases x, cases lx) auto
  have "find_leftmost m (Some a) = find_leftmost m (root (Node ll lx lr))"
    using "1.prems" by (subst find_leftmost.simps) (simp add: xy mem_simps)
  then show ?case
    using "1.IH" [of "Some a"] "1.prems" by (simp add: xy)
qed (simp, subst find_leftmost.simps, auto simp: mem_simps)

text \<open>Finding a node of a tree by its address.\<close>

lemma focus:
  assumes "a \<in> set (nodes t)"
  shows "\<exists>l h c r fs. t = plug (Node l (a, h, c) r) fs"
  using assms
proof (induction t)
  case (Node l x r)
  consider "a = fst x" | "a \<in> set (nodes l)" | "a \<in> set (nodes r)"
    using Node.prems by auto
  then show ?case
  proof cases
    case 1
    then show ?thesis
      by (intro exI [of _ l] exI [of _ "fst (snd x)"] exI [of _ "snd (snd x)"] exI [of _ r] exI [of _ "[]"]) simp
  next
    case 2
    then obtain l' h c r' fs where "l = plug (Node l' (a, h, c) r') fs"
      using Node.IH(1) by auto
    moreover have "plug u (fs @ [InL x r]) = Node (plug u fs) x r" for u
      by (induction fs arbitrary: u) auto
    ultimately show ?thesis by metis
  next
    case 3
    then obtain l' h c r' fs where "r = plug (Node l' (a, h, c) r') fs"
      using Node.IH(2) by auto
    moreover have "plug u (fs @ [InR l x]) = Node l x (plug u fs)" for u
      by (induction fs arbitrary: u) auto
    ultimately show ?thesis by metis
  qed
qed simp

lemma relabel_id: "a \<notin> set (nodes t) \<Longrightarrow> relabel a v t = t"
  by (induction t) (auto simp: relabel_def)

lemma relabel_plug:
  assumes "a \<notin> around fs" "a \<notin> set (nodes l)" "a \<notin> set (nodes r)"
  shows "relabel a v (plug (Node l (a, h, c) r) fs) = plug (Node l v r) fs"
proof -
  have "relabel a v (plug t fs) = plug (relabel a v t) fs" if "a \<notin> around fs" for t
    using that
  proof (induction fs arbitrary: t)
    case (Cons f fs)
    then show ?case by (cases f) (auto simp: relabel_def relabel_id [unfolded relabel_def])
  qed simp
  then show ?thesis
    using assms by (simp add: relabel_def relabel_id [unfolded relabel_def])
qed

lemma root_plug: "fs \<noteq> [] \<Longrightarrow> root (plug t fs) = root (plug t' fs)"
proof (induction fs arbitrary: t t')
  case (Cons f fs)
  show ?case
  proof (cases "fs = []")
    case True
    then show ?thesis by (metis plug.simps up_ptr_plug1)
  next
    case False
    then show ?thesis using Cons.IH by simp
  qed
qed simp

text \<open>
  The second half of \<open>avl_del\<close>: a detached node \<open>v\<close> takes the place of the node \<open>a\<close>.
  It keeps its own \<open>height\<close> and \<open>cnt\<close>.
\<close>

definition replace_node :: "avlmem \<Rightarrow> ptr \<Rightarrow> ptr \<Rightarrow> ptr \<Rightarrow> (avlmem \<times> ptr) option" where
  "replace_node m node victim old_root = do {
     nl \<leftarrow> rd n_left m node;
     nr \<leftarrow> rd n_right m node;
     np \<leftarrow> rd n_parent m node;
     m \<leftarrow> wr (set_left nl) m victim;
     m \<leftarrow> wr (set_right nr) m victim;
     m \<leftarrow> wr (set_parent np) m victim;
     m \<leftarrow> (if nl \<noteq> None then wr (set_parent victim) m nl else Some m);
     m \<leftarrow> (if nr \<noteq> None then wr (set_parent victim) m nr else Some m);
     from \<leftarrow> child_slot m np node;
     m \<leftarrow> wr_from m from victim;
     Some (m, if from = FromLocal then victim else old_root)
   }"

lemma slot_of_eq_FromLocal [simp]: "slot_of fs = FromLocal \<longleftrightarrow> fs = []"
  by (cases fs rule: slot_of.cases) auto

lemma replace_node_computes:
  assumes t: "tree_at m None (plug (Node l (a, h, c) r) fs)"
    and d: "distinct (nodes (plug (Node l (a, h, c) r) fs))"
    and v: "m v = Some \<lparr>n_parent = vp, n_left = vl, n_right = vr, n_height = hv, n_cnt = cv\<rparr>"
    and fresh: "v \<notin> set (nodes (plug (Node l (a, h, c) r) fs))"
  shows "computes (replace_node m (Some a) (Some v) (root (plug (Node l (a, h, c) r) fs))) m None
           (plug (Node l (v, hv, cv) r) fs) (plug (Node l (v, hv, cv) r) fs)"
proof -
  have tc: "tree_at m (up_ptr fs) (Node l (a, h, c) r)" "ctx_at m (Some a) fs"
    using t tree_at_plug [of m "Node l (a, h, c) r" fs] by auto
  define m1 where "m1 = m(v \<mapsto> \<lparr>n_parent = up_ptr fs, n_left = root l, n_right = root r, n_height = hv, n_cnt = cv\<rparr>)"
  have lr: "tree_at m1 (Some a) l" "tree_at m1 (Some a) r" "ctx_at m1 (Some a) fs"
    using tc fresh by (auto simp: m1_def)
  obtain m2 where m2: "(if root l \<noteq> None then wr (set_parent (Some v)) m1 (root l) else Some m1) = Some m2"
    "tree_at m2 (Some v) l" "same_except m1 m2 (set (nodes l))"
    using reparent_run [OF lr(1), of "Some v"] d by auto
  have r2: "tree_at m2 (Some a) r"
    using lr(2) m2(3) by (rule tree_at_frame) (use d in auto)
  obtain m3 where m3: "(if root r \<noteq> None then wr (set_parent (Some v)) m2 (root r) else Some m2) = Some m3"
    "tree_at m3 (Some v) r" "same_except m2 m3 (set (nodes r))"
    using reparent_run [OF r2, of "Some v"] d by auto
  have l3: "tree_at m3 (Some v) l"
    using m2(2) m3(3) by (rule tree_at_frame) (use d in auto)
  have s13: "same_except m1 m3 (set (nodes l) \<union> set (nodes r))"
    using m2(3) m3(3) by (rule same_except_trans) auto
  have c3: "ctx_at m3 (Some a) fs"
    using lr(3) s13 by (rule ctx_at_frame) (use d in auto)
  have v3: "m3 v = m1 v"
    using s13 fresh by (auto simp: same_except_def)
  have slot: "child_slot m3 (up_ptr fs) (Some a) = Some (slot_of fs)"
    using child_slot_run [OF c3] d by auto
  have ds: "distinct (lefts fs @ rights fs)"
    using d by auto
  obtain m4 where m4: "wr_from m3 (slot_of fs) (Some v) = Some m4" "ctx_at m4 (Some v) fs"
    "same_except m3 m4 (around fs)"
    using wr_from_run [OF c3 ds, of "Some v"] by blast
  have "tree_at m4 (Some v) l" "tree_at m4 (Some v) r" "m4 v = m1 v"
    using tree_at_frame [OF l3 m4(3)] tree_at_frame [OF m3(2) m4(3)] same_exceptD [OF m4(3), of v] v3 d fresh
    by auto
  then have t4: "tree_at m4 None (plug (Node l (v, hv, cv) r) fs)"
    using m4(2) by (simp add: tree_at_plug m1_def)
  have "same_except m m4 (set (nodes (plug (Node l (v, hv, cv) r) fs)))"
    using s13 m4(3) by (auto simp: same_except_def m1_def)
  moreover have "replace_node m (Some a) (Some v) (root (plug (Node l (a, h, c) r) fs)) =
      Some (m4, root (plug (Node l (v, hv, cv) r) fs))"
  proof -
    have "replace_node m (Some a) (Some v) q =
        Some (m4, if fs = [] then Some v else q)" for q
      using tc(1) v fresh m2(1) [unfolded m1_def] m3(1) slot m4(1)
      by (cases "l = Leaf"; cases "r = Leaf"; cases "fs = []")
        (simp_all add: replace_node_def mem_simps m1_def del: not_None_eq)
    then show ?thesis
      using root_plug [of fs "Node l (a, h, c) r" "Node l (v, hv, cv) r"] by auto
  qed
  ultimately show ?thesis
    using t4 by (simp add: computes_def)
qed

lemma avl_del_computes:
  assumes t: "tree_at m None (plug (Node l (a, h, c) r) fs)"
    and d: "distinct (nodes (plug (Node l (a, h, c) r) fs))"
    and k: "hle K (plug (Node l (a, h, c) r) fs)" "K + 2 * size (plug (Node l (a, h, c) r) fs) + 2 < 2 ^ 32"
  shows "computes (avl_del m (Some a)) m None (plug (Node l (a, h, c) r) fs) (del_at (Node l (a, h, c) r) fs)"
proof -
  let ?t = "plug (Node l (a, h, c) r) fs"
  have k2: "K + 2 * length fs + 2 < 2 ^ 32"
    using k(2) length_path [of fs "Node l (a, h, c) r"] by simp
  have tc: "tree_at m (up_ptr fs) (Node l (a, h, c) r)"
    using t tree_at_plug [of m "Node l (a, h, c) r" fs] by auto
  show ?thesis
  proof (cases "l = Leaf \<or> r = Leaf")
    case True
    let ?child = "if l \<noteq> Leaf then l else r"
    have "computes (avl_del_easy m (Some a)) m None (plug ?child fs) (detach_up ?child fs)"
      using avl_del_easy_computes [OF t True d k(1) k2 refl] .
    moreover have "avl_del m (Some a) = avl_del_easy m (Some a)"
      using tc True by (simp add: avl_del_def mem_simps)
    moreover have "detach_up ?child fs = del_at (Node l (a, h, c) r) fs"
      using True by auto
    moreover have "set (nodes (plug ?child fs)) \<subseteq> set (nodes ?t)"
      by auto
    ultimately show ?thesis
      by (auto simp: computes_def elim: same_except_mono)
  next
    case False
    then obtain x vr gs where lp: "leftmost_path r (InR l (a, h, c) # fs) = (Node Leaf x vr, gs)"
      and pl: "plug (Node Leaf x vr) gs = ?t" and lf: "lefts gs = lefts (InR l (a, h, c) # fs)"
      using leftmost_path_spec [of r "InR l (a, h, c) # fs"] by auto
    obtain v hv cv where x: "x = (v, hv, cv)" by (cases x) auto
    let ?T = "detach_up vr gs"
    have dv: "distinct (nodes (plug (Node Leaf (v, hv, cv) vr) gs))"
      and kv: "hle K (plug (Node Leaf (v, hv, cv) vr) gs)" "K + 2 * length gs + 2 < 2 ^ 32"
      and tv: "tree_at m None (plug (Node Leaf (v, hv, cv) vr) gs)"
      using d k t pl length_path [of gs "Node Leaf x vr"] by (simp_all add: x)
    have ns: "nodes ?t = lefts gs @ v # nodes vr @ rights gs"
      using arg_cong [OF pl, of nodes] by (simp add: x)
    have lm: "find_leftmost m (root r) = Some (Some v)"
      using find_leftmost_run [of m "Some a" r "InR l (a, h, c) # fs"] tc False lp by (simp add: x)
    obtain m1 where m1: "avl_del_easy m (Some v) = Some (m1, root ?T)" "tree_at m1 None ?T"
      "same_except m m1 (set (nodes (plug vr gs)))"
      using avl_del_easy_computes [OF tv _ dv kv, of vr] by (auto elim: computesE)
    have nT: "nodes ?T = lefts gs @ nodes vr @ rights gs"
      by simp
    have fresh: "v \<notin> set (nodes ?T)" and dT: "distinct (nodes ?T)" and "a \<in> set (nodes ?T)"
      using dv lf by (auto simp: nT)
    from focus [OF this(3)] obtain l' h' c' r' fs' where T: "?T = plug (Node l' (a, h', c') r') fs'"
      by blast
    have v1: "m1 v = m v"
      using m1(3) fresh by (auto simp: same_except_def nT)
    obtain vp vl vq where "m v = Some \<lparr>n_parent = vp, n_left = vl, n_right = vq, n_height = hv, n_cnt = cv\<rparr>"
      using tv tree_at_plug [of m "Node Leaf (v, hv, cv) vr" gs] by auto
    then have "computes (replace_node m1 (Some a) (Some v) (root ?T)) m1 None
        (plug (Node l' (v, hv, cv) r') fs') (plug (Node l' (v, hv, cv) r') fs')"
      using m1(2) dT fresh v1 unfolding T by (intro replace_node_computes) auto
    moreover have "plug (Node l' (v, hv, cv) r') fs' = relabel a x ?T"
      using dT unfolding T by (subst relabel_plug) (auto simp: x)
    moreover have "relabel a x ?T = del_at (Node l (a, h, c) r) fs"
      using False lp by simp
    moreover have "avl_del m (Some a) = replace_node m1 (Some a) (Some v) (root ?T)"
      using tc False lm m1(1) by (simp add: avl_del_def mem_simps replace_node_def)
    ultimately obtain m2 where m2: "avl_del m (Some a) = Some (m2, root (del_at (Node l (a, h, c) r) fs))"
      "tree_at m2 None (del_at (Node l (a, h, c) r) fs)"
      "same_except m1 m2 (set (nodes (plug (Node l' (v, hv, cv) r') fs')))"
      by (metis computesE)
    have "set (nodes (plug (Node l' (v, hv, cv) r') fs')) \<subseteq> set (nodes ?t)"
    proof -
      have "set (nodes (plug (Node l' (v, hv, cv) r') fs')) \<subseteq> insert v (set (nodes ?T))"
        unfolding T by auto
      then show ?thesis using ns nT by auto
    qed
    moreover have "same_except m m1 (set (nodes ?t))"
      using m1(3) by (rule same_except_mono) (use ns in auto)
    ultimately have "same_except m m2 (set (nodes ?t))"
      using m2(3) by (meson same_except_mono same_except_trans sup.bounded_iff order_refl)
    then show ?thesis
      using m2(1,2) by (simp add: computes_def)
  qed
qed

end
