(* ===== verification/AvlOffset.thy ===== *)
theory AvlOffset
  imports AvlRefine
begin

text \<open>
  \<open>avl_offset\<close> walks from a node to the node a signed number of ranks away. With right
  \<open>cnt\<close> fields it climbs until the target lies inside the subtree and then descends to it,
  so it ends, never leaves the tree, and returns null exactly when no such rank exists.
\<close>

fun counted :: "'a atree \<Rightarrow> bool" where
  "counted Leaf = True"
| "counted (Node l (a, h, c) r) \<longleftrightarrow> c = of_nat (1 + size l + size r) \<and> counted l \<and> counted r"

lemma avl_counted: "avl t \<Longrightarrow> counted t"
  by (induction t rule: avl.induct) auto

lemma counted_ct: "counted t \<Longrightarrow> ct t = of_nat (size t)"
  by (cases t rule: ct.cases) auto

lemma counted_plugD: "counted (plug t fs) \<Longrightarrow> counted t"
proof (induction fs arbitrary: t)
  case (Cons f fs)
  then show ?case by (cases f) (force elim: counted.elims)+
qed simp

lemma uint_of_nat_u32: "n < 2 ^ 32 \<Longrightarrow> uint (of_nat n :: u32) = int n"
  by (metis unat_of_nat_u32 uint_nat)

lemma cnt_run:
  assumes "tree_at m p t" "counted t" "size t + 1 < 2 ^ 32"
  shows "avl_cnt m (root t) = Some (ct t)" "uint (ct t) = int (size t)" "uint (ct t + 1) = int (size t) + 1"
proof -
  show "avl_cnt m (root t) = Some (ct t)"
    using assms(1) by (rule avl_cnt_root)
  show "uint (ct t) = int (size t)"
    using assms(2,3) by (simp add: counted_ct uint_of_nat_u32)
  have "ct t + 1 = of_nat (size t + 1)"
    using assms(2) by (simp add: counted_ct)
  then show "uint (ct t + 1) = int (size t) + 1"
    using uint_of_nat_u32 [OF assms(3)] by (simp add: add.commute)
qed

text \<open>The rank of a position and the number of ranks before a subtree.\<close>

abbreviation before :: "(addr \<times> u32 \<times> u32) frame list \<Rightarrow> nat" where
  "before fs \<equiv> length (lefts fs)"

lemma left_root: "t \<noteq> Leaf \<Longrightarrow> tree_at m p t \<Longrightarrow> rd n_left m (root t) = Some (root (left t))"
  by (cases t rule: root.cases) (auto simp: mem_simps)

lemma right_root: "t \<noteq> Leaf \<Longrightarrow> tree_at m p t \<Longrightarrow> rd n_right m (root t) = Some (root (right t))"
  by (cases t rule: root.cases) (auto simp: mem_simps)

lemma parent_root: "t \<noteq> Leaf \<Longrightarrow> tree_at m p t \<Longrightarrow> rd n_parent m (root t) = Some p"
  by (cases t rule: root.cases) (auto simp: mem_simps)

lemma subtree_run:
  assumes "tree_at m p t" "counted t" "size t + 1 < 2 ^ 32" "t \<noteq> Leaf"
  shows "\<exists>q. tree_at m q (left t)" "\<exists>q. tree_at m q (right t)" "counted (left t)" "counted (right t)"
    and "size (left t) + 1 < 2 ^ 32" "size (right t) + 1 < 2 ^ 32"
    and "size t = size (left t) + size (right t) + 1"
  using assms by (cases t rule: root.cases; auto)+

lemma offset_down:
  assumes "tree_at m p t" "counted t" "size t + 1 < 2 ^ 32" "t \<noteq> Leaf"
    and "pos = int (b + size (left t)) - start" "offset = int k - start"
    and "b \<le> k" "k < b + size t"
  shows "avl_offset_from m (root t) offset pos = Some (Some (nodes t ! (k - b)))"
  using assms
proof (induction t arbitrary: p pos b)
  case (Node l x r)
  obtain a h c where x: "x = (a, h, c)" by (cases x) auto
  have tl: "tree_at m (Some a) l" "counted l" "size l + 1 < 2 ^ 32"
    and tr: "tree_at m (Some a) r" "counted r" "size r + 1 < 2 ^ 32"
    using Node.prems by (auto simp: x)
  note cl = cnt_run [OF tl] and cr = cnt_run [OF tr]
  have ra: "rd n_left m (Some a) = Some (root l)" "rd n_right m (Some a) = Some (root r)"
    using Node.prems(1) by (auto simp: x mem_simps)
  consider (here) "k = b + size l" | (right) "k > b + size l" | (left) "k < b + size l"
    by linarith
  then show ?case
  proof cases
    case here
    then show ?thesis
      using Node.prems(5,6) by (subst avl_offset_from.simps) (simp add: x nth_append)
  next
    case right
    then have ne: "r \<noteq> Leaf" using Node.prems(8) by auto
    note sub = subtree_run [OF tr ne]
    obtain q where q: "tree_at m q (left r)" using sub(1) by blast
    note c = cnt_run [OF q sub(3,5)]
    have "avl_offset_from m (Some a) offset pos =
        avl_offset_from m (root r) offset (pos + (int (size (left r)) + 1))"
      using Node.prems(5,6,8) right ra cr c left_root [OF ne tr(1)]
      by (subst avl_offset_from.simps) simp
    also have "\<dots> = Some (Some (nodes r ! (k - (b + size l + 1))))"
      using Node.prems right tr ne
      by (intro Node.IH(2) [of "Some a"]) auto
    also have "nodes r ! (k - (b + size l + 1)) = nodes (Node l x r) ! (size l + Suc (k - (b + size l + 1)))"
      by (simp add: nth_append)
    also have "size l + Suc (k - (b + size l + 1)) = k - b"
      using right by simp
    finally show ?thesis
      by (simp add: x)
  next
    case left
    then have ne: "l \<noteq> Leaf" using Node.prems(7) by auto
    note sub = subtree_run [OF tl ne]
    obtain q where q: "tree_at m q (right l)" using sub(2) by blast
    note c = cnt_run [OF q sub(4,6)]
    have "avl_offset_from m (Some a) offset pos =
        avl_offset_from m (root l) offset (pos - (int (size (right l)) + 1))"
      using Node.prems(5,6,7) left ra cl c right_root [OF ne tl(1)]
      by (subst avl_offset_from.simps) simp
    also have "\<dots> = Some (Some (nodes l ! (k - b)))"
      using Node.prems left tl ne sub(7)
      by (intro Node.IH(1) [of "Some a"]) auto
    finally show ?thesis
      using left Node.prems(7) by (simp add: x nth_append less_diff_conv2)
  qed
qed simp

text \<open>Climbing: until the target is inside the subtree, or there is no parent.\<close>

lemma offset_climb:
  assumes "tree_at m p t" "counted t" "size t + 1 < 2 ^ 32" "t \<noteq> Leaf"
    and "pos = int (b + size (left t)) - start" "offset = k - start"
    and "k < int b \<or> int (b + size t) \<le> k"
  shows "avl_offset_from m (root t) offset pos =
    (if p = None then Some None
     else rd n_right m p \<bind> (\<lambda>pr.
       if pr = root t then avl_offset_from m p offset (pos - (int (size (left t)) + 1))
       else avl_offset_from m p offset (pos + (int (size (right t)) + 1))))"
proof -
  note sub = subtree_run [OF assms(1-4)]
  obtain ql qr where q: "tree_at m ql (left t)" "tree_at m qr (right t)"
    using sub(1,2) by blast
  note cl = cnt_run [OF q(1) sub(3,5)] and cr = cnt_run [OF q(2) sub(4,6)]
  note rds = left_root [OF assms(4,1)] right_root [OF assms(4,1)] parent_root [OF assms(4,1)]
  have "(pos < offset \<longrightarrow> \<not> pos + int (size (right t)) \<ge> offset) \<and>
        (pos > offset \<longrightarrow> \<not> pos - int (size (left t)) \<le> offset) \<and> pos \<noteq> offset"
    using assms(5,6,7) sub(7) by auto
  then show ?thesis
    using rds cl cr
    by (subst avl_offset_from.simps; cases p; cases "rd n_right m p"; cases "pos < offset") simp_all
qed

lemma offset_up:
  assumes "tree_at m None (plug t fs)" "counted (plug t fs)" "size (plug t fs) + 1 < 2 ^ 32"
    and "distinct (nodes (plug t fs))" "t \<noteq> Leaf"
    and "pos = int (before fs + size (left t)) - start" "offset = k - start"
  shows "avl_offset_from m (root t) offset pos =
    Some (if 0 \<le> k \<and> k < int (size (plug t fs)) then Some (nodes (plug t fs) ! nat k) else None)"
  using assms
proof (induction fs arbitrary: t pos)
  case Nil
  show ?case
  proof (cases "0 \<le> k \<and> k < int (size t)")
    case True
    then show ?thesis
      using offset_down [of m None t pos 0 start offset "nat k"] Nil.prems by auto
  next
    case False
    then show ?thesis
      using offset_climb [of m None t pos 0 start offset k] Nil.prems by auto
  qed
next
  case (Cons f fs)
  let ?T = "plug t (f # fs)"
  have t: "tree_at m (up_ptr (f # fs)) t" "counted t" "size t + 1 < 2 ^ 32" and ctx: "ctx_at m (root t) (f # fs)"
    using Cons.prems(1-3) tree_at_plug [of m t "f # fs"] counted_plugD [of t "f # fs"] size_plug [of t "f # fs"]
    by auto
  show ?case
  proof (cases "int (before (f # fs)) \<le> k \<and> k < int (before (f # fs) + size t)")
    case True
    then have "avl_offset_from m (root t) offset pos = Some (Some (nodes t ! (nat k - before (f # fs))))"
      using Cons.prems by (intro offset_down [OF t, where start = start]) auto
    moreover have "nodes ?T ! nat k = nodes t ! (nat k - before (f # fs))"
      using True nodes_plug [of t "f # fs"] by (auto simp: nth_append simp del: nodes_plug)
    moreover have "k < int (size ?T)"
      using True size_plug [of t "f # fs"] by simp
    ultimately show ?thesis
      using True by simp
  next
    case False
    let ?p = "up_ptr (f # fs)"
    have IH: "avl_offset_from m ?p offset (int (before fs + size (left (plug1 t f))) - start) =
      Some (if 0 \<le> k \<and> k < int (size ?T) then Some (nodes ?T ! nat k) else None)"
      using Cons.IH [of "plug1 t f"] Cons.prems up_ptr_plug1 [of t f fs] by simp
    have climb: "avl_offset_from m (root t) offset pos = rd n_right m ?p \<bind> (\<lambda>pr.
       if pr = root t then avl_offset_from m ?p offset (pos - (int (size (left t)) + 1))
       else avl_offset_from m ?p offset (pos + (int (size (right t)) + 1)))"
      using offset_climb [OF t Cons.prems(5) Cons.prems(6,7)] False by auto
    have st: "size t = size (left t) + size (right t) + 1"
      using Cons.prems(5) by (cases t) auto
    show ?thesis
    proof (cases f)
      case (InL x r)
      have "rd n_right m ?p = Some (root r)"
        using ctx by (cases x) (auto simp: InL mem_simps)
      moreover have "root r \<noteq> root t"
        using Cons.prems(4,5) root_in_nodes [of t] root_in_nodes [of r]
        by (cases "root t") (auto simp: InL)
      moreover have "pos + (int (size (right t)) + 1) = int (before fs + size (left (plug1 t f))) - start"
        using Cons.prems(6) st by (simp add: InL)
      ultimately show ?thesis
        using climb IH by simp
    next
      case (InR l x)
      have "rd n_right m ?p = Some (root t)"
        using ctx by (cases x) (auto simp: InR mem_simps)
      moreover have "pos - (int (size (left t)) + 1) = int (before fs + size (left (plug1 t f))) - start"
        using Cons.prems(6) by (simp add: InR)
      ultimately show ?thesis
        using climb IH by simp
    qed
  qed
qed

lemma avl_offset_computes:
  assumes "tree_at m None t" "counted t" "size t + 1 < 2 ^ 32" "distinct (nodes t)" "i < size t"
  shows "avl_offset m (Some (nodes t ! i)) offset =
    Some (if 0 \<le> int i + offset \<and> int i + offset < int (size t)
          then Some (nodes t ! nat (int i + offset)) else None)"
proof -
  have "nodes t ! i \<in> set (nodes t)"
    using assms(5) by simp
  from focus [OF this] obtain l h c r fs where t: "t = plug (Node l (nodes t ! i, h, c) r) fs"
    by blast
  let ?n = "Node l (nodes t ! i, h, c) r"
  have "nodes t ! (before fs + size l) = nodes t ! i"
    by (subst t) (simp add: nth_append)
  moreover have "before fs + size l < size t"
    using size_plug [of ?n fs] t by simp
  ultimately have i: "before fs + size l = i"
    using assms(4,5) by (simp add: nth_eq_iff_index_eq)
  have "avl_offset_from m (root ?n) offset 0 =
    Some (if 0 \<le> int i + offset \<and> int i + offset < int (size (plug ?n fs))
          then Some (nodes (plug ?n fs) ! nat (int i + offset)) else None)"
    by (rule offset_up [where start = "int i"]) (use assms t i in auto)
  then show ?thesis
    using t by (simp add: avl_offset_def)
qed

end
