(* ===== verification/Common.thy ===== *)
theory Common
  imports Prelude
begin

text \<open>common.h: the 64-bit FNV hash of a byte string. The loop is a fold over the bytes.\<close>

definition fnv_step :: "u64 \<Rightarrow> u8 \<Rightarrow> u64" where
  "fnv_step h b = (h XOR ucast b) * 0x100000001b3"

definition str_hash :: "bytes \<Rightarrow> u64" where
  "str_hash data = foldl fnv_step 0xcbf29ce484222325 data"

lemma str_hash_Nil [simp]: "str_hash [] = 0xcbf29ce484222325"
  by (simp add: str_hash_def)

lemma str_hash_snoc: "str_hash (data @ [b]) = (str_hash data XOR ucast b) * 0x100000001b3"
  by (simp add: str_hash_def fnv_step_def)

end
