(* ===== verification/Interfaces.thy ===== *)
theory Interfaces
  imports Common "HOL-Library.Multiset"
begin

text \<open>
  The contracts between the components. Each locale names the operations a client calls and
  the laws it relies on; the component that provides them interprets it on its own
  definitions. \<open>hash_index\<close> is what zset.cpp and server.cpp expect of hashtable.cpp,
  \<open>timer_queue\<close> what the timers of server.cpp expect of the heap, \<open>byte_codec\<close> what the
  serialisation expects of \<open>memcpy\<close> on a little-endian machine, \<open>job_queue\<close> what
  \<open>entry_del\<close> expects of the thread pool's queue.
\<close>

section \<open>An index of nodes by hash code and key\<close>

text \<open>
  Nodes carry the hash code of the key of their object, and no two objects have one key:
  the condition under which a hashtable is a finite map.
\<close>

definition keyed :: "('n \<Rightarrow> u64) \<Rightarrow> ('n \<Rightarrow> 'a) \<Rightarrow> ('a \<Rightarrow> bytes) \<Rightarrow> 'n multiset \<Rightarrow> bool" where
  "keyed hc ob key M \<longleftrightarrow>
     (\<forall>n \<in># M. hc n = str_hash (key (ob n))) \<and>
     (\<forall>k. size (filter_mset (\<lambda>n. key (ob n) = k) M) \<le> 1)"

text \<open>The object that \<open>M\<close> holds under \<open>k\<close>.\<close>

definition binds :: "('n \<Rightarrow> 'a) \<Rightarrow> ('a \<Rightarrow> bytes) \<Rightarrow> 'n multiset \<Rightarrow> bytes \<Rightarrow> 'a \<Rightarrow> bool" where
  "binds ob key M k x \<longleftrightarrow> key x = k \<and> x \<in># image_mset ob M"

lemma keyed_empty [simp, inv_intros]: "keyed hc ob key {#}"
  by (simp add: keyed_def)

lemma binds_empty [simp]: "\<not> binds ob key {#} k x"
  by (simp add: binds_def)

lemma filter_mset_none: "filter_mset P M = {#} \<longleftrightarrow> (\<forall>x \<in># M. \<not> P x)"
  by (induction M) auto

lemma keyed_unique:
  assumes "keyed hc ob key M" "n \<in># M" "n' \<in># M" "key (ob n) = key (ob n')"
  shows "n = n'"
proof (rule ccontr)
  assume "n \<noteq> n'"
  then have "{#n, n'#} \<subseteq># M"
    using assms(2,3) \<open>n \<noteq> n'\<close> by (auto simp: insert_subset_eq_iff in_diff_count)
  then have "filter_mset (\<lambda>m. key (ob m) = key (ob n)) {#n, n'#} \<subseteq># filter_mset (\<lambda>m. key (ob m) = key (ob n)) M"
    by (rule multiset_filter_mono)
  then have "2 \<le> size (filter_mset (\<lambda>m. key (ob m) = key (ob n)) M)"
    using assms(4) size_mset_mono by fastforce
  then show False
    using assms(1) by (auto simp: keyed_def dest: spec [of _ "key (ob n)"])
qed

lemma keyed_add:
  assumes "keyed hc ob key M" "hc n = str_hash (key (ob n))" "\<And>x. \<not> binds ob key M (key (ob n)) x"
  shows "keyed hc ob key (add_mset n M)"
proof -
  have "filter_mset (\<lambda>m. key (ob m) = key (ob n)) M = {#}"
    using assms(3) by (auto simp: binds_def filter_mset_none)
  then show ?thesis
    using assms(1,2) by (auto simp: keyed_def)
qed

lemma keyed_remove: "keyed hc ob key (add_mset n M) \<Longrightarrow> keyed hc ob key M"
proof -
  assume k: "keyed hc ob key (add_mset n M)"
  have le: "size (filter_mset P M) \<le> size (filter_mset P (add_mset n M))" for P
    by simp
  show ?thesis
    unfolding keyed_def
  proof (intro conjI allI)
    show "\<forall>m \<in># M. hc m = str_hash (key (ob m))"
      using k by (simp add: keyed_def)
    show "size (filter_mset (\<lambda>m. key (ob m) = q) M) \<le> 1" for q
      using k le [of "\<lambda>m. key (ob m) = q"] unfolding keyed_def by (meson le_trans)
  qed
qed

lemma keyed_remove_binds:
  assumes "keyed hc ob key (add_mset n M)"
  shows "binds ob key M k x \<longleftrightarrow> binds ob key (add_mset n M) k x \<and> k \<noteq> key (ob n)"
proof -
  have "filter_mset (\<lambda>m. key (ob m) = key (ob n)) M = {#}"
    using assms by (auto simp: keyed_def dest!: spec [of _ "key (ob n)"])
  then show ?thesis
    by (auto simp: binds_def filter_mset_none)
qed

lemma keyed_binds_fun: "keyed hc ob key M \<Longrightarrow> binds ob key M k x \<Longrightarrow> binds ob key M k y \<Longrightarrow> x = y"
  using keyed_unique [of hc ob key M] by (auto simp: binds_def)

locale hash_index =
  fixes ok :: "'s \<Rightarrow> bool"
    and nodes :: "'s \<Rightarrow> 'n multiset"
    and hc :: "'n \<Rightarrow> u64"
    and ob :: "'n \<Rightarrow> 'a"
    and find :: "'s \<Rightarrow> u64 \<Rightarrow> ('a \<Rightarrow> bool) \<Rightarrow> ('s \<times> 'n option) option"
    and ins :: "'s \<Rightarrow> 'n \<Rightarrow> 's option"
    and del :: "'s \<Rightarrow> u64 \<Rightarrow> ('a \<Rightarrow> bool) \<Rightarrow> ('s \<times> 'n option) option"
  assumes find_law: "ok s \<Longrightarrow> \<exists>s' r. find s c eq = Some (s', r) \<and> ok s' \<and> nodes s' = nodes s \<and>
      (case r of None \<Rightarrow> \<forall>n \<in># nodes s. \<not> (hc n = c \<and> eq (ob n))
       | Some n \<Rightarrow> n \<in># nodes s \<and> hc n = c \<and> eq (ob n))"
    and ins_law: "ok s \<Longrightarrow> \<exists>s'. ins s n = Some s' \<and> ok s' \<and> nodes s' = add_mset n (nodes s)"
    and del_law: "ok s \<Longrightarrow> \<exists>s' r. del s c eq = Some (s', r) \<and> ok s' \<and>
      (case r of None \<Rightarrow> nodes s' = nodes s \<and> (\<forall>n \<in># nodes s. \<not> (hc n = c \<and> eq (ob n)))
       | Some n \<Rightarrow> nodes s = add_mset n (nodes s') \<and> hc n = c \<and> eq (ob n))"
begin

lemma find_key:
  assumes "ok s" "keyed hc ob key (nodes s)"
  shows "\<exists>s' r. find s (str_hash k) (\<lambda>x. key x = k) = Some (s', r) \<and> ok s' \<and> nodes s' = nodes s \<and>
    (\<forall>x. (\<exists>n. r = Some n \<and> ob n = x) \<longleftrightarrow> binds ob key (nodes s) k x)"
proof -
  obtain s' r where f: "find s (str_hash k) (\<lambda>x. key x = k) = Some (s', r)" "ok s'" "nodes s' = nodes s"
    "case r of None \<Rightarrow> \<forall>n \<in># nodes s. \<not> (hc n = str_hash k \<and> key (ob n) = k)
     | Some n \<Rightarrow> n \<in># nodes s \<and> hc n = str_hash k \<and> key (ob n) = k"
    using find_law [OF assms(1)] by blast
  have "(\<exists>n. r = Some n \<and> ob n = x) \<longleftrightarrow> binds ob key (nodes s) k x" for x
  proof (cases r)
    case None
    then show ?thesis
      using f(4) assms(2) by (auto simp: binds_def keyed_def)
  next
    case (Some n)
    then have "binds ob key (nodes s) k (ob n)"
      using f(4) by (auto simp: binds_def)
    then show ?thesis
      using Some keyed_binds_fun [OF assms(2)] by blast
  qed
  then show ?thesis
    using f by blast
qed

lemma ins_key:
  assumes "ok s" "keyed hc ob key (nodes s)" "hc n = str_hash (key (ob n))"
    and "\<And>x. \<not> binds ob key (nodes s) (key (ob n)) x"
  shows "\<exists>s'. ins s n = Some s' \<and> ok s' \<and> keyed hc ob key (nodes s') \<and>
    (\<forall>k x. binds ob key (nodes s') k x \<longleftrightarrow> (if k = key (ob n) then x = ob n else binds ob key (nodes s) k x))"
proof -
  obtain s' where s': "ins s n = Some s'" "ok s'" "nodes s' = add_mset n (nodes s)"
    using ins_law [OF assms(1)] by blast
  then show ?thesis
    using keyed_add [OF assms(2-4)] assms(4) by (auto simp: binds_def)
qed

lemma del_key:
  assumes "ok s" "keyed hc ob key (nodes s)"
  shows "\<exists>s' r. del s (str_hash k) (\<lambda>x. key x = k) = Some (s', r) \<and> ok s' \<and> keyed hc ob key (nodes s') \<and>
    (\<forall>x. (\<exists>n. r = Some n \<and> ob n = x) \<longleftrightarrow> binds ob key (nodes s) k x) \<and>
    (\<forall>k' x. binds ob key (nodes s') k' x \<longleftrightarrow> k' \<noteq> k \<and> binds ob key (nodes s) k' x)"
proof -
  obtain s' r where f: "del s (str_hash k) (\<lambda>x. key x = k) = Some (s', r)" "ok s'"
    "case r of None \<Rightarrow> nodes s' = nodes s \<and> (\<forall>n \<in># nodes s. \<not> (hc n = str_hash k \<and> key (ob n) = k))
     | Some n \<Rightarrow> nodes s = add_mset n (nodes s') \<and> hc n = str_hash k \<and> key (ob n) = k"
    using del_law [OF assms(1)] by blast
  show ?thesis
  proof (cases r)
    case None
    then have "\<not> binds ob key (nodes s) k x" for x
      using f(3) assms(2) by (auto simp: binds_def keyed_def)
    then show ?thesis
      using f None assms(2) by auto
  next
    case (Some n)
    then have n: "nodes s = add_mset n (nodes s')" "key (ob n) = k"
      using f(3) by auto
    then have "binds ob key (nodes s) k (ob n)"
      by (simp add: binds_def)
    then have "(\<exists>m. r = Some m \<and> ob m = x) \<longleftrightarrow> binds ob key (nodes s) k x" for x
      using Some keyed_binds_fun [OF assms(2)] by blast
    then show ?thesis
      using f(1,2) n keyed_remove [of hc ob key n] keyed_remove_binds [of hc ob key n] assms(2) by auto
  qed
qed

end

section \<open>A queue of deadlines\<close>

text \<open>Taking off the earliest deadline while it lies before \<open>now\<close>; \<open>rs\<close> lists what was taken off.\<close>

inductive expires :: "('s \<Rightarrow> (u64 \<times> addr) option) \<Rightarrow> (addr \<Rightarrow> 's \<Rightarrow> 's option) \<Rightarrow> u64 \<Rightarrow>
    's \<Rightarrow> addr list \<Rightarrow> 's \<Rightarrow> bool"
  for earliest :: "'s \<Rightarrow> (u64 \<times> addr) option" and cancel :: "addr \<Rightarrow> 's \<Rightarrow> 's option" and now :: u64
where
  expires_done: "(\<And>v r. earliest s = Some (v, r) \<Longrightarrow> now \<le> v) \<Longrightarrow> expires earliest cancel now s [] s"
| expires_next: "earliest s = Some (v, r) \<Longrightarrow> v < now \<Longrightarrow> cancel r s = Some s1 \<Longrightarrow>
    expires earliest cancel now s1 rs s2 \<Longrightarrow> expires earliest cancel now s (r # rs) s2"

locale timer_queue =
  fixes ok :: "'s \<Rightarrow> bool"
    and due :: "'s \<Rightarrow> addr \<Rightarrow> u64 option"
    and earliest :: "'s \<Rightarrow> (u64 \<times> addr) option"
    and cancel :: "addr \<Rightarrow> 's \<Rightarrow> 's option"
  assumes earliest_None: "ok s \<Longrightarrow> earliest s = None \<Longrightarrow> due s r = None"
    and earliest_Some: "ok s \<Longrightarrow> earliest s = Some (v, r) \<Longrightarrow> due s r = Some v"
    and earliest_least: "ok s \<Longrightarrow> earliest s = Some (v, r) \<Longrightarrow> due s r' = Some v' \<Longrightarrow> v \<le> v'"
    and cancel_law: "ok s \<Longrightarrow> due s r = Some v \<Longrightarrow>
      \<exists>s'. cancel r s = Some s' \<and> ok s' \<and> due s' = (due s)(r := None)"
    and finite_due: "ok s \<Longrightarrow> finite (dom (due s))"
begin

lemma expires_sound:
  assumes "expires earliest cancel now s rs s'" "ok s"
  shows "ok s' \<and> distinct rs \<and> set rs = {r. \<exists>v. due s r = Some v \<and> v < now}
    \<and> sorted (map (\<lambda>r. the (due s r)) rs)
    \<and> due s' = due s |` {r. \<exists>v. due s r = Some v \<and> now \<le> v}"
  using assms
proof (induction rule: expires.induct)
  case (expires_done s)
  have late: "now \<le> v" if "due s r = Some v" for r v
    using that expires_done earliest_None [of s r] earliest_least [of s _ _ r v]
    by (cases "earliest s") (auto intro: order_trans)
  then have "due s = due s |` {r. \<exists>v. due s r = Some v \<and> now \<le> v}"
    by (intro ext) (auto simp: restrict_map_def; metis option.exhaust)
  then show ?case
    using expires_done(2) late by (auto simp: not_less [symmetric])
next
  case (expires_next s v r s1 rs s2)
  have d: "due s r = Some v" "\<And>r' v'. due s r' = Some v' \<Longrightarrow> v \<le> v'"
    using earliest_Some earliest_least expires_next by blast+
  then have s1: "ok s1" "due s1 = (due s)(r := None)"
    using cancel_law [OF expires_next(6) d(1)] expires_next(3) by auto
  then have IH: "ok s2" "distinct rs" "set rs = {q. \<exists>v. due s1 q = Some v \<and> v < now}"
    "sorted (map (\<lambda>q. the (due s1 q)) rs)"
    "due s2 = due s1 |` {q. \<exists>v. due s1 q = Some v \<and> now \<le> v}"
    using expires_next.IH [OF s1(1)] by blast+
  have "r \<notin> set rs"
    using IH(3) s1(2) by auto
  then have same: "map (\<lambda>q. the (due s1 q)) rs = map (\<lambda>q. the (due s q)) rs"
    using s1(2) by auto
  have "v \<le> the (due s q)" if "q \<in> set rs" for q
    using that IH(3) s1(2) d(2) by (auto split: if_splits)
  then have "sorted (map (\<lambda>q. the (due s q)) (r # rs))"
    using IH(4) [unfolded same] d(1) by simp
  moreover have "set (r # rs) = {q. \<exists>v. due s q = Some v \<and> v < now}"
    using IH(3) s1(2) d(1) expires_next(2) by (auto split: if_splits)
  moreover have "due s2 = due s |` {q. \<exists>v. due s q = Some v \<and> now \<le> v}"
    unfolding IH(5) using s1(2) d(1) expires_next(2) by (intro ext) (auto simp: restrict_map_def)
  moreover have "distinct (r # rs)"
    using IH(2) \<open>r \<notin> set rs\<close> by simp
  ultimately show ?case
    using IH(1) by blast
qed

lemma expires_exists: "ok s \<Longrightarrow> \<exists>rs s'. expires earliest cancel now s rs s'"
proof (induction "card (dom (due s))" arbitrary: s rule: less_induct)
  case less
  show ?case
  proof (cases "\<exists>v r. earliest s = Some (v, r) \<and> v < now")
    case False
    then show ?thesis
      using expires_done [of earliest s now cancel] by (meson not_less)
  next
    case True
    then obtain v r where e: "earliest s = Some (v, r)" "v < now"
      by blast
    then have d: "due s r = Some v"
      using earliest_Some less.prems by blast
    obtain s1 where s1: "cancel r s = Some s1" "ok s1" "due s1 = (due s)(r := None)"
      using cancel_law [OF less.prems d] by blast
    have "card (dom (due s1)) < card (dom (due s))"
      using finite_due [OF less.prems] d s1(3) by (auto intro!: psubset_card_mono)
    then show ?thesis
      using less.hyps s1(2) expires_next [of earliest s v r now cancel s1, OF e s1(1)] by blast
  qed
qed

end

section \<open>Fixed-width fields of a byte buffer\<close>

text \<open>What \<open>memcpy(&out[pos], &x, width)\<close> does to a buffer that is long enough.\<close>

definition patch :: "nat \<Rightarrow> bytes \<Rightarrow> bytes \<Rightarrow> bytes" where
  "patch pos field buf = take pos buf @ field @ drop (pos + length field) buf"

locale byte_codec =
  fixes width :: nat
    and enc :: "'a \<Rightarrow> bytes"
    and dec :: "bytes \<Rightarrow> 'a"
  assumes enc_length: "length (enc x) = width"
    and dec_enc: "dec (enc x) = x"
    and enc_dec: "length bs = width \<Longrightarrow> enc (dec bs) = bs"
begin

lemma dec_prefix: "dec (take width (enc x @ rest)) = x"
  using dec_enc [of x] enc_length [of x] by (metis take_append_exact)

lemma drop_field: "drop width (enc x @ rest) = rest"
  by (simp add: enc_length)

lemma dec_at: "dec (take width (drop (length pre) (pre @ enc x @ rest))) = x"
  using dec_prefix [of x rest] by (simp add: enc_length)

lemma patch_hole: "patch (length pre) (enc x) (pre @ enc y @ rest) = pre @ enc x @ rest"
  by (simp add: patch_def enc_length)

lemma length_patch: "pos + width \<le> length buf \<Longrightarrow> length (patch pos (enc x) buf) = length buf"
  by (simp add: patch_def enc_length)

lemma enc_inj: "enc x = enc y \<longleftrightarrow> x = y"
  by (metis dec_enc)

lemma split_field: "width \<le> length bs \<Longrightarrow> enc (dec (take width bs)) @ drop width bs = bs"
  by (simp add: enc_dec)

end

section \<open>A queue of jobs\<close>

locale job_queue =
  fixes jobs :: "'q \<Rightarrow> 'j list"
    and push :: "'q \<Rightarrow> 'j \<Rightarrow> 'q"
    and pop :: "'q \<Rightarrow> ('j \<times> 'q) option"
  assumes push_law: "jobs (push q j) = jobs q @ [j]"
    and pop_empty: "jobs q = [] \<Longrightarrow> pop q = None"
    and pop_law: "jobs q = j # js \<Longrightarrow> \<exists>q'. pop q = Some (j, q') \<and> jobs q' = js"
begin

lemma pop_SomeD: "pop q = Some (j, q') \<Longrightarrow> jobs q = j # jobs q'"
  by (cases "jobs q") (auto simp: pop_empty dest: pop_law)

lemma pop_None_iff: "pop q = None \<longleftrightarrow> jobs q = []"
  by (cases "jobs q") (auto simp: pop_empty dest: pop_law)

end

end
