(* ===== verification/Hashtable.thy ===== *)
theory Hashtable
  imports Interfaces
begin

text \<open>
  hashtable.h and hashtable.cpp: the intrusive chained hashtable with progressive rehashing.
  A node is its \<open>hcode\<close> and the object it is embedded in; the chain of a slot, linked in the
  source through \<open>next\<close>, is the list of its nodes; a pointer \<open>HNode **from\<close> into a table is
  a slot number and a position in its chain. \<open>None\<close> is an access outside the slot array, a
  null table, or a failed assertion.
\<close>

section \<open>Tables\<close>

record 'a hnode =
  hcode :: u64
  hobj :: 'a

record 'a htab =
  htab_tab :: "'a hnode list list option"
  htab_mask :: nat
  htab_size :: nat

record 'a hmap =
  newer :: "'a htab"
  older :: "'a htab"
  migrate_pos :: nat

definition empty_htab :: "'a htab" where
  "empty_htab = \<lparr>htab_tab = None, htab_mask = 0, htab_size = 0\<rparr>"

definition empty_hmap :: "'a hmap" where
  "empty_hmap = \<lparr>newer = empty_htab, older = empty_htab, migrate_pos = 0\<rparr>"

definition h_init :: "nat \<Rightarrow> 'a htab option" where
  "h_init n = do {
     guard (n > 0 \<and> ((n - 1) AND n) = 0);
     Some \<lparr>htab_tab = Some (replicate n []), htab_mask = n - 1, htab_size = 0\<rparr>
   }"

definition h_slot :: "'a htab \<Rightarrow> u64 \<Rightarrow> nat" where
  "h_slot t hc = unat hc AND htab_mask t"

definition h_insert :: "'a htab \<Rightarrow> 'a hnode \<Rightarrow> 'a htab option" where
  "h_insert t node = do {
     slots \<leftarrow> htab_tab t;
     let pos = h_slot t (hcode node);
     guard (pos < length slots);
     Some (t\<lparr>htab_tab := Some (slots[pos := node # slots ! pos]), htab_size := htab_size t + 1\<rparr>)
   }"

fun chain_find :: "u64 \<Rightarrow> ('a \<Rightarrow> bool) \<Rightarrow> 'a hnode list \<Rightarrow> nat option" where
  "chain_find hc eq [] = None"
| "chain_find hc eq (cur # rest) =
     (if hcode cur = hc \<and> eq (hobj cur) then Some 0 else map_option Suc (chain_find hc eq rest))"

text \<open>The result \<open>Some None\<close> is the null pointer, \<open>Some (Some (pos, i))\<close> a \<open>from\<close> pointer.\<close>

definition h_lookup :: "'a htab \<Rightarrow> u64 \<Rightarrow> ('a \<Rightarrow> bool) \<Rightarrow> (nat \<times> nat) option option" where
  "h_lookup t hc eq =
     (case htab_tab t of
        None \<Rightarrow> Some None
      | Some slots \<Rightarrow> do {
          let pos = h_slot t hc;
          guard (pos < length slots);
          Some (map_option (Pair pos) (chain_find hc eq (slots ! pos)))
        })"

definition h_node :: "'a htab \<Rightarrow> nat \<times> nat \<Rightarrow> 'a hnode option" where
  "h_node t from = do {
     slots \<leftarrow> htab_tab t;
     guard (fst from < length slots \<and> snd from < length (slots ! fst from));
     Some (slots ! fst from ! snd from)
   }"

definition h_detach :: "'a htab \<Rightarrow> nat \<times> nat \<Rightarrow> ('a htab \<times> 'a hnode) option" where
  "h_detach t from = do {
     node \<leftarrow> h_node t from;
     slots \<leftarrow> htab_tab t;
     let (pos, i) = from;
     let chain = slots ! pos;
     Some (t\<lparr>htab_tab := Some (slots[pos := take i chain @ drop (Suc i) chain]),
             htab_size := htab_size t - 1\<rparr>, node)
   }"

section \<open>The map of two tables\<close>

definition k_rehashing_work :: nat where
  "k_rehashing_work = 128"

function help_rehashing_loop :: "'a hmap \<Rightarrow> nat \<Rightarrow> 'a hmap option" where
  "help_rehashing_loop h nwork =
     (if nwork < k_rehashing_work \<and> htab_size (older h) > 0 then do {
        slots \<leftarrow> htab_tab (older h);
        guard (migrate_pos h < length slots);
        if slots ! migrate_pos h = []
        then help_rehashing_loop (h\<lparr>migrate_pos := migrate_pos h + 1\<rparr>) nwork
        else do {
          (older', node) \<leftarrow> h_detach (older h) (migrate_pos h, 0);
          newer' \<leftarrow> h_insert (newer h) node;
          help_rehashing_loop (h\<lparr>newer := newer', older := older'\<rparr>) (nwork + 1)
        }
      } else Some h)"
  by pat_completeness auto
termination
  by (relation "measures [\<lambda>(h, nwork). k_rehashing_work - nwork,
        \<lambda>(h, nwork). case htab_tab (older h) of None \<Rightarrow> 0 | Some s \<Rightarrow> length s - migrate_pos h]")
    (auto split: option.splits)

declare help_rehashing_loop.simps [simp del]

definition hm_help_rehashing :: "'a hmap \<Rightarrow> 'a hmap option" where
  "hm_help_rehashing h = do {
     h \<leftarrow> help_rehashing_loop h 0;
     if htab_size (older h) = 0 \<and> htab_tab (older h) \<noteq> None
     then Some (h\<lparr>older := empty_htab\<rparr>)
     else Some h
   }"

definition hm_trigger_rehashing :: "'a hmap \<Rightarrow> 'a hmap option" where
  "hm_trigger_rehashing h = do {
     guard (htab_tab (older h) = None);
     let h = h\<lparr>older := newer h\<rparr>;
     t \<leftarrow> h_init ((htab_mask (newer h) + 1) * 2);
     Some (h\<lparr>newer := t, migrate_pos := 0\<rparr>)
   }"

definition hm_lookup :: "'a hmap \<Rightarrow> u64 \<Rightarrow> ('a \<Rightarrow> bool) \<Rightarrow> ('a hmap \<times> 'a hnode option) option" where
  "hm_lookup h hc eq = do {
     h \<leftarrow> hm_help_rehashing h;
     from \<leftarrow> h_lookup (newer h) hc eq;
     (case from of
        Some f \<Rightarrow> do { node \<leftarrow> h_node (newer h) f; Some (h, Some node) }
      | None \<Rightarrow> do {
          from \<leftarrow> h_lookup (older h) hc eq;
          (case from of
             Some f \<Rightarrow> do { node \<leftarrow> h_node (older h) f; Some (h, Some node) }
           | None \<Rightarrow> Some (h, None))
        })
   }"

definition k_max_load_factor :: nat where
  "k_max_load_factor = 8"

definition hm_insert :: "'a hmap \<Rightarrow> 'a hnode \<Rightarrow> 'a hmap option" where
  "hm_insert h node = do {
     h \<leftarrow> (if htab_tab (newer h) = None
           then do { t \<leftarrow> h_init 4; Some (h\<lparr>newer := t\<rparr>) }
           else Some h);
     t \<leftarrow> h_insert (newer h) node;
     let h = h\<lparr>newer := t\<rparr>;
     h \<leftarrow> (if htab_tab (older h) = None
           then let threshold = (htab_mask (newer h) + 1) * k_max_load_factor in
                if htab_size (newer h) \<ge> threshold then hm_trigger_rehashing h else Some h
           else Some h);
     hm_help_rehashing h
   }"

definition hm_delete :: "'a hmap \<Rightarrow> u64 \<Rightarrow> ('a \<Rightarrow> bool) \<Rightarrow> ('a hmap \<times> 'a hnode option) option" where
  "hm_delete h hc eq = do {
     h \<leftarrow> hm_help_rehashing h;
     from \<leftarrow> h_lookup (newer h) hc eq;
     (case from of
        Some f \<Rightarrow> do { (t, node) \<leftarrow> h_detach (newer h) f; Some (h\<lparr>newer := t\<rparr>, Some node) }
      | None \<Rightarrow> do {
          from \<leftarrow> h_lookup (older h) hc eq;
          (case from of
             Some f \<Rightarrow> do { (t, node) \<leftarrow> h_detach (older h) f; Some (h\<lparr>older := t\<rparr>, Some node) }
           | None \<Rightarrow> Some (h, None))
        })
   }"

definition hm_size :: "'a hmap \<Rightarrow> nat" where
  "hm_size h = htab_size (newer h) + htab_size (older h)"

definition hm_clear :: "'a hmap \<Rightarrow> 'a hmap" where
  "hm_clear h = empty_hmap"

text \<open>The callback of \<open>hm_foreach\<close> takes the state it writes to and says whether to go on.\<close>

fun chain_foreach :: "('a \<Rightarrow> 's \<Rightarrow> bool \<times> 's) \<Rightarrow> 'a hnode list \<Rightarrow> 's \<Rightarrow> bool \<times> 's" where
  "chain_foreach f [] s = (True, s)"
| "chain_foreach f (n # ns) s =
     (let (go_on, s') = f (hobj n) s in if go_on then chain_foreach f ns s' else (False, s'))"

function h_foreach_from :: "nat \<Rightarrow> 'a htab \<Rightarrow> ('a \<Rightarrow> 's \<Rightarrow> bool \<times> 's) \<Rightarrow> 's \<Rightarrow> (bool \<times> 's) option" where
  "h_foreach_from i t f s =
     (if htab_mask t \<noteq> 0 \<and> i \<le> htab_mask t then do {
        slots \<leftarrow> htab_tab t;
        guard (i < length slots);
        let (go_on, s') = chain_foreach f (slots ! i) s;
        if go_on then h_foreach_from (i + 1) t f s' else Some (False, s')
      } else Some (True, s))"
  by pat_completeness auto
termination
  by (relation "measure (\<lambda>(i, t, f, s). Suc (htab_mask t) - i)") auto

declare h_foreach_from.simps [simp del]

definition h_foreach :: "'a htab \<Rightarrow> ('a \<Rightarrow> 's \<Rightarrow> bool \<times> 's) \<Rightarrow> 's \<Rightarrow> (bool \<times> 's) option" where
  "h_foreach t f s = h_foreach_from 0 t f s"

definition hm_foreach :: "'a hmap \<Rightarrow> ('a \<Rightarrow> 's \<Rightarrow> bool \<times> 's) \<Rightarrow> 's \<Rightarrow> 's option" where
  "hm_foreach h f s = do {
     (go_on, s) \<leftarrow> h_foreach (newer h) f s;
     if go_on then do { (_, s) \<leftarrow> h_foreach (older h) f s; Some s } else Some s
   }"

section \<open>The invariant\<close>

definition slots_ok :: "nat \<Rightarrow> 'a hnode list list \<Rightarrow> bool" where
  "slots_ok msk slots \<longleftrightarrow> length slots = msk + 1 \<and> (\<exists>k\<ge>2. msk + 1 = 2 ^ k) \<and>
     (\<forall>i < length slots. \<forall>n \<in> set (slots ! i). unat (hcode n) AND msk = i)"

definition htab_ok :: "'a htab \<Rightarrow> bool" where
  "htab_ok t \<longleftrightarrow>
     (case htab_tab t of
        None \<Rightarrow> htab_mask t = 0 \<and> htab_size t = 0
      | Some slots \<Rightarrow> slots_ok (htab_mask t) slots \<and> htab_size t = length (concat slots))"

definition tab_nodes :: "'a htab \<Rightarrow> 'a hnode multiset" where
  "tab_nodes t = (case htab_tab t of None \<Rightarrow> {#} | Some slots \<Rightarrow> mset (concat slots))"

text \<open>The slots that the migration has passed are empty.\<close>

definition drained :: "nat \<Rightarrow> 'a htab \<Rightarrow> bool" where
  "drained p t \<longleftrightarrow>
     (case htab_tab t of None \<Rightarrow> True | Some slots \<Rightarrow> \<forall>i < length slots. i < p \<longrightarrow> slots ! i = [])"

definition hm_ok :: "'a hmap \<Rightarrow> bool" where
  "hm_ok h \<longleftrightarrow> htab_ok (newer h) \<and> htab_ok (older h)
     \<and> (htab_tab (newer h) = None \<longrightarrow> htab_tab (older h) = None)
     \<and> drained (migrate_pos h) (older h)"

definition hm_nodes :: "'a hmap \<Rightarrow> 'a hnode multiset" where
  "hm_nodes h = tab_nodes (newer h) + tab_nodes (older h)"

lemma htab_ok_empty [simp, inv_intros]: "htab_ok empty_htab"
  by (simp add: htab_ok_def empty_htab_def)

lemma tab_nodes_empty [simp]: "tab_nodes empty_htab = {#}"
  by (simp add: tab_nodes_def empty_htab_def)

lemma drained_empty [simp, inv_intros]: "drained p empty_htab" "drained 0 t"
  by (auto simp: drained_def empty_htab_def split: option.splits)

lemma hm_ok_empty [simp, inv_intros]: "hm_ok empty_hmap"
  by (simp add: hm_ok_def empty_hmap_def)

lemma hm_nodes_empty [simp]: "hm_nodes empty_hmap = {#}"
  by (simp add: hm_nodes_def empty_hmap_def)

lemma nat_and_mask_less: "(x :: nat) AND (2 ^ k - 1) < 2 ^ k"
  using take_bit_nat_less_exp [of k x] by (simp add: take_bit_eq_mask mask_eq_exp_minus_1)

lemma slot_bound:
  assumes "slots_ok msk slots"
  shows "unat hc AND msk < length slots"
proof -
  obtain k where k: "msk + 1 = 2 ^ k" and len: "length slots = msk + 1"
    using assms by (auto simp: slots_ok_def)
  have "msk = 2 ^ k - 1"
    using k by simp
  then show ?thesis
    using nat_and_mask_less [of "unat hc" k] k len by simp
qed

lemma h_init_ok:
  assumes "n = 2 ^ k" "k \<ge> 2"
  shows "\<exists>t. h_init n = Some t \<and> htab_ok t \<and> tab_nodes t = {#} \<and> htab_tab t \<noteq> None \<and> htab_mask t = n - 1"
proof -
  have "(2 ^ k - 1) AND (2 ^ k :: nat) = take_bit k (2 ^ k)"
    by (simp add: take_bit_eq_mask mask_eq_exp_minus_1 and.commute)
  then have "(n - 1) AND n = 0"
    by (simp add: assms(1))
  moreover have "concat (replicate n ([] :: 'a hnode list)) = []"
    by simp
  ultimately show ?thesis
    using assms by (auto simp: h_init_def htab_ok_def slots_ok_def tab_nodes_def)
qed

lemma htab_ok_size: "htab_ok t \<Longrightarrow> htab_size t = size (tab_nodes t)"
  by (auto simp: htab_ok_def tab_nodes_def split: option.splits)

lemma h_insert_ok:
  assumes "htab_ok t" "htab_tab t \<noteq> None"
  shows "\<exists>t'. h_insert t node = Some t' \<and> htab_ok t' \<and> htab_tab t' \<noteq> None
           \<and> tab_nodes t' = add_mset node (tab_nodes t) \<and> htab_mask t' = htab_mask t"
proof -
  obtain slots where s: "htab_tab t = Some slots" "slots_ok (htab_mask t) slots" "htab_size t = length (concat slots)"
    using assms by (auto simp: htab_ok_def)
  let ?i = "h_slot t (hcode node)"
  have i: "?i < length slots"
    using slot_bound [OF s(2)] by (simp add: h_slot_def)
  note sp = concat_update_split [OF i]
  have "slots_ok (htab_mask t) (slots[?i := node # slots ! ?i])"
    using s(2) i by (auto simp: slots_ok_def nth_list_update h_slot_def)
  then show ?thesis
    using s(1,3) i by (auto simp: h_insert_def htab_ok_def tab_nodes_def sp Let_def)
qed

lemma h_detach_ok:
  assumes "htab_ok t" "h_node t from = Some node"
  shows "\<exists>t'. h_detach t from = Some (t', node) \<and> htab_ok t' \<and> htab_tab t' \<noteq> None
           \<and> tab_nodes t = add_mset node (tab_nodes t') \<and> htab_mask t' = htab_mask t
           \<and> htab_size t = Suc (htab_size t') \<and> (\<forall>p. drained p t \<longrightarrow> drained p t')"
proof -
  obtain i j where fr: "from = (i, j)" by (cases "from")
  obtain slots where s: "htab_tab t = Some slots" "slots_ok (htab_mask t) slots" "htab_size t = length (concat slots)"
    and ij: "i < length slots" "j < length (slots ! i)" "node = slots ! i ! j"
    using assms by (auto simp: htab_ok_def h_node_def fr split: option.splits bind_splits)
  let ?c = "slots ! i" and ?c' = "take j (slots ! i) @ drop (Suc j) (slots ! i)"
  have c: "?c = take j ?c @ node # drop (Suc j) ?c"
    using ij by (simp add: id_take_nth_drop)
  have "slots_ok (htab_mask t) (slots[i := ?c'])"
    using s(2) ij by (auto simp: slots_ok_def nth_list_update dest: in_set_takeD in_set_dropD)
  moreover have "mset (concat slots) = add_mset node (mset (concat (slots[i := ?c'])))"
    using concat_update_split [OF ij(1)] arg_cong [OF c, of mset] by simp
  moreover from this have "length (concat slots) = Suc (length (concat (slots[i := ?c'])))"
    by (metis size_add_mset size_mset)
  moreover have "drained p (t\<lparr>htab_tab := Some (slots[i := ?c']), htab_size := k\<rparr>)" if "drained p t" for p k
    using that s(1) ij by (auto simp: drained_def nth_list_update)
  ultimately show ?thesis
    using s(1,3) assms(2) by (auto simp: h_detach_def htab_ok_def tab_nodes_def fr Let_def)
qed

section \<open>Lookup in one table\<close>

lemma chain_find_Some:
  "chain_find hc eq c = Some i \<Longrightarrow> i < length c \<and> hcode (c ! i) = hc \<and> eq (hobj (c ! i))"
  by (induction c arbitrary: i) (auto split: if_splits)

lemma chain_find_None:
  "chain_find hc eq c = None \<longleftrightarrow> (\<forall>n \<in> set c. \<not> (hcode n = hc \<and> eq (hobj n)))"
  by (induction c) auto

lemma h_lookup_ok:
  assumes "htab_ok t"
  shows "\<exists>r. h_lookup t hc eq = Some r \<and>
    (case r of
       None \<Rightarrow> \<forall>n \<in># tab_nodes t. \<not> (hcode n = hc \<and> eq (hobj n))
     | Some f \<Rightarrow> \<exists>n. h_node t f = Some n \<and> n \<in># tab_nodes t \<and> hcode n = hc \<and> eq (hobj n))"
proof (cases "htab_tab t")
  case None
  then show ?thesis by (simp add: h_lookup_def tab_nodes_def)
next
  case (Some slots)
  have ok: "slots_ok (htab_mask t) slots"
    using assms Some by (simp add: htab_ok_def)
  let ?i = "h_slot t hc"
  have i: "?i < length slots"
    using slot_bound [OF ok] by (simp add: h_slot_def)
  have here: "n \<in> set (slots ! ?i)" if "n \<in> set (concat slots)" "hcode n = hc" for n
  proof -
    from that(1) obtain c where "c \<in> set slots" "n \<in> set c"
      by auto
    then obtain j where "j < length slots" "n \<in> set (slots ! j)"
      by (auto simp: in_set_conv_nth [of c])
    moreover from this have "unat (hcode n) AND htab_mask t = j"
      using ok by (simp add: slots_ok_def)
    ultimately show ?thesis using that(2) by (auto simp: h_slot_def)
  qed
  have run: "h_lookup t hc eq = Some (map_option (Pair ?i) (chain_find hc eq (slots ! ?i)))"
    and nodes: "set_mset (tab_nodes t) = set (concat slots)"
    using Some i by (simp_all add: h_lookup_def tab_nodes_def Let_def)
  show ?thesis
  proof (cases "chain_find hc eq (slots ! ?i)")
    case None
    then have "\<not> (hcode n = hc \<and> eq (hobj n))" if "n \<in># tab_nodes t" for n
      using that here [of n] nodes by (auto simp: chain_find_None)
    then show ?thesis
      using None run by simp
  next
    case (Some j)
    note cf = chain_find_Some [OF this]
    have "slots ! ?i ! j \<in> set (concat slots)"
      using i cf by (auto intro!: bexI [of _ "slots ! ?i"])
    moreover have "h_node t (?i, j) = Some (slots ! ?i ! j)"
      using \<open>htab_tab t = Some slots\<close> i cf by (simp add: h_node_def)
    ultimately show ?thesis
      using run Some cf nodes by simp
  qed
qed

section \<open>Progressive rehashing\<close>

text \<open>A step of the loop: an empty slot is passed, or one node moves to the newer table.\<close>

lemma older_slot:
  assumes "hm_ok h" "htab_size (older h) > 0"
  obtains slots where "htab_tab (older h) = Some slots" "migrate_pos h < length slots"
    "htab_tab (newer h) \<noteq> None"
proof -
  from assms obtain slots where s: "htab_tab (older h) = Some slots"
    "htab_size (older h) = length (concat slots)" "htab_tab (newer h) \<noteq> None"
    by (cases "htab_tab (older h)") (auto simp: hm_ok_def htab_ok_def)
  moreover have "migrate_pos h < length slots"
  proof (rule ccontr)
    assume "\<not> ?thesis"
    then have "\<forall>c \<in> set slots. c = []"
      using assms(1) s(1) by (auto simp: hm_ok_def drained_def in_set_conv_nth)
    then have "concat slots = []"
      by simp
    then show False
      using assms(2) s(2) by simp
  qed
  ultimately show ?thesis
    using that by blast
qed

lemma help_rehashing_loop_ok:
  assumes "hm_ok h"
  shows "\<exists>h'. help_rehashing_loop h nwork = Some h' \<and> hm_ok h' \<and> hm_nodes h' = hm_nodes h
           \<and> htab_mask (newer h') = htab_mask (newer h)
           \<and> htab_size (older h') = htab_size (older h) - (k_rehashing_work - nwork)
           \<and> (htab_tab (newer h') = None \<longleftrightarrow> htab_tab (newer h) = None)
           \<and> (htab_tab (older h') = None \<longleftrightarrow> htab_tab (older h) = None)"
  using assms
proof (induction h nwork rule: help_rehashing_loop.induct)
  case (1 h nwork)
  note unfold_loop = help_rehashing_loop.simps [of h nwork]
  show ?case
  proof (cases "nwork < k_rehashing_work \<and> htab_size (older h) > 0")
    case False
    then show ?thesis
      using "1.prems" by (auto simp: unfold_loop)
  next
    case True
    obtain slots where s: "htab_tab (older h) = Some slots" "migrate_pos h < length slots"
      "htab_tab (newer h) \<noteq> None"
      using older_slot [OF "1.prems"] True by blast
    show ?thesis
    proof (cases "slots ! migrate_pos h = []")
      case empty: True
      let ?h = "h\<lparr>migrate_pos := migrate_pos h + 1\<rparr>"
      have "hm_ok ?h"
        using "1.prems" s empty by (auto simp: hm_ok_def drained_def less_Suc_eq)
      from "1.IH"(1) [OF True s(1) _ empty this] s(2) obtain h' where
        "help_rehashing_loop ?h nwork = Some h'" "hm_ok h'" "hm_nodes h' = hm_nodes ?h"
        "htab_mask (newer h') = htab_mask (newer ?h)"
        "htab_size (older h') = htab_size (older ?h) - (k_rehashing_work - nwork)"
        "htab_tab (newer h') = None \<longleftrightarrow> htab_tab (newer ?h) = None"
        "htab_tab (older h') = None \<longleftrightarrow> htab_tab (older ?h) = None"
        by auto
      then show ?thesis
        using True s empty by (auto simp: unfold_loop hm_nodes_def)
    next
      case full: False
      have ok: "htab_ok (newer h)" "htab_ok (older h)"
        using "1.prems" by (auto simp: hm_ok_def)
      let ?n = "hd (slots ! migrate_pos h)"
      have nd: "h_node (older h) (migrate_pos h, 0) = Some ?n"
        using s full by (simp add: h_node_def hd_conv_nth)
      obtain o' where o': "h_detach (older h) (migrate_pos h, 0) = Some (o', ?n)" "htab_ok o'"
        "htab_tab o' \<noteq> None" "tab_nodes (older h) = add_mset ?n (tab_nodes o')"
        "htab_size (older h) = Suc (htab_size o')" "\<forall>p. drained p (older h) \<longrightarrow> drained p o'"
        using h_detach_ok [OF ok(2) nd] by auto
      obtain n' where n': "h_insert (newer h) ?n = Some n'" "htab_ok n'" "htab_tab n' \<noteq> None"
        "tab_nodes n' = add_mset ?n (tab_nodes (newer h))" "htab_mask n' = htab_mask (newer h)"
        using h_insert_ok [OF ok(1) s(3)] by blast
      let ?h = "h\<lparr>newer := n', older := o'\<rparr>"
      have "hm_ok ?h"
        using "1.prems" s o' n' by (auto simp: hm_ok_def)
      from "1.IH"(2) [OF True s(1) _ full o'(1) refl n'(1) this] s(2) obtain h' where
        "help_rehashing_loop ?h (nwork + 1) = Some h'" "hm_ok h'" "hm_nodes h' = hm_nodes ?h"
        "htab_mask (newer h') = htab_mask (newer ?h)"
        "htab_size (older h') = htab_size (older ?h) - (k_rehashing_work - (nwork + 1))"
        "htab_tab (newer h') = None \<longleftrightarrow> htab_tab (newer ?h) = None"
        "htab_tab (older h') = None \<longleftrightarrow> htab_tab (older ?h) = None"
        by auto
      then show ?thesis
        using True s full o' n' by (auto simp: unfold_loop hm_nodes_def)
    qed
  qed
qed

lemma hm_help_rehashing_ok:
  assumes "hm_ok h"
  shows "\<exists>h'. hm_help_rehashing h = Some h' \<and> hm_ok h' \<and> hm_nodes h' = hm_nodes h
           \<and> htab_mask (newer h') = htab_mask (newer h)
           \<and> htab_size (older h') = htab_size (older h) - k_rehashing_work
           \<and> (htab_tab (newer h') = None \<longleftrightarrow> htab_tab (newer h) = None)
           \<and> (htab_tab (older h') \<noteq> None \<longrightarrow> htab_size (older h') > 0)"
proof -
  obtain h1 where h1: "help_rehashing_loop h 0 = Some h1" "hm_ok h1" "hm_nodes h1 = hm_nodes h"
    "htab_mask (newer h1) = htab_mask (newer h)"
    "htab_size (older h1) = htab_size (older h) - k_rehashing_work"
    "htab_tab (newer h1) = None \<longleftrightarrow> htab_tab (newer h) = None"
    using help_rehashing_loop_ok [OF assms, of 0] by auto
  show ?thesis
  proof (cases "htab_size (older h1) = 0 \<and> htab_tab (older h1) \<noteq> None")
    case True
    then have "tab_nodes (older h1) = {#}"
      using h1(2) htab_ok_size [of "older h1"] by (simp add: hm_ok_def)
    moreover have "hm_ok (h1\<lparr>older := empty_htab\<rparr>)"
      using h1(2) by (simp add: hm_ok_def) (simp add: empty_htab_def)
    moreover have "hm_help_rehashing h = Some (h1\<lparr>older := empty_htab\<rparr>)"
      using True h1(1) by (simp add: hm_help_rehashing_def del: not_None_eq)
    ultimately show ?thesis
      using True h1 by (simp add: hm_nodes_def) (simp add: empty_htab_def)
  next
    case False
    then have "hm_help_rehashing h = Some h1"
      using h1(1) by (auto simp: hm_help_rehashing_def)
    then show ?thesis
      using False h1 by auto
  qed
qed

lemma hm_trigger_rehashing_ok:
  assumes "hm_ok h" "htab_tab (older h) = None" "htab_tab (newer h) \<noteq> None"
  shows "\<exists>h'. hm_trigger_rehashing h = Some h' \<and> hm_ok h' \<and> hm_nodes h' = hm_nodes h
           \<and> older h' = newer h \<and> htab_mask (newer h') + 1 = 2 * (htab_mask (newer h) + 1)"
proof -
  obtain k where k: "htab_mask (newer h) + 1 = 2 ^ k" "k \<ge> 2"
    using assms by (auto simp: hm_ok_def htab_ok_def slots_ok_def split: option.splits)
  then have "(htab_mask (newer h) + 1) * 2 = 2 ^ Suc k" "Suc k \<ge> 2"
    by simp_all
  from h_init_ok [OF this] obtain t :: "'a htab" where t: "h_init ((htab_mask (newer h) + 1) * 2) = Some t"
    "htab_ok t" "tab_nodes t = {#}" "htab_tab t \<noteq> None" "htab_mask t = (htab_mask (newer h) + 1) * 2 - 1"
    by blast
  then show ?thesis
    using assms by (auto simp: hm_trigger_rehashing_def hm_ok_def hm_nodes_def tab_nodes_def Let_def)
qed

section \<open>The operations keep the nodes\<close>

lemma hm_nodes_upd [simp]:
  "hm_nodes (h\<lparr>newer := t\<rparr>) = tab_nodes t + tab_nodes (older h)"
  "hm_nodes (h\<lparr>older := t\<rparr>) = tab_nodes (newer h) + tab_nodes t"
  by (simp_all add: hm_nodes_def)

definition matches :: "u64 \<Rightarrow> ('a \<Rightarrow> bool) \<Rightarrow> 'a hnode \<Rightarrow> bool" where
  "matches hc eq n \<longleftrightarrow> hcode n = hc \<and> eq (hobj n)"

lemma hm_lookup_ok:
  assumes "hm_ok h"
  shows "\<exists>h' r. hm_lookup h hc eq = Some (h', r) \<and> hm_ok h' \<and> hm_nodes h' = hm_nodes h \<and>
    (case r of
       None \<Rightarrow> \<forall>n \<in># hm_nodes h. \<not> matches hc eq n
     | Some n \<Rightarrow> n \<in># hm_nodes h \<and> matches hc eq n)"
proof -
  obtain g where g: "hm_help_rehashing h = Some g" "hm_ok g" "hm_nodes g = hm_nodes h"
    using hm_help_rehashing_ok [OF assms] by auto
  have ok: "htab_ok (newer g)" "htab_ok (older g)"
    using g(2) by (simp_all add: hm_ok_def)
  obtain r1 where r1: "h_lookup (newer g) hc eq = Some r1"
    "case r1 of None \<Rightarrow> \<forall>n \<in># tab_nodes (newer g). \<not> (hcode n = hc \<and> eq (hobj n))
     | Some f \<Rightarrow> \<exists>n. h_node (newer g) f = Some n \<and> n \<in># tab_nodes (newer g) \<and> hcode n = hc \<and> eq (hobj n)"
    using h_lookup_ok [OF ok(1)] by blast
  obtain r2 where r2: "h_lookup (older g) hc eq = Some r2"
    "case r2 of None \<Rightarrow> \<forall>n \<in># tab_nodes (older g). \<not> (hcode n = hc \<and> eq (hobj n))
     | Some f \<Rightarrow> \<exists>n. h_node (older g) f = Some n \<and> n \<in># tab_nodes (older g) \<and> hcode n = hc \<and> eq (hobj n)"
    using h_lookup_ok [OF ok(2)] by blast
  have mem: "n \<in># hm_nodes h \<longleftrightarrow> n \<in># tab_nodes (newer g) \<or> n \<in># tab_nodes (older g)" for n
    using g(3) [symmetric] by (simp add: hm_nodes_def)
  show ?thesis
  proof (cases r1)
    case (Some f)
    with r1 g show ?thesis
      by (auto simp: hm_lookup_def mem matches_def)
  next
    case None
    show ?thesis
    proof (cases r2)
      case (Some f)
      with None r1 r2 g show ?thesis
        by (auto simp: hm_lookup_def mem matches_def)
    next
      assume "r2 = None"
      with None r1 r2 g show ?thesis
        by (auto simp: hm_lookup_def mem matches_def)
    qed
  qed
qed

lemma hm_delete_ok:
  assumes "hm_ok h"
  shows "\<exists>h' r. hm_delete h hc eq = Some (h', r) \<and> hm_ok h' \<and>
    (case r of
       None \<Rightarrow> hm_nodes h' = hm_nodes h \<and> (\<forall>n \<in># hm_nodes h. \<not> matches hc eq n)
     | Some n \<Rightarrow> hm_nodes h = add_mset n (hm_nodes h') \<and> matches hc eq n)"
proof -
  obtain g where g: "hm_help_rehashing h = Some g" "hm_ok g" "hm_nodes g = hm_nodes h"
    using hm_help_rehashing_ok [OF assms] by auto
  have ok: "htab_ok (newer g)" "htab_ok (older g)"
    using g(2) by (simp_all add: hm_ok_def)
  obtain r1 where r1: "h_lookup (newer g) hc eq = Some r1"
    "case r1 of None \<Rightarrow> \<forall>n \<in># tab_nodes (newer g). \<not> (hcode n = hc \<and> eq (hobj n))
     | Some f \<Rightarrow> \<exists>n. h_node (newer g) f = Some n \<and> n \<in># tab_nodes (newer g) \<and> hcode n = hc \<and> eq (hobj n)"
    using h_lookup_ok [OF ok(1)] by blast
  obtain r2 where r2: "h_lookup (older g) hc eq = Some r2"
    "case r2 of None \<Rightarrow> \<forall>n \<in># tab_nodes (older g). \<not> (hcode n = hc \<and> eq (hobj n))
     | Some f \<Rightarrow> \<exists>n. h_node (older g) f = Some n \<and> n \<in># tab_nodes (older g) \<and> hcode n = hc \<and> eq (hobj n)"
    using h_lookup_ok [OF ok(2)] by blast
  have ns: "hm_nodes h = tab_nodes (newer g) + tab_nodes (older g)"
    using g(3) by (simp add: hm_nodes_def)
  show ?thesis
  proof (cases r1)
    case (Some f)
    then obtain n where n: "h_node (newer g) f = Some n" "hcode n = hc" "eq (hobj n)"
      using r1 by auto
    from h_detach_ok [OF ok(1) n(1)] obtain t' where
      t': "h_detach (newer g) f = Some (t', n)" "htab_ok t'" "htab_tab t' \<noteq> None"
      "tab_nodes (newer g) = add_mset n (tab_nodes t')" by blast
    have "hm_ok (g\<lparr>newer := t'\<rparr>)"
      using g(2) t' by (auto simp: hm_ok_def)
    then show ?thesis
      using Some r1 g t' n by (auto simp: hm_delete_def ns matches_def)
  next
    case None
    show ?thesis
    proof (cases r2)
      case (Some f)
      then obtain n where n: "h_node (older g) f = Some n" "hcode n = hc" "eq (hobj n)"
        using r2 by auto
      from h_detach_ok [OF ok(2) n(1)] obtain t' where
        t': "h_detach (older g) f = Some (t', n)" "htab_ok t'" "htab_tab t' \<noteq> None"
        "tab_nodes (older g) = add_mset n (tab_nodes t')" "\<forall>p. drained p (older g) \<longrightarrow> drained p t'"
        by blast
      have "htab_tab (older g) \<noteq> None"
        using n(1) by (cases "htab_tab (older g)") (auto simp: h_node_def)
      then have "hm_ok (g\<lparr>older := t'\<rparr>)"
        using g(2) t' by (auto simp: hm_ok_def)
      then show ?thesis
        using None Some r1 r2 g t' n by (auto simp: hm_delete_def ns matches_def)
    next
      assume "r2 = None"
      with None r1 r2 g show ?thesis
        by (auto simp: hm_delete_def ns matches_def)
    qed
  qed
qed

lemma hm_insert_ok:
  assumes "hm_ok h"
  shows "\<exists>h'. hm_insert h n = Some h' \<and> hm_ok h' \<and> hm_nodes h' = add_mset n (hm_nodes h)"
proof -
  obtain h1 where h1: "(if htab_tab (newer h) = None then do { t \<leftarrow> h_init 4; Some (h\<lparr>newer := t\<rparr>) } else Some h) = Some h1"
    "hm_ok h1" "hm_nodes h1 = hm_nodes h" "htab_tab (newer h1) \<noteq> None"
  proof (cases "htab_tab (newer h) = None")
    case True
    obtain t :: "'a htab" where t: "h_init 4 = Some t" "htab_ok t" "tab_nodes t = {#}" "htab_tab t \<noteq> None"
      using h_init_ok [of 4 2] by auto
    then show ?thesis
      using True assms that [of "h\<lparr>newer := t\<rparr>"] by (auto simp: hm_ok_def hm_nodes_def tab_nodes_def)
  qed (use assms that in auto)
  obtain t where t: "h_insert (newer h1) n = Some t" "htab_ok t" "htab_tab t \<noteq> None"
    "tab_nodes t = add_mset n (tab_nodes (newer h1))"
    using h_insert_ok [of "newer h1" n] h1(2,4) by (auto simp: hm_ok_def)
  let ?h2 = "h1\<lparr>newer := t\<rparr>"
  have h2: "hm_ok ?h2" "hm_nodes ?h2 = add_mset n (hm_nodes h)"
    using h1 t by (auto simp: hm_ok_def hm_nodes_def)
  obtain h3 where h3: "(if htab_tab (older ?h2) = None
           then let threshold = (htab_mask (newer ?h2) + 1) * k_max_load_factor in
                if htab_size (newer ?h2) \<ge> threshold then hm_trigger_rehashing ?h2 else Some ?h2
           else Some ?h2) = Some h3" "hm_ok h3" "hm_nodes h3 = hm_nodes ?h2"
    using hm_trigger_rehashing_ok [OF h2(1)] t(3) h2(1) that
    by (cases "htab_tab (older ?h2) = None";
        cases "(htab_mask (newer ?h2) + 1) * k_max_load_factor \<le> htab_size (newer ?h2)")
      (auto simp: Let_def simp del: not_None_eq)
  obtain h4 where "hm_help_rehashing h3 = Some h4" "hm_ok h4" "hm_nodes h4 = hm_nodes h3"
    using hm_help_rehashing_ok [OF h3(2)] by auto
  then show ?thesis
    using h1(1) t(1) h3 h2(2) by (simp add: hm_insert_def Let_def)
qed

lemma hm_size_ok: "hm_ok h \<Longrightarrow> hm_size h = size (hm_nodes h)"
  by (simp add: hm_size_def hm_nodes_def hm_ok_def htab_ok_size)

section \<open>Iteration\<close>

definition tab_list :: "'a htab \<Rightarrow> 'a hnode list" where
  "tab_list t = (case htab_tab t of None \<Rightarrow> [] | Some slots \<Rightarrow> concat slots)"

definition hm_list :: "'a hmap \<Rightarrow> 'a hnode list" where
  "hm_list h = tab_list (newer h) @ tab_list (older h)"

lemma mset_hm_list: "mset (hm_list h) = hm_nodes h"
  by (simp add: hm_list_def hm_nodes_def tab_list_def tab_nodes_def split: option.splits)

abbreviation visit :: "('a \<Rightarrow> 's \<Rightarrow> bool \<times> 's) \<Rightarrow> 'a hnode \<Rightarrow> 's \<Rightarrow> 's" where
  "visit f n s \<equiv> snd (f (hobj n) s)"

lemma chain_foreach_all:
  "(\<And>x s. fst (f x s)) \<Longrightarrow> chain_foreach f ns s = (True, fold (visit f) ns s)"
  by (induction ns arbitrary: s) (auto split: prod.splits, metis fst_conv)

lemma h_foreach_all:
  assumes go: "\<And>x s. fst (f x s)" and ok: "htab_ok t"
  shows "h_foreach t f s = Some (True, fold (visit f) (tab_list t) s)"
proof (cases "htab_tab t")
  case None
  then show ?thesis
    using ok by (simp add: h_foreach_def h_foreach_from.simps [of 0] htab_ok_def tab_list_def)
next
  case (Some slots)
  then obtain k where len: "length slots = htab_mask t + 1" "htab_mask t + 1 = 2 ^ k" "k \<ge> 2"
    using ok by (auto simp: htab_ok_def slots_ok_def)
  then have "(2 :: nat) ^ 2 \<le> htab_mask t + 1"
    by (metis power_increasing one_le_numeral)
  then have nz: "htab_mask t \<noteq> 0"
    by simp
  have "h_foreach_from i t f s = Some (True, fold (visit f) (concat (drop i slots)) s)" for i s
  proof (induction "Suc (htab_mask t) - i" arbitrary: i s)
    case 0
    then show ?case
      using len(1) by (simp add: h_foreach_from.simps [of i])
  next
    case (Suc d)
    then have i: "i < length slots" "i \<le> htab_mask t"
      using len(1) by simp_all
    have "concat (drop i slots) = slots ! i @ concat (drop (Suc i) slots)"
      using i(1) by (simp add: Cons_nth_drop_Suc [symmetric])
    moreover have "d = Suc (htab_mask t) - (i + 1)"
      using Suc(2) by simp
    ultimately show ?case
      using i nz Some Suc(1) [of "i + 1"]
      by (simp add: h_foreach_from.simps [of i] chain_foreach_all [OF go])
  qed
  from this [of 0 s] show ?thesis
    using Some by (simp add: h_foreach_def tab_list_def)
qed

lemma hm_foreach_all:
  assumes "\<And>x s. fst (f x s)" and "hm_ok h"
  shows "hm_foreach h f s = Some (fold (visit f) (hm_list h) s)"
  using assms h_foreach_all [of f] by (simp add: hm_foreach_def hm_ok_def hm_list_def)

section \<open>The load factor\<close>

text \<open>
  Migration moves 128 nodes for each one inserted, so it is over long before the newer table
  is full; the average chain stays shorter than \<open>k_max_load_factor\<close>. What is left to
  migrate is counted in the insertions it still takes.
\<close>

definition pending :: "'a hmap \<Rightarrow> nat" where
  "pending h = (htab_size (older h) + 127) div 128 + of_bool (htab_tab (older h) \<noteq> None)"

definition load_ok :: "'a hmap \<Rightarrow> bool" where
  "load_ok h \<longleftrightarrow> (htab_tab (newer h) = None \<and> hm_size h = 0) \<or>
     (htab_tab (newer h) \<noteq> None \<and> hm_size h + pending h < (htab_mask (newer h) + 1) * k_max_load_factor)"

abbreviation weight :: "'a hmap \<Rightarrow> nat" where
  "weight h \<equiv> hm_size h + pending h"

lemma load_okI:
  "htab_tab (newer h) \<noteq> None \<Longrightarrow> weight h < (htab_mask (newer h) + 1) * k_max_load_factor \<Longrightarrow> load_ok h"
  by (simp add: load_ok_def)

lemma older_None_size: "hm_ok h \<Longrightarrow> htab_tab (older h) = None \<Longrightarrow> htab_size (older h) = 0"
  by (simp add: hm_ok_def htab_ok_def)

lemma hm_help_rehashing_weight:
  assumes "hm_ok h" "hm_help_rehashing h = Some h'"
  shows "weight h' \<le> weight h" "htab_tab (older h) \<noteq> None \<Longrightarrow> weight h' < weight h"
    and "htab_mask (newer h') = htab_mask (newer h)" "hm_size h' = hm_size h"
    and "htab_tab (newer h') = None \<longleftrightarrow> htab_tab (newer h) = None"
proof -
  have h': "hm_ok h'" "hm_nodes h' = hm_nodes h" "htab_mask (newer h') = htab_mask (newer h)"
    "htab_size (older h') = htab_size (older h) - k_rehashing_work"
    "htab_tab (newer h') = None \<longleftrightarrow> htab_tab (newer h) = None"
    "htab_tab (older h') \<noteq> None \<Longrightarrow> htab_size (older h') > 0"
    using hm_help_rehashing_ok [OF assms(1)] assms(2) by auto
  show sz: "hm_size h' = hm_size h"
    using h'(1,2) assms(1) by (simp add: hm_size_ok)
  have "pending h' = (htab_size (older h) - 128 + 127) div 128 + of_bool (htab_size (older h) > 128)"
    using h'(4,6) older_None_size [OF h'(1)]
    by (cases "htab_tab (older h')") (auto simp: pending_def k_rehashing_work_def)
  then have p: "pending h' \<le> pending h" "htab_tab (older h) \<noteq> None \<longrightarrow> pending h' < pending h"
    using older_None_size [OF assms(1)]
    by (cases "htab_tab (older h)"; cases "htab_size (older h) > 128"; simp add: pending_def)+
  then show "weight h' \<le> weight h" "htab_tab (older h) \<noteq> None \<Longrightarrow> weight h' < weight h"
    using sz by simp_all
  show "htab_mask (newer h') = htab_mask (newer h)" "htab_tab (newer h') = None \<longleftrightarrow> htab_tab (newer h) = None"
    using h'(3,5) by auto
qed

lemma load_ok_insert_aux:
  assumes "hm_ok h" "htab_tab (newer h) \<noteq> None"
    and "weight h \<le> (htab_mask (newer h) + 1) * k_max_load_factor"
    and "htab_mask (newer h) + 1 \<ge> 4"
    and "(if htab_tab (older h) = None
          then let threshold = (htab_mask (newer h) + 1) * k_max_load_factor in
               if htab_size (newer h) \<ge> threshold then hm_trigger_rehashing h else Some h
          else Some h) = Some h1"
    and "hm_help_rehashing h1 = Some h2"
  shows "load_ok h2"
proof (cases "htab_tab (older h) = None")
  case False
  then have "h1 = h"
    using assms(5) by auto
  then have "weight h2 < weight h" "htab_mask (newer h2) = htab_mask (newer h)" "htab_tab (newer h2) \<noteq> None"
    using hm_help_rehashing_weight [OF assms(1)] assms(2,6) False by auto
  then show ?thesis
    using assms(3) by (intro load_okI) auto
next
  case True
  then have p: "hm_size h = htab_size (newer h)" "pending h = 0"
    using older_None_size [OF assms(1)] by (auto simp: pending_def hm_size_def)
  let ?T = "(htab_mask (newer h) + 1) * k_max_load_factor"
  show ?thesis
  proof (cases "htab_size (newer h) \<ge> ?T")
    case False
    then have "h1 = h"
      using assms(5) True by (simp add: Let_def)
    then have "weight h2 \<le> weight h" "htab_mask (newer h2) = htab_mask (newer h)" "htab_tab (newer h2) \<noteq> None"
      using hm_help_rehashing_weight [OF assms(1)] assms(2,6) by auto
    then show ?thesis
      using False p by (intro load_okI) auto
  next
    case full: True
    then obtain "hm_ok h1" and h1: "older h1 = newer h" "hm_nodes h1 = hm_nodes h"
      "htab_mask (newer h1) + 1 = 2 * (htab_mask (newer h) + 1)"
      using hm_trigger_rehashing_ok [OF assms(1) True assms(2)] True assms(5) by (auto simp: Let_def)
    have n1: "htab_tab (newer h1) \<noteq> None"
      using \<open>hm_ok h1\<close> h1(1) assms(2) by (auto simp: hm_ok_def)
    have "hm_size h1 = ?T" "htab_size (older h1) = ?T"
      using full p assms(1,3) h1(1,2) \<open>hm_ok h1\<close> by (simp_all add: hm_size_ok)
    then have "weight h1 < (htab_mask (newer h1) + 1) * k_max_load_factor"
      using assms(4) h1(1,3) unfolding pending_def k_max_load_factor_def by auto
    then show ?thesis
      using hm_help_rehashing_weight [OF \<open>hm_ok h1\<close> assms(6)] n1 by (intro load_okI) auto
  qed
qed

lemma hm_insert_load_ok:
  assumes "hm_ok h" "load_ok h" "hm_insert h n = Some h'"
  shows "load_ok h'"
proof -
  obtain h1 t h3 where steps:
    "(if htab_tab (newer h) = None then do { t \<leftarrow> h_init 4; Some (h\<lparr>newer := t\<rparr>) } else Some h) = Some h1"
    "h_insert (newer h1) n = Some t"
    "(if htab_tab (older (h1\<lparr>newer := t\<rparr>)) = None
      then let threshold = (htab_mask (newer (h1\<lparr>newer := t\<rparr>)) + 1) * k_max_load_factor in
           if htab_size (newer (h1\<lparr>newer := t\<rparr>)) \<ge> threshold then hm_trigger_rehashing (h1\<lparr>newer := t\<rparr>)
           else Some (h1\<lparr>newer := t\<rparr>)
      else Some (h1\<lparr>newer := t\<rparr>)) = Some h3"
    "hm_help_rehashing h3 = Some h'"
    using assms(3) unfolding hm_insert_def Let_def by (auto split: bind_splits)
  have h1: "hm_ok h1 \<and> htab_tab (newer h1) \<noteq> None \<and> weight h1 < (htab_mask (newer h1) + 1) * k_max_load_factor"
  proof (cases "htab_tab (newer h) = None")
    case True
    obtain t0 :: "'a htab" where t0: "h_init 4 = Some t0" "htab_ok t0" "tab_nodes t0 = {#}"
      "htab_tab t0 \<noteq> None" "htab_mask t0 = 3"
      using h_init_ok [of 4 2] by auto
    have h1: "h1 = h\<lparr>newer := t0\<rparr>"
      using steps(1) True t0(1) by simp
    have o: "htab_tab (older h) = None" "htab_size (older h) = 0"
      using assms(1) True older_None_size by (auto simp: hm_ok_def)
    have "htab_size t0 = 0"
      using htab_ok_size [OF t0(2)] t0(3) by simp
    then show ?thesis
      using assms(1) t0 o
      by (auto simp: h1 hm_ok_def pending_def hm_size_def k_max_load_factor_def simp del: not_None_eq)
  next
    case False
    then have "h1 = h"
      using steps(1) by (simp del: not_None_eq)
    then show ?thesis
      using assms False by (simp add: load_ok_def del: not_None_eq)
  qed
  note h1 = conjunct1 [OF h1] conjunct1 [OF conjunct2 [OF h1]] conjunct2 [OF conjunct2 [OF h1]]
  have t': "htab_ok t" "htab_tab t \<noteq> None" "htab_mask t = htab_mask (newer h1)"
    "tab_nodes t = add_mset n (tab_nodes (newer h1))"
    using h_insert_ok [of "newer h1" n] h1(1,2) steps(2) by (auto simp: hm_ok_def)
  let ?h = "h1\<lparr>newer := t\<rparr>"
  have ok: "hm_ok ?h"
    using h1 t' by (auto simp: hm_ok_def)
  have "weight ?h = Suc (weight h1)"
    using t'(1,4) h1(1) htab_ok_size [OF t'(1)] htab_ok_size [of "newer h1"]
    by (simp add: hm_size_def pending_def hm_ok_def)
  moreover have "4 \<le> htab_mask t + 1"
  proof -
    obtain k where k: "htab_mask t + 1 = 2 ^ k" "k \<ge> 2"
      using t'(1,2) by (auto simp: htab_ok_def slots_ok_def split: option.splits)
    then have "(2 :: nat) ^ 2 \<le> 2 ^ k"
      by (intro power_increasing) auto
    then show ?thesis
      using k by simp
  qed
  ultimately show ?thesis
    using h1(3) t' by (intro load_ok_insert_aux [OF ok _ _ _ steps(3,4)]) auto
qed

section \<open>The hashtable as an index\<close>

interpretation hm: hash_index hm_ok hm_nodes hcode hobj hm_lookup hm_insert hm_delete
proof unfold_locales
  show "\<exists>s' r. hm_lookup s c eq = Some (s', r) \<and> hm_ok s' \<and> hm_nodes s' = hm_nodes s \<and>
      (case r of None \<Rightarrow> \<forall>n \<in># hm_nodes s. \<not> (hcode n = c \<and> eq (hobj n))
       | Some n \<Rightarrow> n \<in># hm_nodes s \<and> hcode n = c \<and> eq (hobj n))" if "hm_ok s" for s :: "'a hmap" and c eq
    using hm_lookup_ok [OF that, of c eq] unfolding matches_def .
  show "\<exists>s'. hm_insert s n = Some s' \<and> hm_ok s' \<and> hm_nodes s' = add_mset n (hm_nodes s)"
    if "hm_ok s" for s :: "'a hmap" and n
    by (rule hm_insert_ok [OF that])
  show "\<exists>s' r. hm_delete s c eq = Some (s', r) \<and> hm_ok s' \<and>
      (case r of None \<Rightarrow> hm_nodes s' = hm_nodes s \<and> (\<forall>n \<in># hm_nodes s. \<not> (hcode n = c \<and> eq (hobj n)))
       | Some n \<Rightarrow> hm_nodes s = add_mset n (hm_nodes s') \<and> hcode n = c \<and> eq (hobj n))"
    if "hm_ok s" for s :: "'a hmap" and c eq
    using hm_delete_ok [OF that, of c eq] unfolding matches_def .
qed

section \<open>The keys of a table\<close>

lemma hm_list_set: "set (hm_list h) = set_mset (hm_nodes h)"
  by (metis mset_hm_list set_mset_mset)

lemma distinct_map_mset:
  "(\<And>k. size (filter_mset (\<lambda>n. g n = k) (mset ns)) \<le> 1) \<Longrightarrow> distinct (map g ns)"
proof (induction ns)
  case (Cons n ns)
  have "size (filter_mset (\<lambda>x. g x = k) (mset ns)) \<le> size (filter_mset (\<lambda>x. g x = k) (mset (n # ns)))" for k
    by simp
  then have "distinct (map g ns)"
    using Cons.prems by (intro Cons.IH) (meson le_trans)
  moreover have "filter_mset (\<lambda>x. g x = g n) (mset ns) = {#}"
    using Cons.prems [of "g n"] by simp
  then have "g n \<notin> g ` set ns"
    by (auto simp: filter_mset_none)
  ultimately show ?case
    by simp
qed simp

lemma keyed_distinct: "keyed hcode hobj key (hm_nodes h) \<Longrightarrow> distinct (map (\<lambda>n. key (hobj n)) (hm_list h))"
  by (intro distinct_map_mset) (simp add: keyed_def mset_hm_list)

lemma keyed_size:
  assumes "hm_ok h" "keyed hcode hobj key (hm_nodes h)"
  shows "hm_size h = card ((\<lambda>n. key (hobj n)) ` set_mset (hm_nodes h))"
proof -
  have "card (set (map (\<lambda>n. key (hobj n)) (hm_list h))) = length (hm_list h)"
    using distinct_card [OF keyed_distinct [OF assms(2)]] by simp
  then show ?thesis
    using hm_size_ok [OF assms(1)] by (simp add: hm_list_set) (metis mset_hm_list size_mset)
qed

end
