(* ===== verification/TableProps.thy ===== *)
theory TableProps
  imports Hashtable
begin

text \<open>
  Histories of the hashtable of hashtable.cpp: whatever the order of insertions, lookups and
  deletions, and whatever the state of the rehashing, the table answers as a map does, and
  its chains stay short.
\<close>

section \<open>The load factor over a history\<close>

lemma load_ok_help:
  assumes "hm_ok h" "load_ok h" "hm_help_rehashing h = Some h'"
  shows "load_ok h'"
  using hm_help_rehashing_weight [OF assms(1,3)] assms(2) by (auto simp: load_ok_def simp del: not_None_eq)

lemma hm_lookup_load_ok:
  assumes "hm_ok h" "load_ok h" "hm_lookup h hc eq = Some (h', r)"
  shows "load_ok h'"
proof -
  have "hm_help_rehashing h = Some h'"
    using assms(3) by (auto simp: hm_lookup_def split: bind_splits option.splits)
  then show ?thesis
    by (rule load_ok_help [OF assms(1,2)])
qed

lemma load_ok_detach:
  assumes "hm_ok g" "load_ok g"
  shows "h_detach (newer g) f = Some (t, node) \<Longrightarrow> load_ok (g\<lparr>newer := t\<rparr>)"
    and "h_detach (older g) f = Some (t, node) \<Longrightarrow> load_ok (g\<lparr>older := t\<rparr>)"
proof -
  have ok: "htab_ok (newer g)" "htab_ok (older g)"
    using assms(1) by (simp_all add: hm_ok_def)
  have nd: "h_node t f = Some node" if "h_detach t f = Some (t', node)" for t t' :: "'a htab"
    using that by (auto simp: h_detach_def Let_def split: bind_splits prod.splits)
  {
    assume d: "h_detach (newer g) f = Some (t, node)"
    then show "load_ok (g\<lparr>newer := t\<rparr>)"
      using h_detach_ok [OF ok(1) nd [OF d]] assms(2)
      by (auto simp: load_ok_def pending_def hm_size_def h_detach_def simp del: not_None_eq split: bind_splits)
  next
    assume d: "h_detach (older g) f = Some (t, node)"
    then have "htab_tab t \<noteq> None" "htab_size (older g) = Suc (htab_size t)" "htab_tab (older g) \<noteq> None"
      using h_detach_ok [OF ok(2) nd [OF d]] by (auto simp: h_detach_def split: bind_splits)
    moreover from this have "(htab_size t + 127) div 128 \<le> (htab_size (older g) + 127) div 128"
      by (intro div_le_mono) simp
    ultimately show "load_ok (g\<lparr>older := t\<rparr>)"
      using assms(2) by (auto simp: load_ok_def pending_def hm_size_def simp del: not_None_eq)
  }
qed

lemma hm_delete_load_ok:
  assumes "hm_ok h" "load_ok h" "hm_delete h hc eq = Some (h', r)"
  shows "load_ok h'"
proof -
  obtain g where g: "hm_help_rehashing h = Some g"
    using assms(3) by (auto simp: hm_delete_def split: bind_splits)
  have "hm_ok g"
    using hm_help_rehashing_ok [OF assms(1)] g by auto
  note d = load_ok_detach [OF this load_ok_help [OF assms(1,2) g]]
  show ?thesis
    using assms(3) g d load_ok_help [OF assms(1,2) g] by (auto simp: hm_delete_def split: bind_splits option.splits)
qed

section \<open>Histories\<close>

text \<open>The operations as the commands use them: a put looks the key up first.\<close>

datatype 'a hop = HFind bytes | HPut 'a | HDel bytes

fun table_step :: "('a \<Rightarrow> bytes) \<Rightarrow> 'a hop \<Rightarrow> 'a hmap \<Rightarrow> ('a hmap \<times> 'a option) option" where
  "table_step key (HFind k) h = do {
     (h, r) \<leftarrow> hm_lookup h (str_hash k) (\<lambda>y. key y = k);
     Some (h, map_option hobj r)
   }"
| "table_step key (HPut x) h = do {
     (h, r) \<leftarrow> hm_lookup h (str_hash (key x)) (\<lambda>y. key y = key x);
     (case r of
        Some n \<Rightarrow> Some (h, Some (hobj n))
      | None \<Rightarrow> do { h \<leftarrow> hm_insert h \<lparr>hcode = str_hash (key x), hobj = x\<rparr>; Some (h, None) })
   }"
| "table_step key (HDel k) h = do {
     (h, r) \<leftarrow> hm_delete h (str_hash k) (\<lambda>y. key y = k);
     Some (h, map_option hobj r)
   }"

fun table_run :: "('a \<Rightarrow> bytes) \<Rightarrow> 'a hop list \<Rightarrow> 'a hmap \<Rightarrow> ('a hmap \<times> 'a option list) option" where
  "table_run key [] h = Some (h, [])"
| "table_run key (op # ops) h = do {
     (h, r) \<leftarrow> table_step key op h;
     (h, rs) \<leftarrow> table_run key ops h;
     Some (h, r # rs)
   }"

text \<open>What a map does.\<close>

fun map_step :: "('a \<Rightarrow> bytes) \<Rightarrow> 'a hop \<Rightarrow> (bytes \<rightharpoonup> 'a) \<Rightarrow> (bytes \<rightharpoonup> 'a) \<times> 'a option" where
  "map_step key (HFind k) f = (f, f k)"
| "map_step key (HPut x) f = ((if f (key x) = None then f(key x \<mapsto> x) else f), f (key x))"
| "map_step key (HDel k) f = (f(k := None), f k)"

fun map_run :: "('a \<Rightarrow> bytes) \<Rightarrow> 'a hop list \<Rightarrow> (bytes \<rightharpoonup> 'a) \<Rightarrow> (bytes \<rightharpoonup> 'a) \<times> 'a option list" where
  "map_run key [] f = (f, [])"
| "map_run key (op # ops) f = (let (f, r) = map_step key op f; (f, rs) = map_run key ops f in (f, r # rs))"

text \<open>The table holds the map \<open>f\<close>.\<close>

definition holds :: "('a \<Rightarrow> bytes) \<Rightarrow> 'a hmap \<Rightarrow> (bytes \<rightharpoonup> 'a) \<Rightarrow> bool" where
  "holds key h f \<longleftrightarrow> hm_ok h \<and> load_ok h \<and> keyed hcode hobj key (hm_nodes h)
     \<and> (\<forall>k x. binds hobj key (hm_nodes h) k x \<longleftrightarrow> f k = Some x)"

lemma holds_empty: "holds key empty_hmap Map.empty"
  by (simp add: holds_def load_ok_def) (simp add: empty_hmap_def empty_htab_def hm_size_def)

lemma opt_eqI: "(\<And>x. (\<exists>n. r = Some n \<and> g n = x) \<longleftrightarrow> y = Some x) \<Longrightarrow> map_option g r = y"
  by (cases r; cases y) auto

lemma table_step_ok:
  assumes "holds key h f"
  shows "\<exists>h'. table_step key op h = Some (h', snd (map_step key op f)) \<and> holds key h' (fst (map_step key op f))"
proof -
  have h: "hm_ok h" "load_ok h" "keyed hcode hobj key (hm_nodes h)" "\<And>k x. binds hobj key (hm_nodes h) k x \<longleftrightarrow> f k = Some x"
    using assms by (simp_all add: holds_def)
  have find: "\<exists>h' r. hm_lookup h (str_hash k) (\<lambda>y. key y = k) = Some (h', r) \<and> holds key h' f \<and> map_option hobj r = f k" for k
  proof -
    obtain h' r where l: "hm_lookup h (str_hash k) (\<lambda>y. key y = k) = Some (h', r)" "hm_ok h'" "hm_nodes h' = hm_nodes h"
      "\<forall>x. (\<exists>n. r = Some n \<and> hobj n = x) \<longleftrightarrow> binds hobj key (hm_nodes h) k x"
      using hm.find_key [OF h(1,3), of k] by (elim exE conjE) (rule that; assumption)
    have "map_option hobj r = f k"
      by (rule opt_eqI) (use l(4) h(4) in simp)
    then show ?thesis
      using l(1-3) h hm_lookup_load_ok [OF h(1,2) l(1)] by (simp add: holds_def)
  qed
  show ?thesis
  proof (cases op)
    case (HFind k)
    then show ?thesis
      using find [of k] by auto
  next
    case (HPut x)
    obtain h1 r where l: "hm_lookup h (str_hash (key x)) (\<lambda>y. key y = key x) = Some (h1, r)" "holds key h1 f"
      "map_option hobj r = f (key x)"
      using find [of "key x"] by blast
    show ?thesis
    proof (cases r)
      case (Some n)
      then show ?thesis
        using l HPut by auto
    next
      case None
      have h1: "hm_ok h1" "load_ok h1" "keyed hcode hobj key (hm_nodes h1)" "\<And>k x. binds hobj key (hm_nodes h1) k x \<longleftrightarrow> f k = Some x"
        using l(2) by (simp_all add: holds_def)
      let ?n = "\<lparr>hcode = str_hash (key x), hobj = x\<rparr>"
      have free: "\<not> binds hobj key (hm_nodes h1) (key (hobj ?n)) y" for y
        using h1(4) l(3) None by simp
      have hc: "hcode ?n = str_hash (key (hobj ?n))"
        by simp
      obtain h2 where i: "hm_insert h1 ?n = Some h2" "hm_ok h2" "keyed hcode hobj key (hm_nodes h2)"
        "\<forall>k y. binds hobj key (hm_nodes h2) k y \<longleftrightarrow> (if k = key (hobj ?n) then y = hobj ?n else binds hobj key (hm_nodes h1) k y)"
        using hm.ins_key [OF h1(1,3) hc free] by (elim exE conjE) (rule that; assumption)
      have "holds key h2 (f(key x \<mapsto> x))"
        using i h1(4) hm_insert_load_ok [OF h1(1,2) i(1)] by (auto simp: holds_def)
      then show ?thesis
        using l(1,3) i(1) None HPut by simp
    qed
  next
    case (HDel k)
    obtain h' r where l: "hm_delete h (str_hash k) (\<lambda>y. key y = k) = Some (h', r)" "hm_ok h'" "keyed hcode hobj key (hm_nodes h')"
      "\<forall>x. (\<exists>n. r = Some n \<and> hobj n = x) \<longleftrightarrow> binds hobj key (hm_nodes h) k x"
      "\<forall>k' x. binds hobj key (hm_nodes h') k' x \<longleftrightarrow> k' \<noteq> k \<and> binds hobj key (hm_nodes h) k' x"
      using hm.del_key [OF h(1,3), of k] by (elim exE conjE) (rule that; assumption)
    have "map_option hobj r = f k"
      by (rule opt_eqI) (use l(4) h(4) in simp)
    then show ?thesis
      using l(1-3,5) h(4) hm_delete_load_ok [OF h(1,2) l(1)] HDel by (auto simp: holds_def)
  qed
qed

lemma table_run_ok:
  "holds key h f \<Longrightarrow> \<exists>h'. table_run key ops h = Some (h', snd (map_run key ops f)) \<and> holds key h' (fst (map_run key ops f))"
proof (induction ops arbitrary: h f)
  case (Cons op ops)
  obtain h1 where h1: "table_step key op h = Some (h1, snd (map_step key op f))" "holds key h1 (fst (map_step key op f))"
    using table_step_ok [OF Cons.prems] by blast
  show ?case
    using Cons.IH [OF h1(2)] h1(1) by (auto simp: split_beta)
qed auto

lemma holds_size:
  assumes "holds key h f"
  shows "hm_size h = card (dom f)"
proof -
  have k: "hm_ok h" "keyed hcode hobj key (hm_nodes h)" and b: "\<And>k x. binds hobj key (hm_nodes h) k x \<longleftrightarrow> f k = Some x"
    using assms by (simp_all add: holds_def)
  have "k \<in> dom f \<longleftrightarrow> k \<in> (\<lambda>n. key (hobj n)) ` set_mset (hm_nodes h)" for k
    using b [of k, symmetric] by (auto simp: binds_def dom_def)
  then have "dom f = (\<lambda>n. key (hobj n)) ` set_mset (hm_nodes h)"
    by blast
  then show ?thesis
    using keyed_size [OF k] by simp
qed

section \<open>Properties\<close>

text \<open>C10: Started empty, any sequence of lookups, insertions of absent keys and deletions runs without a failed assertion
  or an access outside a table, and answers exactly as a map does, through every stage of the progressive
  rehashing; \<open>hm_size\<close> is the number of keys, and there are fewer than \<open>k_max_load_factor\<close> nodes for each slot
  of the newer table.\<close>

theorem table_history_refines_map:
  "\<exists>h. table_run key ops empty_hmap = Some (h, snd (map_run key ops Map.empty)) \<and> hm_size h = card (dom (fst (map_run key ops Map.empty)))
    \<and> hm_size h \<le> (htab_mask (newer h) + 1) * k_max_load_factor
    \<and> (\<exists>r. table_step key (HFind k) h = Some r \<and> snd r = fst (map_run key ops Map.empty) k)"
proof -
  obtain h where h: "table_run key ops empty_hmap = Some (h, snd (map_run key ops Map.empty))" "holds key h (fst (map_run key ops Map.empty))"
    using table_run_ok [OF holds_empty, of key ops] by blast
  have "hm_size h \<le> (htab_mask (newer h) + 1) * k_max_load_factor"
    using h(2) by (auto simp: holds_def load_ok_def)
  moreover obtain h' where "table_step key (HFind k) h = Some (h', fst (map_run key ops Map.empty) k)"
    using table_step_ok [OF h(2), of "HFind k"] by auto
  ultimately show ?thesis
    using h(1) holds_size [OF h(2)] by (metis snd_conv)
qed

text \<open>\<open>hm_foreach\<close> with a callback that never stops visits every node of both tables exactly once, in some order, also
  in the middle of a rehashing.\<close>

lemma foreach_visits_each_once:
  assumes "hm_ok h"
  shows "\<exists>xs. hm_foreach h (\<lambda>x acc. (True, acc @ [x])) [] = Some xs \<and> mset xs = image_mset hobj (hm_nodes h)"
proof -
  have "fold (visit (\<lambda>x acc. (True, acc @ [x]))) ns acc = acc @ map hobj ns" for ns :: "'a hnode list" and acc
    by (induction ns arbitrary: acc) auto
  moreover have "hm_foreach h (\<lambda>x acc. (True, acc @ [x])) [] = Some (fold (visit (\<lambda>x acc. (True, acc @ [x]))) (hm_list h) [])"
    by (rule hm_foreach_all [OF _ assms]) simp
  ultimately show ?thesis
    using mset_hm_list [of h] by (metis append_Nil mset_map)
qed

end
