(* ===== verification/Heap.thy ===== *)
theory Heap
  imports Interfaces
begin

text \<open>
  heap.h, heap.cpp and the heap and TTL functions of server.cpp: an array-encoded binary
  min-heap of expiration times. Each item points back to the \<open>heap_idx\<close> of an entry, and
  every move of an item writes its new position there; these back pointers live in a map from
  entry addresses to positions, where a write to a dead address is \<open>None\<close>.
\<close>

section \<open>The heap of heap.cpp\<close>

record heap_item =
  hi_val :: u64
  hi_ref :: ptr

type_synonym idxmem = "addr \<rightharpoonup> nat"

text \<open>In the source \<open>heap_parent(0)\<close> wraps; both callers test \<open>pos > 0\<close> first.\<close>

definition heap_parent :: "nat \<Rightarrow> nat" where
  "heap_parent i = (i + 1) div 2 - 1"

definition heap_left :: "nat \<Rightarrow> nat" where
  "heap_left i = i * 2 + 1"

definition heap_right :: "nat \<Rightarrow> nat" where
  "heap_right i = i * 2 + 2"

text \<open>The statement \<open>if (a[pos].ref) *a[pos].ref = pos;\<close>.\<close>

definition set_ref :: "heap_item list \<Rightarrow> idxmem \<Rightarrow> nat \<Rightarrow> idxmem option" where
  "set_ref a idx pos =
     (case hi_ref (a ! pos) of
        None \<Rightarrow> Some idx
      | Some r \<Rightarrow> do { guard (idx r \<noteq> None); Some (idx(r \<mapsto> pos)) })"

lemma heap_parent_less [simp]: "0 < i \<Longrightarrow> heap_parent i < i"
  by (simp add: heap_parent_def)

lemma heap_parent_neq [simp]: "0 < i \<Longrightarrow> heap_parent i \<noteq> i" "0 < i \<Longrightarrow> i \<noteq> heap_parent i"
  by (simp_all add: heap_parent_def)

function heap_up_loop :: "heap_item list \<Rightarrow> idxmem \<Rightarrow> nat \<Rightarrow> heap_item \<Rightarrow> (heap_item list \<times> idxmem) option" where
  "heap_up_loop a idx pos t =
     (if pos > 0 \<and> hi_val (a ! heap_parent pos) > hi_val t then do {
        let a = a[pos := a ! heap_parent pos];
        idx \<leftarrow> set_ref a idx pos;
        heap_up_loop a idx (heap_parent pos) t
      } else do {
        let a = a[pos := t];
        idx \<leftarrow> set_ref a idx pos;
        Some (a, idx)
      })"
  by pat_completeness auto
termination
  by (relation "measure (\<lambda>(a, idx, pos, t). pos)") auto

declare heap_up_loop.simps [simp del]

definition heap_up :: "heap_item list \<Rightarrow> idxmem \<Rightarrow> nat \<Rightarrow> (heap_item list \<times> idxmem) option" where
  "heap_up a idx pos = do {
     guard (pos < length a);
     heap_up_loop a idx pos (a ! pos)
   }"

text \<open>The position of the smallest of \<open>t\<close> and the two children: the three tests of \<open>heap_down\<close>.\<close>

definition heap_min_pos :: "heap_item list \<Rightarrow> nat \<Rightarrow> nat \<Rightarrow> heap_item \<Rightarrow> nat" where
  "heap_min_pos a pos len t =
     (let l = heap_left pos; r = heap_right pos;
          (min_pos, min_val) = (pos, hi_val t);
          (min_pos, min_val) = (if l < len \<and> hi_val (a ! l) < min_val then (l, hi_val (a ! l)) else (min_pos, min_val))
      in if r < len \<and> hi_val (a ! r) < min_val then r else min_pos)"

lemma heap_min_pos_bounds: "heap_min_pos a pos len t \<noteq> pos \<Longrightarrow>
    pos < heap_min_pos a pos len t \<and> heap_min_pos a pos len t < len"
  by (auto simp: heap_min_pos_def Let_def heap_left_def heap_right_def split: if_splits)

function heap_down_loop :: "heap_item list \<Rightarrow> idxmem \<Rightarrow> nat \<Rightarrow> nat \<Rightarrow> heap_item \<Rightarrow> (heap_item list \<times> idxmem) option" where
  "heap_down_loop a idx pos len t =
     (let min_pos = heap_min_pos a pos len t in
      if min_pos = pos then do {
        let a = a[pos := t];
        idx \<leftarrow> set_ref a idx pos;
        Some (a, idx)
      } else do {
        let a = a[pos := a ! min_pos];
        idx \<leftarrow> set_ref a idx pos;
        heap_down_loop a idx min_pos len t
      })"
  by pat_completeness auto
termination
proof (relation "measure (\<lambda>(a, idx, pos, len, t). len - pos)", goal_cases)
  case (2 a idx pos len t)
  with heap_min_pos_bounds [of a pos len t] show ?case
    by auto
qed auto

declare heap_down_loop.simps [simp del]

definition heap_down :: "heap_item list \<Rightarrow> idxmem \<Rightarrow> nat \<Rightarrow> nat \<Rightarrow> (heap_item list \<times> idxmem) option" where
  "heap_down a idx pos len = do {
     guard (pos < length a \<and> len \<le> length a);
     heap_down_loop a idx pos len (a ! pos)
   }"

definition heap_update :: "heap_item list \<Rightarrow> idxmem \<Rightarrow> nat \<Rightarrow> nat \<Rightarrow> (heap_item list \<times> idxmem) option" where
  "heap_update a idx pos len = do {
     guard (pos < length a);
     if pos > 0 \<and> hi_val (a ! heap_parent pos) > hi_val (a ! pos)
     then heap_up a idx pos
     else heap_down a idx pos len
   }"

section \<open>The timers of server.cpp\<close>

definition heap_delete :: "heap_item list \<Rightarrow> idxmem \<Rightarrow> nat \<Rightarrow> (heap_item list \<times> idxmem) option" where
  "heap_delete a idx pos = do {
     guard (a \<noteq> [] \<and> pos < length a);
     let a = a[pos := last a];
     let a = butlast a;
     if pos < length a then heap_update a idx pos (length a) else Some (a, idx)
   }"

definition heap_upsert :: "heap_item list \<Rightarrow> idxmem \<Rightarrow> nat \<Rightarrow> heap_item \<Rightarrow> (heap_item list \<times> idxmem) option" where
  "heap_upsert a idx pos t = do {
     let (a, pos) = (if pos < length a then (a[pos := t], pos) else (a @ [t], length a));
     heap_update a idx pos (length a)
   }"

text \<open>\<open>now\<close> is what \<open>get_monotonic_msec\<close> returns; the sum wraps at 64 bits as in the source.\<close>

definition entry_set_ttl :: "u64 \<Rightarrow> addr \<Rightarrow> int \<Rightarrow> heap_item list \<times> idxmem \<Rightarrow> (heap_item list \<times> idxmem) option" where
  "entry_set_ttl now ent ttl_ms h = do {
     let (a, idx) = h;
     heap_idx \<leftarrow> idx ent;
     if ttl_ms < 0 \<and> heap_idx \<noteq> npos then do {
       (a, idx) \<leftarrow> heap_delete a idx heap_idx;
       guard (idx ent \<noteq> None);
       Some (a, idx(ent \<mapsto> npos))
     } else if ttl_ms \<ge> 0 then
       heap_upsert a idx heap_idx \<lparr>hi_val = now + of_int ttl_ms, hi_ref = Some ent\<rparr>
     else Some (a, idx)
   }"

section \<open>Order and back pointers\<close>

definition heap_ord :: "heap_item list \<Rightarrow> bool" where
  "heap_ord a \<longleftrightarrow> (\<forall>i. 0 < i \<and> i < length a \<longrightarrow> hi_val (a ! heap_parent i) \<le> hi_val (a ! i))"

text \<open>A heap whose item at \<open>pos\<close> may have any value.\<close>

definition hole_ord :: "heap_item list \<Rightarrow> nat \<Rightarrow> bool" where
  "hole_ord a pos \<longleftrightarrow>
     (\<forall>i. 0 < i \<and> i < length a \<and> i \<noteq> pos \<longrightarrow>
        (if heap_parent i \<noteq> pos then hi_val (a ! heap_parent i) \<le> hi_val (a ! i)
         else 0 < pos \<longrightarrow> hi_val (a ! heap_parent pos) \<le> hi_val (a ! i)))"

definition refs :: "heap_item list \<Rightarrow> addr set" where
  "refs a = {r. \<exists>x \<in> set a. hi_ref x = Some r}"

text \<open>The back pointers of all items but the one at \<open>pos\<close> are right.\<close>

definition idx_except :: "heap_item list \<Rightarrow> idxmem \<Rightarrow> nat \<Rightarrow> bool" where
  "idx_except a idx pos \<longleftrightarrow>
     (\<forall>i r. i < length a \<and> i \<noteq> pos \<and> hi_ref (a ! i) = Some r \<longrightarrow> idx r = Some i)"

definition idx_ok :: "heap_item list \<Rightarrow> idxmem \<Rightarrow> bool" where
  "idx_ok a idx \<longleftrightarrow> (\<forall>i r. i < length a \<and> hi_ref (a ! i) = Some r \<longrightarrow> idx r = Some i)"

lemma heap_parent_iff: "0 < i \<Longrightarrow> heap_parent i = p \<longleftrightarrow> i = heap_left p \<or> i = heap_right p"
  by (auto simp: heap_parent_def heap_left_def heap_right_def)

lemma heap_children [simp]:
  "heap_parent (heap_left p) = p" "heap_parent (heap_right p) = p"
  "0 < heap_left p" "0 < heap_right p" "p < heap_left p" "p < heap_right p"
  "heap_left p \<noteq> p" "heap_right p \<noteq> p"
  by (simp_all add: heap_parent_def heap_left_def heap_right_def)

section \<open>Moving the hole\<close>

definition hole_idx :: "heap_item list \<Rightarrow> idxmem \<Rightarrow> nat \<Rightarrow> heap_item \<Rightarrow> bool" where
  "hole_idx a idx pos t \<longleftrightarrow> pos < length a \<and> idx_except a idx pos \<and> refs (a[pos := t]) \<subseteq> dom idx
     \<and> (\<forall>i r. i < length a \<and> i \<noteq> pos \<and> hi_ref (a ! i) = Some r \<longrightarrow> hi_ref t \<noteq> Some r)"

lemma refs_mset: "mset a = mset b \<Longrightarrow> refs a = refs b"
  by (simp add: refs_def set_mset_mset [symmetric] del: set_mset_mset)

lemma refsI: "i < length a \<Longrightarrow> hi_ref (a ! i) = Some r \<Longrightarrow> r \<in> refs a"
  by (auto simp: refs_def intro: nth_mem)

lemma mset_move_hole:
  assumes "pos < length a" "q < length a" "q \<noteq> pos"
  shows "mset (a[pos := a ! q, q := t]) = mset (a[pos := t])"
proof -
  have "a[pos := a ! q, q := t] = (a[pos := t])[pos := a[pos := t] ! q, q := a[pos := t] ! pos]"
    using assms by simp
  then show ?thesis
    using assms by (simp only: mset_swap length_list_update)
qed

lemma hole_idx_move:
  assumes h: "hole_idx a idx pos t" and q: "q < length a" "q \<noteq> pos"
  defines "a' \<equiv> a[pos := a ! q]"
  shows "\<exists>idx'. set_ref a' idx pos = Some idx' \<and> hole_idx a' idx' q t \<and> dom idx' = dom idx
    \<and> (\<forall>r. r \<notin> refs (a[pos := t]) \<longrightarrow> idx' r = idx r)"
proof -
  have pos: "pos < length a" and ex: "idx_except a idx pos" and live: "refs (a[pos := t]) \<subseteq> dom idx"
    and new: "\<forall>i r. i < length a \<and> i \<noteq> pos \<and> hi_ref (a ! i) = Some r \<longrightarrow> hi_ref t \<noteq> Some r"
    using h by (simp_all add: hole_idx_def)
  have rs: "refs (a'[q := t]) = refs (a[pos := t])"
    using refs_mset [OF mset_move_hole [OF pos q]] by (simp add: a'_def)
  show ?thesis
  proof (cases "hi_ref (a ! q)")
    case None
    then have "set_ref a' idx pos = Some idx"
      using pos by (simp add: set_ref_def a'_def)
    moreover have "hole_idx a' idx q t"
      using pos ex live new q None unfolding hole_idx_def rs
      by (auto simp: a'_def nth_list_update idx_except_def)
    ultimately show ?thesis
      by auto
  next
    case (Some r)
    then have r: "idx r = Some q" "hi_ref t \<noteq> Some r"
      using ex new q by (auto simp: idx_except_def)
    have "r \<in> refs (a[pos := t])"
      using Some q pos refsI [of q "a[pos := t]" r] by simp
    then have "dom (idx(r \<mapsto> pos)) = dom idx" "\<forall>s. s \<notin> refs (a[pos := t]) \<longrightarrow> (idx(r \<mapsto> pos)) s = idx s"
      using r by auto
    moreover have "set_ref a' idx pos = Some (idx(r \<mapsto> pos))"
      using pos Some r by (simp add: set_ref_def a'_def)
    moreover have "idx_except a' (idx(r \<mapsto> pos)) q"
      unfolding idx_except_def
    proof (intro allI impI)
      fix i s
      assume i: "i < length a' \<and> i \<noteq> q \<and> hi_ref (a' ! i) = Some s"
      show "(idx(r \<mapsto> pos)) s = Some i"
      proof (cases "i = pos")
        case False
        then have "idx s = Some i"
          using i ex by (simp add: a'_def idx_except_def)
        then show ?thesis
          using i r by auto
      qed (use i pos Some in \<open>auto simp: a'_def\<close>)
    qed
    moreover have "hi_ref t \<noteq> Some s" if "i < length a'" "i \<noteq> q" "hi_ref (a' ! i) = Some s" for i s
      using that pos new q by (cases "i = pos") (auto simp: a'_def)
    ultimately show ?thesis
      using live q pos rs by (auto simp: hole_idx_def a'_def simp del: fun_upd_apply)
  qed
qed

lemma hole_idx_fill:
  assumes h: "hole_idx a idx pos t"
  shows "\<exists>idx'. set_ref (a[pos := t]) idx pos = Some idx' \<and> idx_ok (a[pos := t]) idx' \<and> dom idx' = dom idx
    \<and> (\<forall>r. r \<notin> refs (a[pos := t]) \<longrightarrow> idx' r = idx r)"
proof (cases "hi_ref t")
  case None
  then show ?thesis
    using h by (auto simp: set_ref_def hole_idx_def idx_ok_def idx_except_def nth_list_update)
next
  case (Some r)
  then have "r \<in> refs (a[pos := t])"
    using h refsI [of pos "a[pos := t]" r] by (simp add: hole_idx_def)
  then have "r \<in> dom idx"
    using h by (auto simp: hole_idx_def)
  then have "set_ref (a[pos := t]) idx pos = Some (idx(r \<mapsto> pos))" "dom (idx(r \<mapsto> pos)) = dom idx"
    using h Some by (auto simp: set_ref_def hole_idx_def)
  moreover have "idx_ok (a[pos := t]) (idx(r \<mapsto> pos))"
    using h Some unfolding hole_idx_def idx_ok_def idx_except_def by (auto simp: nth_list_update)
  ultimately show ?thesis
    using \<open>r \<in> refs _\<close> by auto
qed

section \<open>Sifting\<close>

text \<open>What an update of the array promises: an ordered heap of the same items, every back pointer right.\<close>

definition settled :: "heap_item list \<Rightarrow> idxmem \<Rightarrow> heap_item list \<times> idxmem \<Rightarrow> bool" where
  "settled b idx res \<longleftrightarrow>
     (case res of (a', idx') \<Rightarrow> heap_ord a' \<and> mset a' = mset b \<and> idx_ok a' idx' \<and> dom idx' = dom idx
        \<and> (\<forall>r. r \<notin> refs b \<longrightarrow> idx' r = idx r))"

lemma settled_move:
  assumes "settled (a[pos := a ! q, q := t]) idx' res" "pos < length a" "q < length a" "q \<noteq> pos"
    and "dom idx' = dom idx" "\<forall>r. r \<notin> refs (a[pos := t]) \<longrightarrow> idx' r = idx r"
  shows "settled (a[pos := t]) idx res"
  using assms mset_move_hole [OF assms(2-4), of t] refs_mset [OF mset_move_hole [OF assms(2-4), of t]]
  by (auto simp: settled_def)

lemma heap_up_loop_ok:
  assumes "hole_idx a idx pos t" "hole_ord a pos"
    and "\<And>i. 0 < i \<Longrightarrow> i < length a \<Longrightarrow> heap_parent i = pos \<Longrightarrow> hi_val t \<le> hi_val (a ! i)"
  shows "\<exists>res. heap_up_loop a idx pos t = Some res \<and> settled (a[pos := t]) idx res"
  using assms
proof (induction a idx pos t rule: heap_up_loop.induct)
  case (1 a idx pos t)
  note hidx = "1.prems"(1) and hord = "1.prems"(2) and kids = "1.prems"(3)
  have pos: "pos < length a"
    using hidx by (simp add: hole_idx_def)
  let ?p = "heap_parent pos"
  show ?case
  proof (cases "pos > 0 \<and> hi_val (a ! ?p) > hi_val t")
    case True
    then have "?p < pos"
      by simp
    then have p: "?p < length a" "?p \<noteq> pos" "?p < pos"
      using pos by simp_all
    let ?a = "a[pos := a ! ?p]"
    obtain idx' where idx': "set_ref ?a idx pos = Some idx'" "hole_idx ?a idx' ?p t" "dom idx' = dom idx"
      "\<forall>r. r \<notin> refs (a[pos := t]) \<longrightarrow> idx' r = idx r"
      using hole_idx_move [OF hidx p(1,2)] by auto
    have edge: "hi_val (a ! heap_parent i) \<le> hi_val (a ! i)"
      if "0 < i" "i < length a" "i \<noteq> pos" "heap_parent i \<noteq> pos" for i
      using hord that by (simp add: hole_ord_def)
    have bridge: "hi_val (a ! ?p) \<le> hi_val (a ! i)"
      if "0 < i" "i < length a" "i \<noteq> pos" "heap_parent i = pos" for i
      using hord that True by (simp add: hole_ord_def)
    have pp: "heap_parent ?p \<noteq> pos" if "?p > 0"
      using heap_parent_less [OF that] p by simp
    have "hole_ord ?a ?p"
      unfolding hole_ord_def
    proof (intro allI impI)
      fix i assume i: "0 < i \<and> i < length ?a \<and> i \<noteq> ?p"
      show "if heap_parent i \<noteq> ?p then hi_val (?a ! heap_parent i) \<le> hi_val (?a ! i)
            else 0 < ?p \<longrightarrow> hi_val (?a ! heap_parent ?p) \<le> hi_val (?a ! i)"
      proof (cases "heap_parent i = ?p")
        case False
        then have "i \<noteq> pos" by auto
        then show ?thesis
          using False i edge [of i] bridge [of i] pos by (cases "heap_parent i = pos") auto
      next
        case sib: True
        have "hi_val (a ! heap_parent ?p) \<le> hi_val (a ! ?p)" if "?p > 0"
          using edge [of ?p] p that pp by simp
        moreover have "hi_val (a ! ?p) \<le> hi_val (a ! i)" if "i \<noteq> pos"
          using edge [of i] i sib p that by simp
        ultimately show ?thesis
          using sib i pos p pp by (cases "i = pos") force+
      qed
    qed
    moreover have "hi_val t \<le> hi_val (?a ! i)" if "0 < i" "i < length ?a" "heap_parent i = ?p" for i
      using that True edge [of i] p pos by (cases "i = pos") auto
    ultimately obtain res where "heap_up_loop ?a idx' ?p t = Some res" "settled (?a[?p := t]) idx' res"
      using "1.IH"(1) [OF True refl idx'(1,2)] by blast
    then show ?thesis
      using True idx' settled_move [OF _ pos p(1,2)] by (auto simp: heap_up_loop.simps [of a] Let_def)
  next
    case False
    obtain idx' where idx': "set_ref (a[pos := t]) idx pos = Some idx'" "idx_ok (a[pos := t]) idx'" "dom idx' = dom idx"
      "\<forall>r. r \<notin> refs (a[pos := t]) \<longrightarrow> idx' r = idx r"
      using hole_idx_fill [OF hidx] by blast
    have "heap_ord (a[pos := t])"
      unfolding heap_ord_def
    proof (intro allI impI)
      fix i assume i: "0 < i \<and> i < length (a[pos := t])"
      show "hi_val (a[pos := t] ! heap_parent i) \<le> hi_val (a[pos := t] ! i)"
      proof (cases "i = pos")
        case True
        then show ?thesis
          using False i heap_parent_neq [of pos] by (auto simp: not_less)
      next
        case ne: False
        then show ?thesis
          using i kids [of i] hord pos by (cases "heap_parent i = pos") (auto simp: hole_ord_def)
      qed
    qed
    moreover have "heap_up_loop a idx pos t = Some (a[pos := t], idx')"
      using False idx' by (subst heap_up_loop.simps) (auto simp: Let_def)
    ultimately show ?thesis
      using idx' by (simp add: settled_def)
  qed
qed

lemma heap_min_pos_le:
  assumes "m = heap_min_pos a pos len t"
  shows "m = pos \<or> m = heap_left pos \<or> m = heap_right pos"
    and "m = pos \<Longrightarrow> 0 < i \<Longrightarrow> i < len \<Longrightarrow> heap_parent i = pos \<Longrightarrow> hi_val t \<le> hi_val (a ! i)"
    and "m \<noteq> pos \<Longrightarrow> hi_val (a ! m) < hi_val t"
    and "m \<noteq> pos \<Longrightarrow> 0 < i \<Longrightarrow> i < len \<Longrightarrow> heap_parent i = pos \<Longrightarrow> hi_val (a ! m) \<le> hi_val (a ! i)"
  using assms heap_children(5,6) [of pos]
  by (auto simp: heap_min_pos_def Let_def heap_parent_iff split: if_splits)

lemma heap_down_loop_ok:
  assumes "hole_idx a idx pos t" "hole_ord a pos" "len = length a"
    and "0 < pos \<Longrightarrow> hi_val (a ! heap_parent pos) \<le> hi_val t"
  shows "\<exists>res. heap_down_loop a idx pos len t = Some res \<and> settled (a[pos := t]) idx res"
  using assms
proof (induction a idx pos len t rule: heap_down_loop.induct)
  case (1 a idx pos len t)
  note hidx = "1.prems"(1) and hord = "1.prems"(2) and len = "1.prems"(3) and up = "1.prems"(4)
  have pos: "pos < length a"
    using hidx by (simp add: hole_idx_def)
  define m where m: "m = heap_min_pos a pos len t"
  note ml = heap_min_pos_le [OF m]
  show ?case
  proof (cases "m = pos")
    case False
    then have mm: "m < length a" "m \<noteq> pos" "pos < m" "0 < m" "heap_parent m = pos"
      using heap_min_pos_bounds [of a pos len t] ml(1) len unfolding m by auto
    let ?a = "a[pos := a ! m]"
    obtain idx' where idx': "set_ref ?a idx pos = Some idx'" "hole_idx ?a idx' m t" "dom idx' = dom idx"
      "\<forall>r. r \<notin> refs (a[pos := t]) \<longrightarrow> idx' r = idx r"
      using hole_idx_move [OF hidx mm(1,2)] by auto
    have "hole_ord ?a m"
      unfolding hole_ord_def
    proof (intro allI impI)
      fix i assume i: "0 < i \<and> i < length ?a \<and> i \<noteq> m"
      have below: "pos < i" if "heap_parent i = m"
        using that mm i heap_parent_less [of i] by auto
      show "if heap_parent i \<noteq> m then hi_val (?a ! heap_parent i) \<le> hi_val (?a ! i)
            else 0 < m \<longrightarrow> hi_val (?a ! heap_parent m) \<le> hi_val (?a ! i)"
      proof (cases "heap_parent i = pos")
        case True
        then have "i \<noteq> pos"
          using i heap_parent_less [of i] by auto
        then show ?thesis
          using True i ml(4) [of i] False pos mm len by auto
      next
        case np: False
        show ?thesis
        proof (cases "i = pos")
          case True
          have "heap_parent m = pos" "hi_val (a ! heap_parent pos) \<le> hi_val (a ! m)" if "0 < pos"
            using hord that mm by (auto simp: hole_ord_def)
          moreover have "heap_parent pos \<noteq> m" if "0 < pos"
            using heap_parent_less [OF that] mm by simp
          ultimately show ?thesis
            using True i np pos by simp
        next
          case ni: False
          then have "hi_val (a ! heap_parent i) \<le> hi_val (a ! i)"
            using hord np i by (simp add: hole_ord_def)
          then show ?thesis
            using ni np i mm pos by auto
        qed
      qed
    qed
    moreover have "hi_val (?a ! heap_parent m) \<le> hi_val t"
      using ml(3) False mm pos by simp
    ultimately obtain res where "heap_down_loop ?a idx' m len t = Some res" "settled (?a[m := t]) idx' res"
      using "1.IH" [OF m False refl idx'(1,2)] len by auto
    then show ?thesis
      using False idx' settled_move [OF _ pos mm(1,2)]
      by (auto simp: heap_down_loop.simps [of a] m [symmetric] Let_def)
  next
    case True
    obtain idx' where idx': "set_ref (a[pos := t]) idx pos = Some idx'" "idx_ok (a[pos := t]) idx'" "dom idx' = dom idx"
      "\<forall>r. r \<notin> refs (a[pos := t]) \<longrightarrow> idx' r = idx r"
      using hole_idx_fill [OF hidx] by blast
    have "heap_ord (a[pos := t])"
      unfolding heap_ord_def
    proof (intro allI impI)
      fix i assume i: "0 < i \<and> i < length (a[pos := t])"
      then have ne: "heap_parent i \<noteq> i"
        using heap_parent_less [of i] by auto
      show "hi_val (a[pos := t] ! heap_parent i) \<le> hi_val (a[pos := t] ! i)"
        using i ne up ml(2) [OF True, of i] hord pos len
        by (cases "i = pos"; cases "heap_parent i = pos") (auto simp: hole_ord_def)
    qed
    then show ?thesis
      using True idx' by (simp add: heap_down_loop.simps [of a] m [symmetric] settled_def Let_def)
  qed
qed

text \<open>\<open>heap_update\<close> restores a heap in which one item was replaced.\<close>

lemma heap_update_ok:
  assumes "hole_idx a idx pos (a ! pos)" "hole_ord a pos"
  shows "\<exists>res. heap_update a idx pos (length a) = Some res \<and> settled a idx res"
proof -
  have pos: "pos < length a"
    using assms(1) by (simp add: hole_idx_def)
  show ?thesis
  proof (cases "pos > 0 \<and> hi_val (a ! heap_parent pos) > hi_val (a ! pos)")
    case True
    have "hi_val (a ! pos) \<le> hi_val (a ! i)" if "0 < i" "i < length a" "heap_parent i = pos" for i
    proof -
      have "i \<noteq> pos"
        using that heap_parent_less [of i] by auto
      then have "hi_val (a ! heap_parent pos) \<le> hi_val (a ! i)"
        using assms(2) that True by (simp add: hole_ord_def)
      then show ?thesis
        using True by (meson less_le_trans less_imp_le)
    qed
    then show ?thesis
      using heap_up_loop_ok [OF assms] pos True by (simp add: heap_update_def heap_up_def)
  next
    case False
    then show ?thesis
      using heap_down_loop_ok [OF assms refl] pos by (auto simp: heap_update_def heap_down_def)
  qed
qed

section \<open>The timer queue\<close>

text \<open>
  The state of all timers: an ordered heap whose items carry the addresses of the entries with
  a TTL, and every entry's \<open>heap_idx\<close> is its position or \<open>npos\<close>.
\<close>

definition timers_ok :: "heap_item list \<times> idxmem \<Rightarrow> bool" where
  "timers_ok h \<longleftrightarrow>
     (case h of (a, idx) \<Rightarrow> heap_ord a \<and> idx_ok a idx \<and> length a < npos
        \<and> (\<forall>x \<in> set a. hi_ref x \<noteq> None)
        \<and> (\<forall>r i. idx r = Some i \<and> r \<notin> refs a \<longrightarrow> i = npos))"

text \<open>The deadline of each entry that has one.\<close>

definition deadline :: "heap_item list \<times> idxmem \<Rightarrow> addr \<Rightarrow> u64 option" where
  "deadline h r =
     (case h of (a, idx) \<Rightarrow>
        (case idx r of None \<Rightarrow> None
         | Some i \<Rightarrow> if i < length a then Some (hi_val (a ! i)) else None))"

lemma idx_ok_refs_inj:
  "idx_ok a idx \<Longrightarrow> i < length a \<Longrightarrow> j < length a \<Longrightarrow> hi_ref (a ! i) = Some r \<Longrightarrow> hi_ref (a ! j) = Some r \<Longrightarrow> i = j"
  by (metis idx_ok_def option.inject)

lemma refs_nthD: "r \<in> refs a \<Longrightarrow> \<exists>i. i < length a \<and> hi_ref (a ! i) = Some r"
  by (auto simp: refs_def in_set_conv_nth)

lemma notin_refs_iff: "r \<notin> refs a \<longleftrightarrow> (\<forall>i < length a. hi_ref (a ! i) \<noteq> Some r)"
  using refs_nthD refsI by metis

lemma idx_ok_refs_dom: "idx_ok a idx \<Longrightarrow> refs a \<subseteq> dom idx"
  using refs_nthD by (fastforce simp: idx_ok_def)

lemma deadline_mset:
  assumes "timers_ok (a, idx)" "r \<in> dom idx"
  shows "deadline (a, idx) r = Some v \<longleftrightarrow> \<lparr>hi_val = v, hi_ref = Some r\<rparr> \<in># mset a"
proof -
  obtain i where i: "idx r = Some i"
    using assms(2) by auto
  have ok: "idx_ok a idx" "length a < npos" "\<And>i. r \<notin> refs a \<Longrightarrow> idx r = Some i \<Longrightarrow> i = npos"
    using assms(1) by (auto simp: timers_ok_def)
  show ?thesis
  proof (cases "r \<in> refs a")
    case True
    then have "i < length a" "hi_ref (a ! i) = Some r"
      using refs_nthD [OF True] ok(1) i by (auto simp: idx_ok_def)
    then show ?thesis
      using i ok(1) idx_ok_refs_inj [OF ok(1)]
      by (auto simp: deadline_def in_set_conv_nth) (metis heap_item.select_convs(1,2))+
  next
    case False
    then have "\<not> i < length a"
      using ok(2,3) i by auto
    moreover have "\<lparr>hi_val = v, hi_ref = Some r\<rparr> \<notin> set a"
      using False by (force simp: refs_def)
    ultimately show ?thesis
      using i by (simp add: deadline_def)
  qed
qed

lemma heap_ord_hole: "heap_ord a \<Longrightarrow> pos < length a \<Longrightarrow> hole_ord (a[pos := t]) pos"
  unfolding hole_ord_def
proof (intro allI impI)
  fix i assume h: "heap_ord a" "pos < length a" and i: "0 < i \<and> i < length (a[pos := t]) \<and> i \<noteq> pos"
  show "if heap_parent i \<noteq> pos then hi_val (a[pos := t] ! heap_parent i) \<le> hi_val (a[pos := t] ! i)
        else 0 < pos \<longrightarrow> hi_val (a[pos := t] ! heap_parent pos) \<le> hi_val (a[pos := t] ! i)"
  proof (cases "heap_parent i = pos")
    case True
    have "hi_val (a ! heap_parent pos) \<le> hi_val (a ! i)" if "0 < pos"
    proof -
      have "hi_val (a ! heap_parent pos) \<le> hi_val (a ! pos)" "hi_val (a ! pos) \<le> hi_val (a ! i)"
        using h i that True by (auto simp: heap_ord_def)
      then show ?thesis
        by simp
    qed
    then show ?thesis
      using True i by auto
  qed (use h i in \<open>auto simp: heap_ord_def\<close>)
qed

lemma heap_ord_snoc_hole: "heap_ord a \<Longrightarrow> hole_ord (a @ [t]) (length a)"
  unfolding hole_ord_def
proof (intro allI impI)
  fix i assume h: "heap_ord a" and i: "0 < i \<and> i < length (a @ [t]) \<and> i \<noteq> length a"
  then have lt: "heap_parent i < i" "i < length a"
    by auto
  from less_trans [OF this] have "i < length a" "heap_parent i < length a" "hi_val (a ! heap_parent i) \<le> hi_val (a ! i)"
    using h i lt by (auto simp: heap_ord_def)
  then show "if heap_parent i \<noteq> length a then hi_val ((a @ [t]) ! heap_parent i) \<le> hi_val ((a @ [t]) ! i)
        else 0 < length a \<longrightarrow> hi_val ((a @ [t]) ! heap_parent (length a)) \<le> hi_val ((a @ [t]) ! i)"
    by (simp add: nth_append)
qed

lemma heap_ord_butlast: "heap_ord a \<Longrightarrow> heap_ord (butlast a)"
  unfolding heap_ord_def
proof (intro allI impI)
  fix i assume h: "\<forall>i. 0 < i \<and> i < length a \<longrightarrow> hi_val (a ! heap_parent i) \<le> hi_val (a ! i)"
    and i: "0 < i \<and> i < length (butlast a)"
  then have "heap_parent i < length (butlast a)"
    using heap_parent_less [of i] by linarith
  then show "hi_val (butlast a ! heap_parent i) \<le> hi_val (butlast a ! i)"
    using h i by (auto simp: nth_butlast)
qed

lemma butlast_update_last:
  assumes "pos < length a" "pos \<noteq> length a - 1"
  shows "butlast (a[pos := last a]) = (butlast a)[pos := last a]"
  using assms by (metis butlast_list_update)

lemma heap_delete_ok:
  assumes "timers_ok (a, idx)" "idx r = Some pos" "r \<in> refs a"
  shows "\<exists>a' idx'. heap_delete a idx pos = Some (a', idx') \<and> timers_ok (a', idx'(r \<mapsto> npos))
    \<and> dom idx' = dom idx \<and> mset a = add_mset (a ! pos) (mset a') \<and> hi_ref (a ! pos) = Some r"
proof -
  have ok: "heap_ord a" "idx_ok a idx" "length a < npos" "\<forall>x \<in> set a. hi_ref x \<noteq> None"
    "\<And>r i. idx r = Some i \<Longrightarrow> r \<notin> refs a \<Longrightarrow> i = npos"
    using assms(1) by (auto simp: timers_ok_def)
  have pos: "pos < length a" "hi_ref (a ! pos) = Some r"
    using refs_nthD [OF assms(3)] ok(2) assms(2) by (auto simp: idx_ok_def)
  note inj = idx_ok_refs_inj [OF ok(2)]
  let ?b = "butlast (a[pos := last a])"
  have ms: "mset a = add_mset (a ! pos) (mset ?b)"
  proof (cases "pos = length a - 1")
    case True
    then show ?thesis
      using pos by (cases a rule: rev_cases) (auto simp: nth_append butlast_list_update)
  next
    case False
    then obtain c x where a: "a = c @ [x]" "pos < length c"
      using pos by (cases a rule: rev_cases) auto
    then show ?thesis
      by (simp add: list_update_append nth_append mset_update)
  qed
  have rb: "refs a = insert r (refs ?b)"
    using arg_cong [OF ms, of set_mset] pos(2) by (auto simp: refs_def)
  have rn: "r \<notin> refs ?b"
  proof
    assume "r \<in> refs ?b"
    then obtain i where i: "i < length ?b" "hi_ref (?b ! i) = Some r"
      using refs_nthD by blast
    show False
    proof (cases "i = pos")
      case True
      have ne: "a \<noteq> []"
        using pos by auto
      have lt: "i < length a - 1"
        using i by simp
      then have "?b ! i = last a" "last a = a ! (length a - 1)"
        using True pos lt by (simp_all add: nth_butlast last_conv_nth [OF ne])
      then show False
        using True lt i inj [of pos "length a - 1" r] pos ne by auto
    next
      case False
      then show False
        using i pos inj [of i pos r] less_le_trans [of i "length a - 1" "length a"] by (auto simp: nth_butlast)
    qed
  qed
  have lb: "length ?b = length a - 1"
    by simp
  show ?thesis
  proof (cases "pos < length ?b")
    case True
    have ord: "hole_ord ?b pos"
      using heap_ord_hole [of "butlast a" pos "last a"] heap_ord_butlast [OF ok(1)] True
        butlast_update_last [OF pos(1)] by simp
    have "idx_except ?b idx pos"
      using ok(2) True pos by (auto simp: idx_except_def idx_ok_def nth_butlast)
    moreover have "refs (?b[pos := ?b ! pos]) \<subseteq> dom idx"
      using rb idx_ok_refs_dom [OF ok(2)] by auto
    moreover have "hi_ref (?b ! pos) \<noteq> Some s" if "i < length ?b" "i \<noteq> pos" "hi_ref (?b ! i) = Some s" for i s
    proof -
      have ne: "a \<noteq> []"
        using pos by auto
      have "i < length a - 1" "hi_ref (a ! i) = Some s" "?b ! pos = a ! (length a - 1)"
        using that True pos by (simp_all add: nth_butlast last_conv_nth [OF ne])
      then show ?thesis
        using inj [of i "length a - 1" s] less_le_trans [of i "length a - 1" "length a"] ne by auto
    qed
    ultimately have "hole_idx ?b idx pos (?b ! pos)"
      using True by (auto simp: hole_idx_def)
    from heap_update_ok [OF this ord] obtain a' idx' where
      u: "heap_update ?b idx pos (length ?b) = Some (a', idx')" "settled ?b idx (a', idx')"
      by auto
    then have a': "heap_ord a'" "mset a' = mset ?b" "idx_ok a' idx'" "dom idx' = dom idx"
      "\<And>s. s \<notin> refs ?b \<Longrightarrow> idx' s = idx s" "refs a' = refs ?b"
      using refs_mset [of a' ?b] by (auto simp: settled_def)
    have "idx_ok a' (idx'(r \<mapsto> npos))"
      using a'(3,6) rn refsI [of _ a' r] by (auto simp: idx_ok_def)
    moreover have "length a' < npos" "\<forall>x \<in> set a'. hi_ref x \<noteq> None"
      using ok(3,4) a'(2) ms mset_eq_length [OF a'(2)] by (auto simp: set_mset_mset [symmetric] simp del: set_mset_mset)
    moreover have "i = npos" if "(idx'(r \<mapsto> npos)) s = Some i" "s \<notin> refs a'" for s i
      using that a' ok(5) [of s i] rb by (auto split: if_splits)
    ultimately have "timers_ok (a', idx'(r \<mapsto> npos))"
      using a'(1) by (auto simp: timers_ok_def simp del: fun_upd_apply)
    moreover have "a \<noteq> []"
      using pos by auto
    ultimately show ?thesis
      using True u(1) pos a' ms lb by (auto simp: heap_delete_def Let_def)
  next
    case False
    then have "pos = length a - 1"
      using pos(1) lb by linarith
    then have b: "?b = butlast a" "a \<noteq> []"
      using pos by (auto simp: butlast_list_update)
    have "heap_delete a idx pos = Some (?b, idx)"
      using False pos b(2) by (auto simp: heap_delete_def Let_def)
    moreover have "idx_ok ?b (idx(r \<mapsto> npos))"
      using ok(2) rn b by (auto simp: idx_ok_def nth_butlast notin_refs_iff)
    moreover have "length ?b < npos" "\<forall>x \<in> set ?b. hi_ref x \<noteq> None"
      using ok(3,4) b by (auto dest: in_set_butlastD)
    moreover have "i = npos" if "(idx(r \<mapsto> npos)) s = Some i" "s \<notin> refs ?b" for s i
      using that ok(5) [of s i] rb by (auto split: if_splits)
    ultimately have "timers_ok (?b, idx(r \<mapsto> npos))"
      using heap_ord_butlast [OF ok(1)] b by (auto simp: timers_ok_def simp del: fun_upd_apply)
    then show ?thesis
      using \<open>heap_delete a idx pos = _\<close> ms pos(2) by auto
  qed
qed

lemma heap_upsert_ok:
  assumes "timers_ok (a, idx)" "idx r = Some pos" "length a + 1 < npos"
    and t: "hi_ref t = Some r"
  shows "\<exists>a' idx'. heap_upsert a idx pos t = Some (a', idx') \<and> timers_ok (a', idx') \<and> dom idx' = dom idx
    \<and> (if r \<in> refs a then mset a' + {#a ! pos#} = add_mset t (mset a) else mset a' = add_mset t (mset a))"
proof -
  have ok: "heap_ord a" "idx_ok a idx" "\<forall>x \<in> set a. hi_ref x \<noteq> None"
    "\<And>r i. idx r = Some i \<Longrightarrow> r \<notin> refs a \<Longrightarrow> i = npos"
    using assms(1) by (auto simp: timers_ok_def)
  note inj = idx_ok_refs_inj [OF ok(2)]
  obtain b p where bp: "(b, p) = (if pos < length a then (a[pos := t], pos) else (a @ [t], length a))"
    by (metis (no_types))
  have in_refs: "r \<in> refs a \<longleftrightarrow> pos < length a"
  proof
    assume "r \<in> refs a"
    then show "pos < length a"
      using refs_nthD [of r a] ok(2) assms(2) by (auto simp: idx_ok_def)
  next
    assume "pos < length a"
    then show "r \<in> refs a"
      using ok(4) [OF assms(2)] assms(3) by auto
  qed
  have at_pos: "hi_ref (a ! pos) = Some r" if "pos < length a"
    using that in_refs refs_nthD [of r a] ok(2) assms(2) by (auto simp: idx_ok_def)
  have b: "p < length b" "b ! p = t" "hole_ord b p" "length b \<le> length a + 1"
    "\<forall>x \<in> set b. hi_ref x \<noteq> None"
    using bp heap_ord_hole [OF ok(1)] heap_ord_snoc_hole [OF ok(1)] ok(3) t
    by (auto split: if_splits dest!: set_update_subset_insert [THEN subsetD])
  have others: "idx s = Some i \<and> s \<noteq> r" if "i < length b" "i \<noteq> p" "hi_ref (b ! i) = Some s" for i s
  proof (cases "pos < length a")
    case True
    then have i: "i < length a" "i \<noteq> pos" "hi_ref (a ! i) = Some s"
      using that bp by auto
    then show ?thesis
      using ok(2) inj [of i pos r] at_pos [OF True] True by (auto simp: idx_ok_def)
  next
    case False
    then have i: "i < length a" "hi_ref (a ! i) = Some s"
      using that bp by (auto simp: nth_append split: if_splits)
    then have "s \<in> refs a"
      by (rule refsI)
    then show ?thesis
      using i ok(2) False in_refs by (auto simp: idx_ok_def)
  qed
  have rb: "refs b = insert r (refs a)"
  proof (cases "pos < length a")
    case True
    have "add_mset (a ! pos) (mset (a[pos := t])) = add_mset t (mset a)"
      using True by (simp add: mset_update)
    from arg_cong [OF this, of set_mset] have "insert (a ! pos) (set (a[pos := t])) = insert t (set a)"
      by simp
    then have "x \<in> set (a[pos := t]) \<or> x = a ! pos \<longleftrightarrow> x \<in> set a \<or> x = t" for x
      by blast
    then have "s \<in> refs (a[pos := t]) \<or> s = r \<longleftrightarrow> s \<in> refs a \<or> s = r" for s
      using at_pos [OF True] t unfolding refs_def by (auto; metis option.inject)
    then have "insert r (refs (a[pos := t])) = insert r (refs a)"
      by blast
    moreover have "r \<in> refs (a[pos := t])"
      using True t refsI [of pos "a[pos := t]" r] by simp
    ultimately show ?thesis
      using True bp by (auto split: if_splits)
  next
    case False
    then show ?thesis
      using bp t by (auto simp: refs_def)
  qed
  have "hole_idx b idx p t"
    unfolding hole_idx_def
  proof (intro conjI)
    show "idx_except b idx p"
      using others by (auto simp: idx_except_def)
    show "refs (b[p := t]) \<subseteq> dom idx"
      using b(2) list_update_id [of b p] rb idx_ok_refs_dom [OF ok(2)] assms(2) by auto
    show "\<forall>i s. i < length b \<and> i \<noteq> p \<and> hi_ref (b ! i) = Some s \<longrightarrow> hi_ref t \<noteq> Some s"
      using others t by auto
  qed (rule b(1))
  then obtain a' idx' where u: "heap_update b idx p (length b) = Some (a', idx')" "settled b idx (a', idx')"
    using heap_update_ok [of b idx p] b by auto
  then have a': "heap_ord a'" "mset a' = mset b" "idx_ok a' idx'" "dom idx' = dom idx"
    "\<And>s. s \<notin> refs b \<Longrightarrow> idx' s = idx s" "refs a' = refs b"
    using refs_mset [of a' b] by (auto simp: settled_def)
  have "length a' < npos" "\<forall>x \<in> set a'. hi_ref x \<noteq> None"
    using b(4,5) assms(3) a'(2) mset_eq_length [OF a'(2)]
    by (auto simp: set_mset_mset [symmetric] simp del: set_mset_mset)
  moreover have "i = npos" if "idx' s = Some i" "s \<notin> refs a'" for s i
    using that a'(5,6) ok(4) [of s i] rb by auto
  ultimately have "timers_ok (a', idx')"
    using a' by (auto simp: timers_ok_def)
  moreover have "heap_upsert a idx pos t = Some (a', idx')"
    using u(1) bp by (auto simp: heap_upsert_def split: if_splits)
  moreover have "if r \<in> refs a then mset a' + {#a ! pos#} = add_mset t (mset a) else mset a' = add_mset t (mset a)"
    using a'(2) bp in_refs by (auto simp: mset_update split: if_splits)
  ultimately show ?thesis
    using a'(4) by blast
qed

section \<open>Deadlines\<close>

lemma npos_bound: "timers_ok (a, idx) \<Longrightarrow> r \<in> refs a \<Longrightarrow> idx r = Some i \<Longrightarrow> i < length a"
  using refs_nthD [of r a] by (fastforce simp: timers_ok_def idx_ok_def)

lemma deadline_iff:
  assumes "timers_ok (a, idx)"
  shows "deadline (a, idx) r = Some v \<longleftrightarrow> \<lparr>hi_val = v, hi_ref = Some r\<rparr> \<in># mset a"
proof (cases "r \<in> dom idx")
  case False
  then have "r \<notin> refs a"
    using assms idx_ok_refs_dom by (auto simp: timers_ok_def)
  then have "\<lparr>hi_val = v, hi_ref = Some r\<rparr> \<notin> set a"
    by (force simp: refs_def)
  then show ?thesis
    using False by (simp add: deadline_def domIff)
qed (rule deadline_mset [OF assms])

lemma heap_item_eq: "x = \<lparr>hi_val = v, hi_ref = r\<rparr> \<longleftrightarrow> hi_val x = v \<and> hi_ref x = r"
  for x :: heap_item
  by (cases x) auto

lemma heap_item_in_refs: "\<lparr>hi_val = v, hi_ref = Some r\<rparr> \<in> set a \<Longrightarrow> r \<in> refs a"
  by (force simp: refs_def)

lemma deadline_None_iff:
  assumes "timers_ok (a, idx)"
  shows "deadline (a, idx) r = None \<longleftrightarrow> r \<notin> refs a"
proof -
  have "r \<in> refs a \<longleftrightarrow> (\<exists>v. \<lparr>hi_val = v, hi_ref = Some r\<rparr> \<in># mset a)"
  proof
    assume "r \<in> refs a"
    then obtain x where x: "x \<in> set a" "hi_ref x = Some r"
      by (auto simp: refs_def)
    then have "x = \<lparr>hi_val = hi_val x, hi_ref = Some r\<rparr>"
      by (simp add: heap_item_eq)
    then show "\<exists>v. \<lparr>hi_val = v, hi_ref = Some r\<rparr> \<in># mset a"
      using x(1) by (metis set_mset_mset)
  qed (auto intro: heap_item_in_refs)
  then show ?thesis
    using deadline_iff [OF assms] by (metis not_Some_eq)
qed

lemma option_map_eqI: "(\<And>v. x = Some v \<longleftrightarrow> y = Some v) \<Longrightarrow> x = y"
  by (metis option.exhaust)

lemma timers_npos_iff:
  assumes "timers_ok (a, idx)" "idx r = Some i"
  shows "i = npos \<longleftrightarrow> r \<notin> refs a"
  using assms npos_bound [OF assms(1) _ assms(2)] by (auto simp: timers_ok_def)

text \<open>\<open>entry_set_ttl(ent, -1)\<close> removes the deadline of the entry and no other.\<close>

lemma entry_set_ttl_remove_ok:
  assumes "timers_ok h" "r \<in> dom (snd h)" "ttl < 0"
  shows "\<exists>h'. entry_set_ttl now r ttl h = Some h' \<and> timers_ok h' \<and> dom (snd h') = dom (snd h)
    \<and> deadline h' = (deadline h)(r := None)"
proof -
  obtain a idx where h: "h = (a, idx)"
    by (cases h)
  obtain i where i: "idx r = Some i"
    using assms(2) h by auto
  show ?thesis
  proof (cases "i = npos")
    case True
    then have "deadline h r = None"
      using assms(1) i timers_npos_iff deadline_None_iff by (auto simp: h)
    then show ?thesis
      using True i assms by (auto simp: entry_set_ttl_def h)
  next
    case False
    then have "r \<in> refs a"
      using assms(1) i timers_npos_iff by (auto simp: h)
    from heap_delete_ok [OF assms(1) [unfolded h] i this] obtain a' idx' where
      d: "heap_delete a idx i = Some (a', idx')" "timers_ok (a', idx'(r \<mapsto> npos))" "dom idx' = dom idx"
      "mset a = add_mset (a ! i) (mset a')" "hi_ref (a ! i) = Some r"
      by blast
    have "r \<notin> refs a'"
      using timers_npos_iff [OF d(2), of r npos] by simp
    have "deadline (a', idx'(r \<mapsto> npos)) s = ((deadline h)(r := None)) s" for s
    proof (cases "s = r")
      case True
      then show ?thesis
        using deadline_None_iff [OF d(2), of r] \<open>r \<notin> refs a'\<close> by simp
    next
      case False
      then have "\<lparr>hi_val = v, hi_ref = Some s\<rparr> \<in># mset a \<longleftrightarrow> \<lparr>hi_val = v, hi_ref = Some s\<rparr> \<in># mset a'" for v
        using d(4,5) by (metis (no_types, lifting) heap_item_eq insert_iff option.inject set_mset_add_mset_insert)
      then show ?thesis
        using False deadline_iff [OF d(2), of s] deadline_iff [OF assms(1) [unfolded h], of s]
        by (intro option_map_eqI) (simp add: h)
    qed
    then have "deadline (a', idx'(r \<mapsto> npos)) = (deadline h)(r := None)"
      by blast
    moreover have "idx' r \<noteq> None" "insert r (dom idx) = dom idx"
      using d(3) i by auto
    then have "entry_set_ttl now r ttl h = Some (a', idx'(r \<mapsto> npos))" "dom (idx'(r \<mapsto> npos)) = dom idx"
      using False i d assms(3) by (simp_all add: entry_set_ttl_def h del: not_None_eq)
    ultimately show ?thesis
      using d(2) h by (intro exI [of _ "(a', idx'(r \<mapsto> npos))"]) (simp del: fun_upd_apply)
  qed
qed

lemma entry_set_ttl_arm_ok:
  assumes "timers_ok h" "r \<in> dom (snd h)" "ttl \<ge> 0" "length (fst h) + 1 < npos"
  shows "\<exists>h'. entry_set_ttl now r ttl h = Some h' \<and> timers_ok h' \<and> dom (snd h') = dom (snd h)
    \<and> deadline h' = (deadline h)(r \<mapsto> now + of_int ttl)"
proof -
  obtain a idx where h: "h = (a, idx)"
    by (cases h)
  obtain i where i: "idx r = Some i"
    using assms(2) h by auto
  let ?t = "\<lparr>hi_val = now + of_int ttl, hi_ref = Some r\<rparr>"
  obtain a' idx' where
    u: "heap_upsert a idx i ?t = Some (a', idx')" "timers_ok (a', idx')" "dom idx' = dom idx"
    "if r \<in> refs a then mset a' + {#a ! i#} = add_mset ?t (mset a) else mset a' = add_mset ?t (mset a)"
    using heap_upsert_ok [OF assms(1) [unfolded h] i, of ?t] assms(4) h by auto
  have mem: "x \<in># mset a' \<longleftrightarrow> x \<in># mset a" if "hi_ref x \<noteq> Some r" for x
  proof (cases "r \<in> refs a")
    case True
    then have "i < length a" "hi_ref (a ! i) = Some r"
      using npos_bound [OF assms(1) [unfolded h] True i] assms(1) i refs_nthD [OF True]
      by (auto simp: h timers_ok_def idx_ok_def)
    then show ?thesis
      using that True arg_cong [OF u(4) [simplified True if_True], of "\<lambda>M. x \<in># M"] by auto
  qed (use that u(4) in auto)
  have t_in: "?t \<in># mset a'"
  proof (cases "r \<in> refs a")
    case True
    show ?thesis
    proof (cases "a ! i = ?t")
      case True
      then have "mset a' = mset a"
        using u(4) \<open>r \<in> refs a\<close> by simp
      then show ?thesis
        using True npos_bound [OF assms(1) [unfolded h] \<open>r \<in> refs a\<close> i] by (metis nth_mem_mset)
    next
      case False
      then show ?thesis
        using arg_cong [OF u(4) [simplified True if_True], of "\<lambda>M. ?t \<in># M"] by auto
    qed
  qed (use u(4) in simp)
  have "deadline (a', idx') s = ((deadline h)(r \<mapsto> now + of_int ttl)) s" for s
  proof (cases "s = r")
    case True
    then show ?thesis
      using deadline_iff [OF u(2), of r] t_in by simp
  next
    case False
    then show ?thesis
      using deadline_iff [OF u(2), of s] deadline_iff [OF assms(1) [unfolded h], of s] mem
      by (intro option_map_eqI) (auto simp: h)
  qed
  then show ?thesis
    using u i assms(3) by (auto simp: entry_set_ttl_def h)
qed

lemma heap_ord_root:
  assumes "heap_ord a" "i < length a"
  shows "hi_val (a ! 0) \<le> hi_val (a ! i)"
  using assms(2)
proof (induction i rule: less_induct)
  case (less i)
  show ?case
  proof (cases "i = 0")
    case False
    then have "heap_parent i < i" by simp
    then have "hi_val (a ! 0) \<le> hi_val (a ! heap_parent i)"
      using less by (meson less_trans)
    also have "\<dots> \<le> hi_val (a ! i)"
      using assms(1) False less(2) by (simp add: heap_ord_def)
    finally show ?thesis .
  qed simp
qed

lemma heap_root_first:
  assumes "timers_ok (a, idx)" "a \<noteq> []" "hi_ref (a ! 0) = Some r"
  shows "deadline (a, idx) r = Some (hi_val (a ! 0))"
    and "deadline (a, idx) s = Some v \<Longrightarrow> hi_val (a ! 0) \<le> v"
proof -
  have "a ! 0 \<in># mset a"
    using assms(2) by simp
  then show "deadline (a, idx) r = Some (hi_val (a ! 0))"
    using deadline_iff [OF assms(1)] assms(3) heap_item_eq [of "a ! 0"] by metis
  assume "deadline (a, idx) s = Some v"
  then have "\<lparr>hi_val = v, hi_ref = Some s\<rparr> \<in> set a"
    using deadline_iff [OF assms(1)] by simp
  then obtain i where "i < length a" "a ! i = \<lparr>hi_val = v, hi_ref = Some s\<rparr>"
    by (auto simp: in_set_conv_nth)
  then show "hi_val (a ! 0) \<le> v"
    using heap_ord_root [of a i] assms(1) by (auto simp: timers_ok_def)
qed

section \<open>The heap as a queue of deadlines\<close>

definition timer_first :: "heap_item list \<times> idxmem \<Rightarrow> (u64 \<times> addr) option" where
  "timer_first h = (case fst h of [] \<Rightarrow> None | x # _ \<Rightarrow> map_option (Pair (hi_val x)) (hi_ref x))"

definition timer_cancel :: "addr \<Rightarrow> heap_item list \<times> idxmem \<Rightarrow> (heap_item list \<times> idxmem) option" where
  "timer_cancel r h = entry_set_ttl 0 r (-1) h"

lemma timer_first_Some:
  assumes "timers_ok h" "timer_first h = Some (v, r)"
  shows "deadline h r = Some v" "deadline h s = Some w \<Longrightarrow> v \<le> w"
proof -
  obtain a idx where h: "h = (a, idx)" "a \<noteq> []" "hi_ref (a ! 0) = Some r" "hi_val (a ! 0) = v"
    using assms(2) by (cases h) (auto simp: timer_first_def split: list.splits)
  then show "deadline h r = Some v" "deadline h s = Some w \<Longrightarrow> v \<le> w"
    using heap_root_first [of a idx r] assms(1) by auto
qed

lemma timer_first_None:
  assumes "timers_ok h" "timer_first h = None"
  shows "fst h = []"
  using assms by (cases h) (auto simp: timer_first_def timers_ok_def split: list.splits)

lemma deadline_empty: "fst h = [] \<Longrightarrow> deadline h r = None"
  by (cases h) (auto simp: deadline_def split: option.splits)

lemma deadline_dom: "timers_ok h \<Longrightarrow> dom (deadline h) = refs (fst h)"
  using deadline_None_iff [of "fst h" "snd h"] by (simp add: dom_def del: not_None_eq)

lemma finite_refs: "finite (refs a)"
proof -
  have "refs a \<subseteq> the ` hi_ref ` set a"
    by (force simp: refs_def)
  then show ?thesis
    by (rule finite_subset) simp
qed

interpretation ttl: timer_queue timers_ok deadline timer_first timer_cancel
proof unfold_locales
  fix h r v r' v'
  assume ok: "timers_ok h"
  show "timer_first h = None \<Longrightarrow> deadline h r = None"
    by (rule deadline_empty [OF timer_first_None [OF ok]])
  show "timer_first h = Some (v, r) \<Longrightarrow> deadline h r = Some v"
    by (rule timer_first_Some(1) [OF ok])
  show "timer_first h = Some (v, r) \<Longrightarrow> deadline h r' = Some v' \<Longrightarrow> v \<le> v'"
    by (rule timer_first_Some(2) [OF ok])
  show "deadline h r = Some v \<Longrightarrow> \<exists>s'. timer_cancel r h = Some s' \<and> timers_ok s' \<and> deadline s' = (deadline h)(r := None)"
  proof -
    assume "deadline h r = Some v"
    then have "r \<in> dom (snd h)"
      by (cases h) (auto simp: deadline_def split: option.splits)
    then show ?thesis
      using entry_set_ttl_remove_ok [OF ok, of r "-1" 0] by (auto simp: timer_cancel_def)
  qed
  show "finite (dom (deadline h))"
    using deadline_dom [OF ok] finite_refs by simp
qed

lemma timers_length:
  assumes "timers_ok h"
  shows "length (fst h) = card (dom (deadline h))"
proof -
  obtain a idx where h: "h = (a, idx)" by (cases h)
  let ?r = "\<lambda>x. the (hi_ref x)"
  have some: "\<forall>x \<in> set a. hi_ref x = Some (?r x)" and idx: "idx_ok a idx"
    using assms by (auto simp: timers_ok_def h)
  then have "refs a = set (map ?r a)"
    by (auto simp: refs_def image_iff) (metis option.sel)+
  moreover have "distinct (map ?r a)"
    unfolding distinct_conv_nth
  proof (intro allI impI)
    fix i j
    assume "i < length (map ?r a)" "j < length (map ?r a)" "i \<noteq> j"
    then show "map ?r a ! i \<noteq> map ?r a ! j"
      using idx_ok_refs_inj [OF idx, of i j] some by fastforce
  qed
  ultimately show ?thesis
    using deadline_dom [OF assms] distinct_card [of "map ?r a"] by (simp add: h)
qed

end
