(* ===== verification/HeapProps.thy ===== *)
theory HeapProps
  imports Heap
begin

text \<open>Histories of deadlines set by \<open>entry_set_ttl\<close> on the heap of heap.cpp, and the order in which they come out.\<close>

text \<open>Calls of \<open>entry_set_ttl\<close>: the clock, the entry and the time to live.\<close>

fun ttl_run :: "(u64 \<times> addr \<times> int) list \<Rightarrow> heap_item list \<times> idxmem \<Rightarrow> (heap_item list \<times> idxmem) option" where
  "ttl_run [] h = Some h"
| "ttl_run ((now, r, ttl) # ops) h = do { h \<leftarrow> entry_set_ttl now r ttl h; ttl_run ops h }"

fun ttl_spec :: "(u64 \<times> addr \<times> int) list \<Rightarrow> (addr \<rightharpoonup> u64) \<Rightarrow> addr \<rightharpoonup> u64" where
  "ttl_spec [] d = d"
| "ttl_spec ((now, r, ttl) # ops) d = ttl_spec ops (d(r := if ttl < 0 then None else Some (now + of_int ttl)))"

lemma ttl_run_ok:
  "timers_ok h \<Longrightarrow> \<forall>(now, r, ttl) \<in> set ops. r \<in> dom (snd h) \<Longrightarrow> length (fst h) + length ops < npos \<Longrightarrow>
    \<exists>h'. ttl_run ops h = Some h' \<and> timers_ok h' \<and> deadline h' = ttl_spec ops (deadline h)"
proof (induction ops arbitrary: h)
  case (Cons op ops)
  obtain now r ttl where op: "op = (now, r, ttl)"
    by (cases op) auto
  have r: "r \<in> dom (snd h)" and len: "length (fst h) + 1 < npos"
    using Cons.prems(2,3) by (auto simp: op)
  have fin: "finite (dom (deadline h))"
    by (rule ttl.finite_due [OF Cons.prems(1)])
  let ?d = "(deadline h)(r := if ttl < 0 then None else Some (now + of_int ttl))"
  obtain h1 where h1: "entry_set_ttl now r ttl h = Some h1" "timers_ok h1" "dom (snd h1) = dom (snd h)" "deadline h1 = ?d"
  proof (cases "ttl < 0")
    case True
    then show thesis
      using entry_set_ttl_remove_ok [OF Cons.prems(1) r True, of now] that by auto
  next
    case False
    then show thesis
      using entry_set_ttl_arm_ok [OF Cons.prems(1) r _ len, of ttl now] that by auto
  qed
  have "card (dom ?d) \<le> Suc (card (dom (deadline h)))"
    using fin card_mono [OF fin Diff_subset [of _ "{r}"]] by (auto simp: card_insert_if)
  then have "length (fst h1) \<le> Suc (length (fst h))"
    using timers_length [OF h1(2)] timers_length [OF Cons.prems(1)] h1(4) by simp
  then obtain h' where "ttl_run ops h1 = Some h'" "timers_ok h'" "deadline h' = ttl_spec ops (deadline h1)"
    using Cons.IH [OF h1(2)] Cons.prems(2,3) h1(3) by auto
  then show ?case
    using h1(1,4) by (simp add: op)
qed simp

section \<open>Properties\<close>

text \<open>C11: After any history of \<open>entry_set_ttl\<close> calls on entries that start without a deadline, the heap holds exactly the
  deadline of the last call for each entry, with every \<open>heap_idx\<close> right; and taking the root while it is before
  \<open>now\<close>, as \<open>process_timers\<close> does, takes exactly the entries that are due, each once, earliest first, and leaves
  the deadlines of the others.\<close>

theorem ttl_heap_history:
  assumes "finite R" "\<forall>(clock, r, ttl) \<in> set ops. r \<in> R" "length ops < npos"
  shows "\<exists>h rs h'. ttl_run ops ([], (\<lambda>r. if r \<in> R then Some npos else None)) = Some h
    \<and> deadline h = ttl_spec ops Map.empty \<and> idx_ok (fst h) (snd h)
    \<and> expires timer_first timer_cancel now h rs h'
    \<and> distinct rs \<and> set rs = {r. \<exists>d. deadline h r = Some d \<and> d < now} \<and> sorted (map (\<lambda>r. the (deadline h r)) rs)
    \<and> deadline h' = deadline h |` {r. \<exists>d. deadline h r = Some d \<and> now \<le> d}"
proof -
  let ?h = "([], (\<lambda>r. if r \<in> R then Some npos else None)) :: heap_item list \<times> idxmem"
  have ok: "timers_ok ?h"
    by (auto simp: timers_ok_def heap_ord_def idx_ok_def refs_def npos_def split: if_splits)
  have in_dom: "\<forall>(now, r, ttl) \<in> set ops. r \<in> dom (snd ?h)"
    using assms(2) by auto
  have none: "deadline ?h = Map.empty"
    by (rule ext, rule deadline_empty) simp
  obtain h where h: "ttl_run ops ?h = Some h" "timers_ok h" "deadline h = ttl_spec ops Map.empty"
    using ttl_run_ok [OF ok in_dom] assms(3) none by auto
  obtain rs h' where e: "expires timer_first timer_cancel now h rs h'"
    using ttl.expires_exists [OF h(2)] by blast
  have "idx_ok (fst h) (snd h)"
    using h(2) by (simp add: timers_ok_def split_beta)
  then show ?thesis
    using h(1,3) e ttl.expires_sound [OF e h(2)] by blast
qed

lemma ttl_heap_history_witness:
  "\<exists>h rs h'. ttl_run [(0, 1, 50), (0, 2, 30), (1, 3, 90), (2, 2, - 1), (3, 2, 20)] ([], (\<lambda>r. if r \<in> {1, 2, 3} then Some npos else None)) = Some h
    \<and> deadline h = [1 \<mapsto> 50, 2 \<mapsto> 23, 3 \<mapsto> 91] \<and> expires timer_first timer_cancel 60 h rs h' \<and> set rs = {1, 2}"
proof -
  let ?ops = "[(0, 1, 50), (0, 2, 30), (1, 3, 90), (2, 2, - 1), (3, 2, 20)] :: (u64 \<times> addr \<times> int) list"
  have spec: "ttl_spec ?ops Map.empty = [1 \<mapsto> 50, 2 \<mapsto> 23, 3 \<mapsto> 91]"
    by (auto simp: fun_eq_iff)
  obtain h rs h' where h: "ttl_run ?ops ([], (\<lambda>r. if r \<in> {1, 2, 3} then Some npos else None)) = Some h" "deadline h = ttl_spec ?ops Map.empty"
    "expires timer_first timer_cancel 60 h rs h'" "set rs = {r. \<exists>d. deadline h r = Some d \<and> d < 60}"
    using ttl_heap_history [of "{1, 2, 3}" ?ops 60] by (auto simp: npos_def)
  moreover have "set rs = {1, 2}"
    unfolding h(2,4) spec by auto
  ultimately show ?thesis
    unfolding spec by blast
qed

end
