(* ===== verification/Bytes.thy ===== *)
theory Bytes
  imports Interfaces
begin

text \<open>
  Byte buffers: the little-endian layout that \<open>memcpy\<close> of an integer or a \<open>double\<close> produces on
  the machines the server targets, and \<open>buf_append\<close>, \<open>buf_consume\<close> and the \<open>buf_append_*\<close>
  functions of server.cpp. A \<open>double\<close> is the 64-bit word of its representation.
\<close>

section \<open>Little-endian words\<close>

fun nat_le :: "nat \<Rightarrow> nat \<Rightarrow> bytes" where
  "nat_le 0 x = []"
| "nat_le (Suc n) x = of_nat (x mod 256) # nat_le n (x div 256)"

fun le_nat :: "bytes \<Rightarrow> nat" where
  "le_nat [] = 0"
| "le_nat (b # bs) = unat b + 256 * le_nat bs"

definition le32 :: "u32 \<Rightarrow> bytes" where
  "le32 x = nat_le 4 (unat x)"

definition rd32 :: "bytes \<Rightarrow> u32" where
  "rd32 bs = of_nat (le_nat bs)"

definition le64 :: "u64 \<Rightarrow> bytes" where
  "le64 x = nat_le 8 (unat x)"

definition rd64 :: "bytes \<Rightarrow> u64" where
  "rd64 bs = of_nat (le_nat bs)"

lemma length_nat_le [simp]: "length (nat_le n x) = n"
  by (induction n arbitrary: x) auto

lemma le_nat_nat_le: "le_nat (nat_le n x) = x mod 256 ^ n"
proof (induction n arbitrary: x)
  case (Suc n)
  have "unat (of_nat (x mod 256) :: u8) = x mod 256"
    by (simp add: unat_of_nat)
  then show ?case
    by (simp add: Suc mod_mult2_eq)
qed simp

lemma le_nat_bound: "le_nat bs < 256 ^ length bs"
proof (induction bs)
  case (Cons b bs)
  then have "le_nat bs + 1 \<le> 256 ^ length bs"
    by simp
  then have "256 * (le_nat bs + 1) \<le> 256 * 256 ^ length bs"
    by (rule mult_le_mono2)
  then show ?case
    using unat_lt_u8 [of b] unfolding le_nat.simps by (auto simp del: unat_lt_u8)
qed simp

lemma nat_le_le_nat: "nat_le (length bs) (le_nat bs) = bs"
proof (induction bs)
  case (Cons b bs)
  have "(unat b + 256 * le_nat bs) div 256 = le_nat bs" "(unat b + 256 * le_nat bs) mod 256 = unat b"
    using unat_lt_u8 [of b] by (simp_all add: div_add1_eq)
  then show ?case
    using Cons by (simp add: word_nat_cases)
qed simp

interpretation c32: byte_codec 4 le32 rd32
proof unfold_locales
  fix x :: u32 and bs :: bytes
  show "length (le32 x) = 4"
    by (simp add: le32_def)
  show "rd32 (le32 x) = x"
    using unat_lt_u32 [of x] by (simp add: le32_def rd32_def le_nat_nat_le)
  assume l: "length bs = 4"
  then have "unat (rd32 bs) = le_nat bs"
    using le_nat_bound [of bs] by (simp add: rd32_def unat_of_nat)
  then show "le32 (rd32 bs) = bs"
    using nat_le_le_nat [of bs] l by (simp add: le32_def)
qed

interpretation c64: byte_codec 8 le64 rd64
proof unfold_locales
  fix x :: u64 and bs :: bytes
  show "length (le64 x) = 8"
    by (simp add: le64_def)
  show "rd64 (le64 x) = x"
    using unat_lt_u64 [of x] by (simp add: le64_def rd64_def le_nat_nat_le)
  assume l: "length bs = 8"
  then have "unat (rd64 bs) = le_nat bs"
    using le_nat_bound [of bs] by (simp add: rd64_def unat_of_nat)
  then show "le64 (rd64 bs) = bs"
    using nat_le_le_nat [of bs] l by (simp add: le64_def)
qed

lemmas length_fields [simp] = c32.enc_length c64.enc_length
lemmas field_simps' [simp] = c32.dec_enc c64.dec_enc c32.enc_inj c64.enc_inj

lemma le32_neq_Nil [simp]: "le32 x \<noteq> []"
  by (metis c32.enc_length list.size(3) zero_neq_numeral)

section \<open>Buffers\<close>

definition buf_append :: "bytes \<Rightarrow> bytes \<Rightarrow> bytes" where
  "buf_append buf data = buf @ data"

text \<open>Erasing past the end is undefined.\<close>

definition buf_consume :: "bytes \<Rightarrow> nat \<Rightarrow> bytes option" where
  "buf_consume buf n = do { guard (n \<le> length buf); Some (drop n buf) }"

definition buf_append_u8 :: "bytes \<Rightarrow> u8 \<Rightarrow> bytes" where
  "buf_append_u8 buf x = buf @ [x]"

definition buf_append_u32 :: "bytes \<Rightarrow> u32 \<Rightarrow> bytes" where
  "buf_append_u32 buf x = buf_append buf (le32 x)"

definition buf_append_i64 :: "bytes \<Rightarrow> u64 \<Rightarrow> bytes" where
  "buf_append_i64 buf x = buf_append buf (le64 x)"

definition buf_append_dbl :: "bytes \<Rightarrow> u64 \<Rightarrow> bytes" where
  "buf_append_dbl buf x = buf_append buf (le64 x)"

lemmas buf_defs = buf_append_def buf_append_u8_def buf_append_u32_def buf_append_i64_def buf_append_dbl_def

end
