(* ===== verification/Numbers.thy ===== *)
theory Numbers
  imports Bytes
begin

text \<open>
  The numbers of server.cpp and zset.cpp: IEEE doubles as their 64-bit representation with the
  comparisons \<open>==\<close>, \<open><\<close> and \<open>isnan\<close>, and the parsers \<open>str2int\<close> and \<open>str2dbl\<close> on top of
  \<open>strtoll\<close> and \<open>strtod\<close> of the C library (white space, sign, digits, exponent, hexadecimal
  form, \<open>inf\<close> and \<open>nan\<close>; saturation and round-to-nearest-even conversion). The result of a
  parser is the value and the number of characters consumed: the distance of \<open>endp\<close> from the
  start.
\<close>

section \<open>Doubles\<close>

definition dbl_inf :: u64 where
  "dbl_inf = 0x7ff0000000000000"

definition dbl_abs :: "u64 \<Rightarrow> u64" where
  "dbl_abs x = x AND 0x7fffffffffffffff"

definition isnan :: "u64 \<Rightarrow> bool" where
  "isnan x \<longleftrightarrow> dbl_abs x > dbl_inf"

text \<open>The numeric order of the representations: negative numbers count downwards, both zeros are 0.\<close>

definition dord :: "u64 \<Rightarrow> int" where
  "dord x = (if bit x 63 then - uint (dbl_abs x) else uint (dbl_abs x))"

definition dbl_eq :: "u64 \<Rightarrow> u64 \<Rightarrow> bool" where
  "dbl_eq x y \<longleftrightarrow> \<not> isnan x \<and> \<not> isnan y \<and> dord x = dord y"

definition dbl_lt :: "u64 \<Rightarrow> u64 \<Rightarrow> bool" where
  "dbl_lt x y \<longleftrightarrow> \<not> isnan x \<and> \<not> isnan y \<and> dord x < dord y"

section \<open>Characters\<close>

definition is_space :: "u8 \<Rightarrow> bool" where
  "is_space c \<longleftrightarrow> c = 32 \<or> (9 \<le> c \<and> c \<le> 13)"

definition is_digit :: "u8 \<Rightarrow> bool" where
  "is_digit c \<longleftrightarrow> 48 \<le> c \<and> c \<le> 57"

definition digit_val :: "u8 \<Rightarrow> nat" where
  "digit_val c = unat c - 48"

definition to_lower :: "u8 \<Rightarrow> u8" where
  "to_lower c = (if 65 \<le> c \<and> c \<le> 90 then c + 32 else c)"

definition is_xdigit :: "u8 \<Rightarrow> bool" where
  "is_xdigit c \<longleftrightarrow> is_digit c \<or> (97 \<le> to_lower c \<and> to_lower c \<le> 102)"

definition xdigit_val :: "u8 \<Rightarrow> nat" where
  "xdigit_val c = (if is_digit c then unat c - 48 else unat (to_lower c) - 87)"

definition digits_val :: "bytes \<Rightarrow> nat" where
  "digits_val ds = foldl (\<lambda>n c. 10 * n + digit_val c) 0 ds"

definition xdigits_val :: "bytes \<Rightarrow> nat" where
  "xdigits_val ds = foldl (\<lambda>n c. 16 * n + xdigit_val c) 0 ds"

text \<open>The C string that \<open>c_str()\<close> yields ends at the first NUL.\<close>

definition c_str :: "bytes \<Rightarrow> bytes" where
  "c_str s = takeWhile (\<lambda>c. c \<noteq> 0) s"

text \<open>White space and sign: whether negative, the rest, and how many characters.\<close>

definition skip_space :: "bytes \<Rightarrow> bytes" where
  "skip_space s = dropWhile is_space s"

definition read_sign :: "bytes \<Rightarrow> bool \<times> bytes" where
  "read_sign s =
     (case s of
        [] \<Rightarrow> (False, [])
      | c # cs \<Rightarrow> if c = 45 then (True, cs) else if c = 43 then (False, cs) else (False, s))"

section \<open>strtoll\<close>

definition clamp64 :: "int \<Rightarrow> int" where
  "clamp64 x = max (- (2 ^ 63)) (min x (2 ^ 63 - 1))"

definition strtoll :: "bytes \<Rightarrow> int \<times> nat" where
  "strtoll s =
     (let (neg, r) = read_sign (skip_space s);
          ds = takeWhile is_digit r
      in if ds = [] then (0, 0)
         else (clamp64 (if neg then - int (digits_val ds) else int (digits_val ds)),
               length s - length r + length ds))"

definition str2int :: "bytes \<Rightarrow> int option" where
  "str2int s =
     (let (out, endp) = strtoll (c_str s)
      in if endp = length s then Some out else None)"

section \<open>strtod\<close>

text \<open>
  The double nearest to \<open>num / den\<close>, ties to even: the exponent \<open>e\<close> puts the quotient between
  \<open>2 ^ 52\<close> and \<open>2 ^ 53\<close> unless the number is subnormal. The representation is the quotient plus
  the exponent at bit 52, and a carry of the rounding moves to the next exponent by itself.
\<close>

fun log2_nat :: "nat \<Rightarrow> nat" where
  "log2_nat n = (if n < 2 then 0 else Suc (log2_nat (n div 2)))"

declare log2_nat.simps [simp del]

definition ratio_exponent :: "nat \<Rightarrow> nat \<Rightarrow> int" where
  "ratio_exponent num den =
     (let l = int (log2_nat num) - int (log2_nat den);
          below = (if 0 \<le> l then num < den * 2 ^ nat l else num * 2 ^ nat (- l) < den)
      in if below then l - 1 else l)"

definition round_ratio :: "nat \<Rightarrow> nat \<Rightarrow> nat" where
  "round_ratio num den =
     (let q = num div den; r = num mod den
      in if 2 * r > den \<or> (2 * r = den \<and> odd q) then q + 1 else q)"

definition dbl_of_ratio :: "nat \<Rightarrow> nat \<Rightarrow> u64" where
  "dbl_of_ratio num den =
     (if num = 0 then 0
      else
        let e = max (ratio_exponent num den - 52) (- 1074);
            q = (if 0 \<le> e then round_ratio num (den * 2 ^ nat e) else round_ratio (num * 2 ^ nat (- e)) den)
        in of_nat (min (nat (e + 1074) * 2 ^ 52 + q) 0x7ff0000000000000))"

definition with_sign :: "bool \<Rightarrow> u64 \<Rightarrow> u64" where
  "with_sign neg x = (if neg then x OR 0x8000000000000000 else x)"

text \<open>An exponent part after the marker \<open>mark\<close>: its value and length, or nothing at all.\<close>

definition read_exponent :: "u8 \<Rightarrow> bytes \<Rightarrow> int \<times> nat" where
  "read_exponent mark s =
     (case s of
        [] \<Rightarrow> (0, 0)
      | c # cs \<Rightarrow>
          if to_lower c \<noteq> mark then (0, 0)
          else
            let (neg, r) = read_sign cs; ds = takeWhile is_digit r
            in if ds = [] then (0, 0)
               else (if neg then - int (digits_val ds) else int (digits_val ds),
                     1 + (length cs - length r) + length ds))"

text \<open>Digits, a point and more digits: both digit strings, and the characters they take.\<close>

definition read_mantissa :: "(u8 \<Rightarrow> bool) \<Rightarrow> bytes \<Rightarrow> bytes \<times> bytes \<times> nat" where
  "read_mantissa p s =
     (let ip = takeWhile p s; r = dropWhile p s
      in case r of
           [] \<Rightarrow> (ip, [], length ip)
         | c # cs \<Rightarrow>
             if c = 46 \<and> (ip \<noteq> [] \<or> takeWhile p cs \<noteq> [])
             then (ip, takeWhile p cs, length ip + 1 + length (takeWhile p cs))
             else (ip, [], length ip))"

definition read_decimal :: "bytes \<Rightarrow> u64 \<times> nat" where
  "read_decimal s =
     (let (ip, fp, n) = read_mantissa is_digit s
      in if ip = [] \<and> fp = [] then (0, 0)
         else
           let (e, m) = read_exponent 101 (drop n s);
               e = e - int (length fp);
               k = digits_val (ip @ fp)
           in (if 0 \<le> e then dbl_of_ratio (k * 10 ^ nat e) 1 else dbl_of_ratio k (10 ^ nat (- e)), n + m))"

text \<open>The text after \<open>0x\<close>.\<close>

definition read_hex :: "bytes \<Rightarrow> u64 \<times> nat" where
  "read_hex s =
     (let (ip, fp, n) = read_mantissa is_xdigit s
      in if ip = [] \<and> fp = [] then (0, 0)
         else
           let (e, m) = read_exponent 112 (drop n s);
               e = e - 4 * int (length fp);
               k = xdigits_val (ip @ fp)
           in (if 0 \<le> e then dbl_of_ratio (k * 2 ^ nat e) 1 else dbl_of_ratio k (2 ^ nat (- e)), n + m))"

definition starts_ci :: "string \<Rightarrow> bytes \<Rightarrow> bool" where
  "starts_ci w s \<longleftrightarrow> map to_lower (take (length w) s) = lit w"

text \<open>After \<open>nan\<close>, a parenthesised sequence of letters, digits and underscores belongs to the number.\<close>

definition is_nan_char :: "u8 \<Rightarrow> bool" where
  "is_nan_char c \<longleftrightarrow> is_digit c \<or> (97 \<le> to_lower c \<and> to_lower c \<le> 122) \<or> c = 95"

definition nan_payload :: "bytes \<Rightarrow> nat" where
  "nan_payload s =
     (case s of
        [] \<Rightarrow> 0
      | c # cs \<Rightarrow>
          if c = 40 \<and> take 1 (dropWhile is_nan_char cs) = [41]
          then 2 + length (takeWhile is_nan_char cs) else 0)"

definition dbl_nan :: u64 where
  "dbl_nan = 0x7ff8000000000000"

definition strtod :: "bytes \<Rightarrow> u64 \<times> nat" where
  "strtod s =
     (let (neg, r) = read_sign (skip_space s);
          n = length s - length r;
          (x, m) =
            (if starts_ci ''infinity'' r then (dbl_inf, 8)
             else if starts_ci ''inf'' r then (dbl_inf, 3)
             else if starts_ci ''nan'' r then (dbl_nan, 3 + nan_payload (drop 3 r))
             else if starts_ci ''0x'' r \<and> snd (read_hex (drop 2 r)) > 0 then
               (fst (read_hex (drop 2 r)), 2 + snd (read_hex (drop 2 r)))
             else read_decimal r)
      in if m = 0 then (0, 0) else (with_sign neg x, n + m))"

definition str2dbl :: "bytes \<Rightarrow> u64 option" where
  "str2dbl s =
     (let (out, endp) = strtod (c_str s)
      in if endp = length s \<and> \<not> isnan out then Some out else None)"

end
