(* ===== verification/NumberProps.thy ===== *)
theory NumberProps
  imports Numbers
begin

text \<open>What \<open>str2int\<close> of server.cpp makes of decimal numbers of any size, and of the empty string.\<close>

text \<open>The decimal digits of a number, most significant first.\<close>

fun dec_digits :: "nat \<Rightarrow> bytes" where
  "dec_digits n = (if n < 10 then [of_nat (48 + n)] else dec_digits (n div 10) @ [of_nat (48 + n mod 10)])"

declare dec_digits.simps [simp del]

lemma digit_byte:
  assumes "d < 10"
  shows "is_digit (of_nat (48 + d))" "digit_val (of_nat (48 + d)) = d"
proof -
  have "unat (of_nat (48 + d) :: u8) = 48 + d"
    using assms by (simp only: unat_of_nat) simp
  then show "is_digit (of_nat (48 + d))" "digit_val (of_nat (48 + d)) = d"
    using assms by (simp_all add: is_digit_def digit_val_def word_le_nat_alt)
qed

lemma dec_digits_ok: "dec_digits n \<noteq> [] \<and> list_all is_digit (dec_digits n) \<and> digits_val (dec_digits n) = n"
proof (induction n rule: dec_digits.induct)
  case (1 n)
  show ?case
  proof (cases "n < 10")
    case True
    then show ?thesis
      using digit_byte [of n] by (simp add: dec_digits.simps [of n] digits_val_def)
  next
    case False
    then show ?thesis
      using 1 digit_byte [of "n mod 10"] by (simp add: dec_digits.simps [of n] digits_val_def)
  qed
qed

lemma digit_kind:
  assumes "is_digit c"
  shows "\<not> is_space c" "c \<noteq> 0" "c \<noteq> 45" "c \<noteq> 43"
proof -
  have "48 \<le> unat c"
    using assms by (simp add: is_digit_def word_le_nat_alt)
  then show "\<not> is_space c" "c \<noteq> 0" "c \<noteq> 45" "c \<noteq> 43"
    by (auto simp: is_space_def word_le_nat_alt)
qed

lemma str2int_digits:
  assumes "ds \<noteq> []" "list_all is_digit ds"
  shows "str2int ds = Some (clamp64 (int (digits_val ds)))" "str2int (45 # ds) = Some (clamp64 (- int (digits_val ds)))"
proof -
  obtain c cs where ds: "ds = c # cs"
    using assms(1) by (cases ds) auto
  have c: "\<not> is_space c" "c \<noteq> 45" "c \<noteq> 43" and all: "\<forall>x \<in> set ds. is_digit x \<and> x \<noteq> 0"
    using assms(2) digit_kind by (auto simp: ds list_all_iff)
  have t: "takeWhile is_digit ds = ds" "takeWhile (\<lambda>x. x \<noteq> 0) ds = ds" "takeWhile (\<lambda>x. x \<noteq> 0) (45 # ds) = 45 # ds"
    using all by auto
  have s: "\<not> is_space 45"
    by (simp add: is_space_def)
  show "str2int ds = Some (clamp64 (int (digits_val ds)))"
    using t(1,2) c assms(1) by (simp add: str2int_def strtoll_def c_str_def skip_space_def read_sign_def ds)
  show "str2int (45 # ds) = Some (clamp64 (- int (digits_val ds)))"
    using t assms(1) s by (simp add: str2int_def strtoll_def c_str_def skip_space_def read_sign_def del: takeWhile_eq_all_conv)
qed

section \<open>Properties\<close>

text \<open>C31: \<open>str2int\<close> reads back every decimal number, signed or not; one that does not fit into 64 bits is not refused but
  becomes the nearest end of the range, and the empty string is accepted as 0.\<close>

theorem str2int_decimal:
  "str2int (dec_digits n) = Some (max (- (2 ^ 63)) (min (int n) (2 ^ 63 - 1)))
    \<and> str2int (45 # dec_digits n) = Some (max (- (2 ^ 63)) (min (- int n) (2 ^ 63 - 1)))
    \<and> str2int [] = Some 0"
proof -
  have "str2int [] = Some 0"
    by (simp add: str2int_def strtoll_def c_str_def skip_space_def read_sign_def)
  then show ?thesis
    using str2int_digits [of "dec_digits n"] dec_digits_ok [of n] by (simp add: clamp64_def)
qed

end
