(* ===== verification/AvlSearch.thy ===== *)
theory AvlSearch
  imports AvlOffset
begin

text \<open>
  Descending an AVL tree by a comparison, shared by the insertion and the search of zset.cpp
  and by the insertion of test_offset.cpp: where the descent ends, what lies left and right of
  that place, and attaching a fresh leaf there and rebalancing with \<open>avl_fix\<close>.
\<close>

section \<open>The end of a descent\<close>

text \<open>\<open>p\<close> says of a node whether to go left there.\<close>

fun descend :: "('a \<Rightarrow> bool) \<Rightarrow> 'a atree \<Rightarrow> ('a \<times> u32 \<times> u32) frame list \<Rightarrow> ('a \<times> u32 \<times> u32) frame list" where
  "descend p Leaf fs = fs"
| "descend p (Node l x r) fs =
     (if p (fst x) then descend p l (InL x r # fs) else descend p r (InR l x # fs))"

fun seek :: "('a \<Rightarrow> bool) \<Rightarrow> 'a atree \<Rightarrow> 'a option \<Rightarrow> 'a option" where
  "seek p Leaf found = found"
| "seek p (Node l x r) found = (if p (fst x) then seek p l (Some (fst x)) else seek p r found)"

lemma plug_descend [simp]: "plug Leaf (descend p t fs) = plug t fs"
  by (induction t arbitrary: fs) auto

text \<open>Once the comparison holds it holds for all later nodes.\<close>

abbreviation upward :: "('a \<Rightarrow> bool) \<Rightarrow> 'a list \<Rightarrow> bool" where
  "upward p xs \<equiv> sorted_wrt (\<lambda>x y. p x \<longrightarrow> p y) xs"

lemma filter_all: "\<forall>x \<in> set xs. p x \<Longrightarrow> filter p xs = xs" "\<forall>x \<in> set xs. \<not> p x \<Longrightarrow> filter p xs = []"
  by (auto simp: filter_id_conv filter_empty_conv)

lemma descend_sides:
  assumes "upward p (nodes t)"
  shows "lefts (descend p t fs) = lefts fs @ filter (\<lambda>x. \<not> p x) (nodes t)"
    and "rights (descend p t fs) = filter p (nodes t) @ rights fs"
proof -
  have "lefts (descend p t fs) = lefts fs @ filter (\<lambda>x. \<not> p x) (nodes t)
      \<and> rights (descend p t fs) = filter p (nodes t) @ rights fs"
    using assms
  proof (induction t arbitrary: fs)
    case (Node l x r)
    show ?case
    proof (cases "p (fst x)")
      case True
      then have "\<forall>y \<in> set (nodes r). p y"
        using Node.prems by (auto simp: sorted_wrt_append)
      then show ?thesis
        using True Node by (auto simp: sorted_wrt_append filter_all)
    next
      case False
      then have "\<forall>y \<in> set (nodes l). \<not> p y"
        using Node.prems by (auto simp: sorted_wrt_append)
      then show ?thesis
        using False Node filter_all(1) [of "nodes l" "\<lambda>x. \<not> p x"] filter_all(2) [of "nodes l" p]
        by (auto simp: sorted_wrt_append)
    qed
  qed simp
  then show "lefts (descend p t fs) = lefts fs @ filter (\<lambda>x. \<not> p x) (nodes t)"
    "rights (descend p t fs) = filter p (nodes t) @ rights fs"
    by simp_all
qed

lemma seek_first:
  assumes "upward p (nodes t)"
  shows "seek p t found = (case filter p (nodes t) of [] \<Rightarrow> found | x # _ \<Rightarrow> Some x)"
  using assms
proof (induction t arbitrary: found)
  case (Node l x r)
  show ?case
  proof (cases "p (fst x)")
    case True
    then show ?thesis
      using Node by (auto simp: sorted_wrt_append split: list.splits)
  next
    case False
    then have "filter p (nodes l) = []"
      using Node.prems by (auto simp: sorted_wrt_append filter_empty_conv)
    then show ?thesis
      using False Node by (auto simp: sorted_wrt_append)
  qed
qed simp

section \<open>Attaching a fresh node\<close>

definition fresh_node :: avlnode where
  "fresh_node = \<lparr>n_parent = None, n_left = None, n_right = None, n_height = 1, n_cnt = 1\<rparr>"

abbreviation leaf_node :: "'a \<Rightarrow> 'a atree" where
  "leaf_node a \<equiv> Node Leaf (a, 1, 1) Leaf"

lemma attach_leaf:
  assumes t: "tree_at m None (plug Leaf fs)" and d: "distinct (lefts fs @ rights fs)"
    and a: "a \<notin> around fs" "m a = Some fresh_node"
  shows "\<exists>m1 m2. wr_from m (slot_of fs) (Some a) = Some m1
    \<and> wr (set_parent (up_ptr fs)) m1 (Some a) = Some m2
    \<and> tree_at m2 None (plug (leaf_node a) fs) \<and> same_except m m2 (insert a (around fs))"
proof -
  have "ctx_at m None fs"
    using t by (simp add: tree_at_plug)
  from wr_from_run [OF this d, of "Some a"] obtain m1 where
    m1: "wr_from m (slot_of fs) (Some a) = Some m1" "ctx_at m1 (Some a) fs" "same_except m m1 (around fs)"
    by blast
  then have "m1 a = Some fresh_node"
    using a same_exceptD by metis
  let ?m2 = "m1(a \<mapsto> fresh_node\<lparr>n_parent := up_ptr fs\<rparr>)"
  have "wr (set_parent (up_ptr fs)) m1 (Some a) = Some ?m2"
    using \<open>m1 a = _\<close> by (simp add: mem_simps)
  moreover have "tree_at ?m2 None (plug (leaf_node a) fs)"
    using m1(2) a(1) by (simp add: tree_at_plug fresh_node_def)
  moreover have "same_except m ?m2 (insert a (around fs))"
    using m1(3) by (auto simp: same_except_def)
  ultimately show ?thesis
    using m1(1) by blast
qed

text \<open>The place of the descent, a write through it, and the walk of \<open>avl_fix\<close> to the root.\<close>

lemma insert_leaf:
  assumes t: "tree_at m None t" and u: "upward p (nodes t)" and d: "distinct (a # nodes t)"
    and a: "m a = Some fresh_node" and h: "hle K t" "K + 2 * size t + 3 < 2 ^ 32"
  defines "fs \<equiv> descend p t []"
  defines "t' \<equiv> fix_up (leaf_node a) fs"
  shows "\<exists>m1 m2 m3. wr_from m (slot_of fs) (Some a) = Some m1
    \<and> wr (set_parent (up_ptr fs)) m1 (Some a) = Some m2
    \<and> avl_fix m2 (Some a) = Some (m3, root t')
    \<and> tree_at m3 None t' \<and> same_except m m3 (set (nodes t'))
    \<and> nodes t' = filter (\<lambda>x. \<not> p x) (nodes t) @ a # filter p (nodes t)
    \<and> hle (K + 2 * size t + 3) t'"
proof -
  have fs: "plug Leaf fs = t" "lefts fs = filter (\<lambda>x. \<not> p x) (nodes t)" "rights fs = filter p (nodes t)"
    using descend_sides [OF u, of "[]"] by (simp_all add: fs_def)
  have nodes': "nodes t' = filter (\<lambda>x. \<not> p x) (nodes t) @ a # filter p (nodes t)"
    by (simp add: t'_def fs)
  have d': "distinct (lefts fs @ rights fs)" "a \<notin> around fs"
    using d fs by auto
  obtain m1 m2 where m12: "wr_from m (slot_of fs) (Some a) = Some m1"
    "wr (set_parent (up_ptr fs)) m1 (Some a) = Some m2"
    "tree_at m2 None (plug (leaf_node a) fs)" "same_except m m2 (insert a (around fs))"
    using attach_leaf [of m fs a] t d' a fs(1) by auto
  have dn: "distinct (nodes (plug (leaf_node a) fs))"
    using d' by auto
  have len: "length fs \<le> size t"
    using length_path [of fs Leaf] fs(1) by (simp add: size_plug)
  have hl: "hle (Suc K) (plug (leaf_node a) fs)"
    using h(1) fs(1) hle_plug [of K Leaf fs] hle_ctx_mono [of K fs "Suc K"]
    by (simp add: hle_plug)
  have "computes (avl_fix m2 (root (leaf_node a))) m2 None (plug (leaf_node a) fs) t'"
    unfolding t'_def using m12(3) dn hl h(2) len by (intro avl_fix_computes [where K = "Suc K"]) auto
  then obtain m3 where m3: "avl_fix m2 (Some a) = Some (m3, root t')" "tree_at m3 None t'"
    "same_except m2 m3 (set (nodes (plug (leaf_node a) fs)))"
    by (auto elim: computesE)
  have "set (nodes (plug (leaf_node a) fs)) = set (nodes t')" "insert a (around fs) \<subseteq> set (nodes t')"
    using nodes' fs by auto
  then have "same_except m m3 (set (nodes t'))"
    using same_except_trans [OF m12(4) m3(3)] by simp
  moreover have "hle (K + 2 * size t + 3) t'"
    using hle_fix_up [OF hl] h(2) len unfolding t'_def by (auto elim!: hle_mono)
  ultimately show ?thesis
    using m12 m3 nodes' by blast
qed

section \<open>Taking a node out\<close>

text \<open>No operation of avl.cpp makes a live node dead.\<close>

definition lives :: "addr \<Rightarrow> avlmem \<Rightarrow> bool" where
  "lives a m \<longleftrightarrow> m a \<noteq> None"

lemma wr_lives: "wr f m p = Some m' \<Longrightarrow> lives a m \<Longrightarrow> lives a m'"
  by (auto simp: wr_def lives_def split: option.splits)

lemma wr_from_lives: "wr_from m s p = Some m' \<Longrightarrow> lives a m \<Longrightarrow> lives a m'"
  by (auto simp: wr_from_def intro: wr_lives split: from_slot.splits)

lemma avl_update_lives: "avl_update m p = Some m' \<Longrightarrow> lives a m \<Longrightarrow> lives a m'"
  unfolding avl_update_def by (auto split: bind_splits intro: wr_lives)

lemma rot_lives:
  "rot_left m p = Some (m', r) \<Longrightarrow> lives a m \<Longrightarrow> lives a m'"
  "rot_right m p = Some (m', r) \<Longrightarrow> lives a m \<Longrightarrow> lives a m'"
  unfolding rot_left_def rot_right_def
  by (auto split: bind_splits if_splits simp del: not_None_eq; (drule (1) wr_lives avl_update_lives)+; assumption)+

lemma avl_fix_sides_lives:
  "avl_fix_left m p = Some (m', r) \<Longrightarrow> lives a m \<Longrightarrow> lives a m'"
  "avl_fix_right m p = Some (m', r) \<Longrightarrow> lives a m \<Longrightarrow> lives a m'"
  unfolding avl_fix_left_def avl_fix_right_def
  by (auto split: bind_splits if_splits; (drule (1) wr_lives rot_lives)+; assumption)+

lemma avl_fix_lives: "avl_fix m p = Some mr \<Longrightarrow> lives a m \<longrightarrow> lives a (fst mr)"
proof (rule avl_fix.raw_induct [where P = "\<lambda>m p mr. lives a m \<longrightarrow> lives a (fst mr)"])
  fix f :: "avlmem \<Rightarrow> ptr \<Rightarrow> (avlmem \<times> ptr) option" and m node mr
  assume IH: "\<And>m p mr. f m p = Some mr \<Longrightarrow> lives a m \<longrightarrow> lives a (fst mr)"
  assume run: "do {
     parent \<leftarrow> rd n_parent m node;
     from \<leftarrow> child_slot m parent node;
     m \<leftarrow> avl_update m node;
     l \<leftarrow> rd n_left m node;
     r \<leftarrow> rd n_right m node;
     hl \<leftarrow> avl_height m l;
     hr \<leftarrow> avl_height m r;
     (m, res) \<leftarrow> (if hl = hr + 2 then do {
                     (m, t) \<leftarrow> avl_fix_left m node;
                     m \<leftarrow> wr_from m from t;
                     Some (m, t)
                   } else if hl + 2 = hr then do {
                     (m, t) \<leftarrow> avl_fix_right m node;
                     m \<leftarrow> wr_from m from t;
                     Some (m, t)
                   } else Some (m, node));
     if parent = None then Some (m, res) else f m parent
   } = Some mr"
  show "lives a m \<longrightarrow> lives a (fst mr)"
  proof
    assume "lives a m"
    obtain parent slot m1 m2 res where st: "avl_update m node = Some m1"
      "m2 = m1 \<or> (\<exists>m' t. (avl_fix_left m1 node = Some (m', t) \<or> avl_fix_right m1 node = Some (m', t))
         \<and> wr_from m' slot t = Some m2)"
      "(if parent = None then Some (m2, res) else f m2 parent) = Some mr"
      using run by (simp add: bind_eq_Some_conv split_beta split: if_splits del: not_None_eq) metis+
    have "lives a m1"
      using st(1) \<open>lives a m\<close> by (rule avl_update_lives)
    then have "lives a m2"
      using st(2) avl_fix_sides_lives wr_from_lives by metis
    then show "lives a (fst mr)"
      using st(3) by (auto split: if_splits dest: IH)
  qed
qed

lemma avl_del_easy_lives: "avl_del_easy m p = Some (m', r) \<Longrightarrow> lives a m \<Longrightarrow> lives a m'"
  unfolding avl_del_easy_def Let_def
  by (auto split: bind_splits if_splits dest!: avl_fix_lives [where a = a]
      intro: wr_lives wr_from_lives simp del: not_None_eq)

lemma avl_del_lives: "avl_del m p = Some (m', r) \<Longrightarrow> lives a m \<Longrightarrow> lives a m'"
  unfolding avl_del_def Let_def
  by (auto split: bind_splits if_splits intro: avl_del_easy_lives simp del: not_None_eq;
      (drule (1) avl_del_easy_lives wr_lives wr_from_lives)+; assumption)

lemma hle_relabel: "hle K t \<Longrightarrow> unat h \<le> K \<Longrightarrow> hle K (relabel a (b, h, c) t)"
  by (induction K t rule: hle.induct) (auto simp: relabel_def)

lemma hle_detach_up:
  assumes "hle K (plug t fs)" "K + 2 * length fs + 2 < 2 ^ 32"
  shows "hle (K + 2 * length fs) (detach_up t fs)"
proof (cases fs)
  case Nil
  then show ?thesis
    using assms by simp
next
  case (Cons f gs)
  then show ?thesis
    using hle_fix_up [of K "plug1 t f" gs] assms by simp
qed

lemma hle_del_at:
  assumes "hle K (plug (Node l (a, h, c) r) fs)" "K + 2 * size (plug (Node l (a, h, c) r) fs) + 2 < 2 ^ 32"
  shows "hle (K + 2 * size (plug (Node l (a, h, c) r) fs)) (del_at (Node l (a, h, c) r) fs)"
proof -
  let ?t = "plug (Node l (a, h, c) r) fs"
  have len: "length fs \<le> size ?t"
    by (rule length_path)
  have sub: "hle K l" "hle K r" "hle_ctx K fs" "unat h \<le> K"
    using assms(1) by (simp_all add: hle_plug)
  have easy: "hle (K + 2 * size ?t) (detach_up s fs)" if "hle K s" for s
    using hle_detach_up [of K s fs] that sub(3) assms(2) len hle_mono by (fastforce simp: hle_plug)
  show ?thesis
  proof (cases "l = Leaf \<or> r = Leaf")
    case True
    then show ?thesis
      using easy sub by auto
  next
    case False
    then obtain v vr gs where v: "leftmost_path r (InR l (a, h, c) # fs) = (Node Leaf v vr, gs @ InR l (a, h, c) # fs)"
      "plug (Node Leaf v vr) (gs @ InR l (a, h, c) # fs) = plug r (InR l (a, h, c) # fs)"
      using leftmost_path_spec [of r "InR l (a, h, c) # fs"] by blast
    let ?gs = "gs @ InR l (a, h, c) # fs"
    obtain b hb cb where b: "v = (b, hb, cb)" by (cases v) auto
    have t: "plug (Node Leaf v vr) ?gs = ?t"
      using v(2) by simp
    have hv: "hle K (Node Leaf v vr)" "hle_ctx K ?gs"
      using assms(1) unfolding t [symmetric] hle_plug by auto
    have "length ?gs \<le> size ?t"
      using length_path [of ?gs "Node Leaf v vr"] t by simp
    then have "hle (K + 2 * size ?t) (detach_up vr ?gs)"
      using hle_detach_up [of K vr ?gs] hv assms(2) b hle_mono by (fastforce simp: hle_plug)
    then have "hle (K + 2 * size ?t) (relabel a v (detach_up vr ?gs))"
      using hv(1) unfolding b by (intro hle_relabel) auto
    then show ?thesis
      using False v(1) by simp
  qed
qed

lemma filter_neq_split: "distinct (xs @ a # ys) \<Longrightarrow> filter (\<lambda>b. b \<noteq> a) (xs @ a # ys) = xs @ ys"
proof -
  assume "distinct (xs @ a # ys)"
  then have "\<forall>b \<in> set xs. b \<noteq> a" "\<forall>b \<in> set ys. b \<noteq> a"
    by auto
  from this [THEN filter_all(1)] show ?thesis
    by simp
qed

lemma avl_del_ok:
  assumes t: "tree_at m None t" "distinct (nodes t)" "a \<in> set (nodes t)"
    and h: "hle K t" "K + 2 * size t + 2 < 2 ^ 32"
  shows "\<exists>m' t'. avl_del m (Some a) = Some (m', root t') \<and> tree_at m' None t'
    \<and> nodes t' = filter (\<lambda>b. b \<noteq> a) (nodes t) \<and> same_except m m' (set (nodes t)) \<and> m' a \<noteq> None
    \<and> hle (K + 2 * size t) t'"
proof -
  obtain l h c r fs where f: "t = plug (Node l (a, h, c) r) fs"
    using focus [OF t(3)] by blast
  let ?t' = "del_at (Node l (a, h, c) r) fs"
  have "computes (avl_del m (Some a)) m None t ?t'"
    unfolding f by (rule avl_del_computes) (use t h in \<open>simp_all add: f\<close>)
  then obtain m' where m': "avl_del m (Some a) = Some (m', root ?t')" "tree_at m' None ?t'"
    "same_except m m' (set (nodes t))"
    by (rule computesE)
  have "nodes ?t' = filter (\<lambda>b. b \<noteq> a) (nodes t)"
    using nodes_del_at [of l "(a, h, c)" r fs] t(2)
      filter_neq_split [of "lefts fs @ nodes l" a "nodes r @ rights fs"] by (simp add: f)
  moreover have "hle (K + 2 * size t) ?t'"
    using hle_del_at [of K l a h c r fs] h by (simp add: f)
  moreover have "m a \<noteq> None"
    using tree_at_dom [OF t(1,3)] by auto
  then have "m' a \<noteq> None"
    using avl_del_lives [OF m'(1), of a] by (simp add: lives_def)
  ultimately show ?thesis
    using m' by blast
qed

section \<open>Properties\<close>

text \<open>A perfect tree of the addresses 0 to 6, and the memory that holds it.\<close>

definition tree7 :: "addr atree" where
  "tree7 = Node (Node (leaf_node 0) (1, 2, 3) (leaf_node 2)) (3, 3, 7) (Node (leaf_node 4) (5, 2, 3) (leaf_node 6))"

definition cell :: "ptr \<Rightarrow> ptr \<Rightarrow> ptr \<Rightarrow> u32 \<Rightarrow> u32 \<Rightarrow> avlnode" where
  "cell p l r h c = \<lparr>n_parent = p, n_left = l, n_right = r, n_height = h, n_cnt = c\<rparr>"

definition mem7 :: avlmem where
  "mem7 = [0 \<mapsto> cell (Some 1) None None 1 1, 1 \<mapsto> cell (Some 3) (Some 0) (Some 2) 2 3,
     2 \<mapsto> cell (Some 1) None None 1 1, 3 \<mapsto> cell None (Some 1) (Some 5) 3 7,
     4 \<mapsto> cell (Some 5) None None 1 1, 5 \<mapsto> cell (Some 3) (Some 4) (Some 6) 2 3,
     6 \<mapsto> cell (Some 5) None None 1 1]"

lemma mem7_tree: "tree_at mem7 None tree7" "nodes tree7 = [0, 1, 2, 3, 4, 5, 6]" "counted tree7" "hle 3 tree7" "size tree7 = 7"
  by (simp_all add: mem7_def tree7_def cell_def)

text \<open>C12: After a leaf is linked into a height-balanced tree, \<open>avl_fix\<close> walks to the root, returns the new root, and
  leaves a tree that is balanced, has right height and count fields everywhere, right parent
  pointers, and the same nodes in the same order; it touches no other memory.\<close>

theorem avl_fix_balances:
  assumes "tree_at m None (plug (leaf_node a) fs)" "avl (plug Leaf fs)"
    and "distinct (nodes (plug (leaf_node a) fs))" "size (plug Leaf fs) < 2 ^ 30"
  shows "\<exists>m' t'. avl_fix m (Some a) = Some (m', root t') \<and> tree_at m' None t' \<and> avl t'
    \<and> nodes t' = nodes (plug (leaf_node a) fs) \<and> same_except m m' (set (nodes t'))"
proof -
  let ?t = "plug (leaf_node a) fs"
  have "hle (size (plug Leaf fs)) (plug Leaf fs)"
    using assms(2,4) by (intro avl_hle) (simp_all add: small_def)
  then have h: "hle (Suc (size (plug Leaf fs))) ?t"
    using hle_ctx_mono [of "size (plug Leaf fs)" fs "Suc (size (plug Leaf fs))"] by (simp add: hle_plug)
  have "length fs \<le> size (plug Leaf fs)"
    by (rule length_path)
  then have "computes (avl_fix m (root (leaf_node a))) m None ?t (fix_up (leaf_node a) fs)"
    using assms(4) by (intro avl_fix_computes [OF assms(1) _ assms(3) h]) simp_all
  then obtain m' where "avl_fix m (Some a) = Some (m', root (fix_up (leaf_node a) fs))"
    "tree_at m' None (fix_up (leaf_node a) fs)" "same_except m m' (set (nodes ?t))"
    by (auto elim: computesE)
  moreover have "avl (fix_up (leaf_node a) fs)"
    using assms(2,4) by (intro avl_insert_at) simp_all
  ultimately show ?thesis
    by (intro exI [of _ m'] exI [of _ "fix_up (leaf_node a) fs"]) simp
qed

lemma avl_fix_balances_witness:
  "\<exists>m' t'. avl_fix [0 \<mapsto> cell None None (Some 1) 2 2, 1 \<mapsto> cell (Some 0) None (Some 2) 1 1, 2 \<mapsto> cell (Some 1) None None 1 1]
      (Some 2) = Some (m', root t') \<and> tree_at m' None t' \<and> avl t' \<and> nodes t' = [0, 1, 2]"
  using avl_fix_balances [of "[0 \<mapsto> cell None None (Some 1) 2 2, 1 \<mapsto> cell (Some 0) None (Some 2) 1 1, 2 \<mapsto> cell (Some 1) None None 1 1]"
      2 "[InR Leaf (1, 1, 1), InR Leaf (0, 2, 2)]"]
  by (auto simp: cell_def)

text \<open>\<open>avl_del\<close> takes exactly the given node out: the result is a well-linked tree whose in-order sequence is
  the old one without that node, and no memory outside the tree changes. This holds whatever the
  stored heights and counts are, as long as they are too small to wrap.\<close>

lemma avl_del_removes:
  assumes "tree_at m None t" "distinct (nodes t)" "a \<in> set (nodes t)"
    and "hle K t" "K + 2 * size t + 2 < 2 ^ 32"
  shows "\<exists>m' t'. avl_del m (Some a) = Some (m', root t') \<and> tree_at m' None t'
    \<and> nodes t' = filter (\<lambda>b. b \<noteq> a) (nodes t) \<and> same_except m m' (set (nodes t))"
  using avl_del_ok [OF assms] by blast

lemma avl_del_removes_witness:
  "\<exists>m' t'. avl_del mem7 (Some 3) = Some (m', root t') \<and> tree_at m' None t' \<and> nodes t' = [0, 1, 2, 4, 5, 6]"
  using avl_del_removes [of mem7 tree7 3 3] mem7_tree by auto

text \<open>C13: On a tree with right counts \<open>avl_offset\<close> is the exact rank query: from the node of rank \<open>i\<close> it returns the
  node of rank \<open>i + offset\<close>, and null when that is outside the tree. It always ends.\<close>

theorem avl_offset_exact:
  assumes "tree_at m None t" "counted t" "size t + 1 < 2 ^ 32" "distinct (nodes t)" "i < size t"
  shows "avl_offset m (Some (nodes t ! i)) offset =
    Some (if 0 \<le> int i + offset \<and> int i + offset < int (size t)
          then Some (nodes t ! nat (int i + offset)) else None)"
  by (rule avl_offset_computes [OF assms])

lemma avl_offset_exact_witness:
  "avl_offset mem7 (Some 5) (- 4) = Some (Some 1) \<and> avl_offset mem7 (Some 5) 2 = Some None"
  using avl_offset_exact [OF mem7_tree(1,3), of 5 "- 4"] avl_offset_exact [OF mem7_tree(1,3), of 5 2] mem7_tree
  by simp

text \<open>When the deleted node has two children its successor takes its place but keeps its own height and count: from
  then on a rank query can miss members. In a perfect tree of seven nodes, after the deletion of
  node 1, the query for the first member from the last one returns null.\<close>

lemma avl_del_leaves_stale_counts:
  "(case avl_del mem7 (Some 1) of
      None \<Rightarrow> False
    | Some (m, r) \<Rightarrow> avl_cnt m (Some 2) = Some 1 \<and> rd n_left m (Some 2) = Some (Some 0)
        \<and> avl_offset m (Some 6) (- 4) = Some (Some 2) \<and> avl_offset m (Some 6) (- 5) = Some None)"
  by code_simp

end
