(* ===== verification/TestOffset.thy ===== *)
theory TestOffset
  imports AvlSearch
begin

text \<open>
  test_offset.cpp: the test program of the AVL tree. It inserts 0, 1, ..., sz - 1 into a tree
  and asserts that \<open>avl_offset\<close> gets from every node to every other and to null outside. A
  failed assertion is \<open>None\<close>.
\<close>

section \<open>The program\<close>

record tmem =
  t_avl :: avlmem
  t_val :: "addr \<rightharpoonup> u32"
  t_next :: addr

definition t_rd :: "tmem \<Rightarrow> ptr \<Rightarrow> u32 option" where
  "t_rd m p = (case p of None \<Rightarrow> None | Some a \<Rightarrow> t_val m a)"

definition new_data :: "tmem \<Rightarrow> u32 \<Rightarrow> (tmem \<times> addr) option" where
  "new_data m val = do {
     let a = t_next m;
     let t = (t_avl m)(a \<mapsto> \<lparr>n_parent = None, n_left = None, n_right = None, n_height = 0, n_cnt = 0\<rparr>);
     t \<leftarrow> avl_init t (Some a);
     Some (m\<lparr>t_avl := t, t_val := (t_val m)(a \<mapsto> val), t_next := a + 1\<rparr>, a)
   }"

partial_function (option) add_loop :: "tmem \<Rightarrow> u32 \<Rightarrow> ptr \<Rightarrow> addr \<Rightarrow> (tmem \<times> ptr) option" where
  "add_loop m val cur data = do {
     cv \<leftarrow> t_rd m cur;
     let from = (if val < cv then FromLeft cur else FromRight cur);
     next \<leftarrow> (if val < cv then rd n_left (t_avl m) cur else rd n_right (t_avl m) cur);
     if next = None then do {
       t \<leftarrow> wr_from (t_avl m) from (Some data);
       t \<leftarrow> wr (set_parent cur) t (Some data);
       (t, root) \<leftarrow> avl_fix t (Some data);
       Some (m\<lparr>t_avl := t\<rparr>, root)
     } else add_loop m val next data
   }"

definition test_add :: "tmem \<times> ptr \<Rightarrow> u32 \<Rightarrow> (tmem \<times> ptr) option" where
  "test_add c val = do {
     let (m, root) = c;
     (m, data) \<leftarrow> new_data m val;
     if root = None then Some (m, Some data) else add_loop m val root data
   }"

partial_function (option) dispose :: "tmem \<Rightarrow> ptr \<Rightarrow> tmem option" where
  "dispose m node =
     (if node = None then Some m
      else do {
        l \<leftarrow> rd n_left (t_avl m) node;
        m \<leftarrow> dispose m l;
        r \<leftarrow> rd n_right (t_avl m) node;
        m \<leftarrow> dispose m r;
        a \<leftarrow> node;
        Some (m\<lparr>t_avl := (t_avl m)(a := None), t_val := (t_val m)(a := None)\<rparr>)
      })"

text \<open>The loop \<open>for (uint32_t i = 0; i < sz; ++i)\<close> with a body that may fail.\<close>

fun for_all :: "nat list \<Rightarrow> (nat \<Rightarrow> unit option) \<Rightarrow> unit option" where
  "for_all [] f = Some ()"
| "for_all (i # is) f = do { _ \<leftarrow> f i; for_all is f }"

fun add_all :: "nat list \<Rightarrow> tmem \<times> ptr \<Rightarrow> (tmem \<times> ptr) option" where
  "add_all [] c = Some c"
| "add_all (i # is) c = do { c \<leftarrow> test_add c (of_nat i); add_all is c }"

definition check_pair :: "tmem \<Rightarrow> ptr \<Rightarrow> nat \<Rightarrow> nat \<Rightarrow> unit option" where
  "check_pair m node i j = do {
     let offset = int j - int i;
     n2 \<leftarrow> avl_offset (t_avl m) node offset;
     v \<leftarrow> t_rd m n2;
     guard (v = of_nat j)
   }"

definition check_node :: "tmem \<Rightarrow> ptr \<Rightarrow> nat \<Rightarrow> nat \<Rightarrow> unit option" where
  "check_node m mn sz i = do {
     node \<leftarrow> avl_offset (t_avl m) mn (int i);
     v \<leftarrow> t_rd m node;
     _ \<leftarrow> guard (v = of_nat i);
     _ \<leftarrow> for_all [0..<sz] (check_pair m node i);
     p \<leftarrow> avl_offset (t_avl m) node (- int i - 1);
     _ \<leftarrow> guard (p = None);
     p \<leftarrow> avl_offset (t_avl m) node (int (sz - i));
     guard (p = None)
   }"

definition test_case :: "nat \<Rightarrow> tmem option" where
  "test_case sz = do {
     (m, root) \<leftarrow> add_all [0..<sz] (\<lparr>t_avl = Map.empty, t_val = Map.empty, t_next = 0\<rparr>, None);
     mn \<leftarrow> find_leftmost (t_avl m) root;
     _ \<leftarrow> for_all [0..<sz] (check_node m mn sz);
     dispose m root
   }"

definition test_main :: "unit option" where
  "test_main = for_all [1..<500] (\<lambda>i. do { _ \<leftarrow> test_case i; Some () })"

section \<open>Its assertions hold\<close>

text \<open>The nodes 0, ..., n - 1 hold these values in this order.\<close>

definition test_inv :: "nat \<Rightarrow> tmem \<times> ptr \<Rightarrow> addr atree \<Rightarrow> bool" where
  "test_inv n c t \<longleftrightarrow>
     (case c of (m, p) \<Rightarrow> tree_at (t_avl m) None t \<and> p = root t \<and> avl t \<and> nodes t = [0..<n]
        \<and> t_next m = n \<and> (\<forall>a < n. t_val m a = Some (of_nat a)))"

lemma add_loop_run:
  fixes val :: u32
  assumes "tree_at (t_avl m) q t" "t \<noteq> Leaf" "\<forall>b \<in> set (nodes t). t_val m b = Some (w b)"
  defines "p \<equiv> \<lambda>b. val < w b"
  shows "add_loop m val (root t) a = do {
      t' \<leftarrow> wr_from (t_avl m) (slot_of (descend p t fs)) (Some a);
      t' \<leftarrow> wr (set_parent (up_ptr (descend p t fs))) t' (Some a);
      (t', root) \<leftarrow> avl_fix t' (Some a);
      Some (m\<lparr>t_avl := t'\<rparr>, root)
    }"
  using assms(1-3)
proof (induction t arbitrary: q fs)
  case (Node l x r)
  obtain b h c where x: "x = (b, h, c)" by (cases x) auto
  have t: "t_avl m b = Some \<lparr>n_parent = q, n_left = root l, n_right = root r, n_height = h, n_cnt = c\<rparr>"
    "tree_at (t_avl m) (Some b) l" "tree_at (t_avl m) (Some b) r" "t_rd m (Some b) = Some (w b)"
    using Node.prems by (auto simp: x t_rd_def)
  show ?case
    using Node.IH(1) [OF t(2), of "InL x r # fs"] Node.IH(2) [OF t(3), of "InR l x # fs"] Node.prems(3) t
    by (subst add_loop.simps) (cases "val < w b"; cases "l = Leaf"; cases "r = Leaf"; simp add: x p_def mem_simps)
qed simp

lemma upward_none: "\<forall>b \<in> set xs. \<not> p b \<Longrightarrow> upward p xs"
  by (induction xs) auto

lemma test_add_ok:
  assumes inv: "test_inv n c t" and n: "n < 2 ^ 30"
  shows "\<exists>c' t'. test_add c (of_nat n) = Some c' \<and> test_inv (Suc n) c' t'"
proof -
  obtain m p where c: "c = (m, p)"
    by (cases c)
  have i: "tree_at (t_avl m) None t" "p = root t" "avl t" "nodes t = [0..<n]" "t_next m = n"
    "\<forall>a < n. t_val m a = Some (of_nat a)"
    using inv by (auto simp: test_inv_def c)
  have sz: "size t = n"
    using length_nodes [of t] i(4) by simp
  define m1 where "m1 = m\<lparr>t_avl := (t_avl m)(n \<mapsto> fresh_node), t_val := (t_val m)(n \<mapsto> of_nat n), t_next := n + 1\<rparr>"
  have new: "new_data m (of_nat n) = Some (m1, n)"
    by (simp add: new_data_def avl_init_def wr_simps m1_def fresh_node_def i(5) Let_def)
  let ?p = "\<lambda>b. (of_nat n :: u32) < of_nat b"
  have no: "\<forall>b \<in> set (nodes t). \<not> ?p b"
    using n i(4) by (auto simp: less_of_nat_u32)
  have up: "upward ?p (nodes t)"
    using no by (rule upward_none)
  have t1: "tree_at (t_avl m1) None t" "t_avl m1 n = Some fresh_node"
    using i(1,4) by (simp_all add: m1_def)
  have h: "hle (size t) t"
    using avl_hle [OF i(3)] n sz by (simp add: small_def)
  let ?fs = "descend ?p t []"
  let ?t = "fix_up (leaf_node n) ?fs"
  have d: "distinct (n # nodes t)"
    by (simp add: i(4))
  have "filter (\<lambda>b. \<not> ?p b) (nodes t) = nodes t" "filter ?p (nodes t) = []"
    using no by (auto simp: filter_id_conv filter_empty_conv)
  then have ord: "nodes ?t = [0..<Suc n]"
    using descend_sides [OF up, of "[]"] by (simp add: i(4))
  have av: "avl ?t"
    using i(3) n sz by (intro avl_insert_at) simp_all
  have vals: "\<forall>a < Suc n. t_val m1 a = Some (of_nat a)"
    using i(6) by (auto simp: m1_def less_Suc_eq)
  show ?thesis
  proof (cases "t = Leaf")
    case True
    have "n = 0"
      using sz True by simp
    moreover have "tree_at (t_avl m1) None (leaf_node n)" "root (leaf_node n) = Some n"
      using t1(2) by (simp_all add: fresh_node_def)
    ultimately have "test_inv (Suc n) (m1, Some n) (leaf_node n)"
      using vals by (simp add: test_inv_def m1_def)
    then show ?thesis
      using True i(2) new by (auto simp: test_add_def c)
  next
    case False
    have K: "size t + 2 * size t + 3 < 2 ^ 32"
      using n sz by simp
    obtain t2 t3 t4 where r: "wr_from (t_avl m1) (slot_of ?fs) (Some n) = Some t2"
      "wr (set_parent (up_ptr ?fs)) t2 (Some n) = Some t3" "avl_fix t3 (Some n) = Some (t4, root ?t)"
      "tree_at t4 None ?t"
      using insert_leaf [OF t1(1) up d t1(2) h K] by blast
    have "\<forall>b \<in> set (nodes t). t_val m1 b = Some (of_nat b)"
      using vals i(4) by auto
    then have "add_loop m1 (of_nat n) (root t) n = Some (m1\<lparr>t_avl := t4\<rparr>, root ?t)"
      using add_loop_run [OF t1(1) False, of "of_nat" "of_nat n" n "[]"] r by simp
    then have "test_add c (of_nat n) = Some (m1\<lparr>t_avl := t4\<rparr>, root ?t)"
      using False i(2) new by (simp add: test_add_def c)
    moreover have "test_inv (Suc n) (m1\<lparr>t_avl := t4\<rparr>, root ?t) ?t"
      using r(4) av ord vals by (simp add: test_inv_def m1_def)
    ultimately show ?thesis
      by blast
  qed
qed

lemma add_all_ok:
  assumes "test_inv n c t" "n + k \<le> 2 ^ 30"
  shows "\<exists>c' t'. add_all [n..<n + k] c = Some c' \<and> test_inv (n + k) c' t'"
  using assms
proof (induction k arbitrary: n c t)
  case 0
  then show ?case
    by auto
next
  case (Suc k)
  obtain c1 t1 where c1: "test_add c (of_nat n) = Some c1" "test_inv (Suc n) c1 t1"
    using test_add_ok [OF Suc.prems(1)] Suc.prems(2) by auto
  obtain c2 t2 where c2: "add_all [Suc n..<Suc n + k] c1 = Some c2" "test_inv (Suc n + k) c2 t2"
    using Suc.IH [OF c1(2)] Suc.prems(2) by auto
  have "[n..<n + Suc k] = n # [Suc n..<Suc n + k]"
    by (simp add: upt_rec)
  then have "add_all [n..<n + Suc k] c = Some c2"
    using c1(1) c2(1) by simp
  then show ?case
    using c2(2) by auto
qed

lemma for_all_ok: "(\<And>i. i \<in> set is \<Longrightarrow> f i = Some ()) \<Longrightarrow> for_all is f = Some ()"
  by (induction "is") auto

lemma leftmost_first: "t \<noteq> Leaf \<Longrightarrow> root (fst (leftmost_path t fs)) = Some (hd (nodes t))"
  by (induction t fs rule: leftmost_path.induct) (auto simp: hd_append)

lemma dispose_ok:
  assumes "tree_at (t_avl m) p t" "distinct (nodes t)"
  shows "\<exists>m'. dispose m (root t) = Some m' \<and> t_avl m' = t_avl m |` (- set (nodes t))
    \<and> t_val m' = t_val m |` (- set (nodes t))"
  using assms
proof (induction t arbitrary: m p)
  case Leaf
  then show ?case
    by (subst dispose.simps) (simp add: restrict_map_def)
next
  case (Node l x r)
  obtain a h c where x: "x = (a, h, c)" by (cases x) auto
  have t: "t_avl m a = Some \<lparr>n_parent = p, n_left = root l, n_right = root r, n_height = h, n_cnt = c\<rparr>"
    "tree_at (t_avl m) (Some a) l" "tree_at (t_avl m) (Some a) r"
    using Node.prems by (auto simp: x)
  have d: "distinct (nodes l)" "distinct (nodes r)" "a \<notin> set (nodes l)" "set (nodes l) \<inter> set (nodes r) = {}"
    using Node.prems(2) by (auto simp: x)
  obtain m1 where m1: "dispose m (root l) = Some m1"
    "t_avl m1 = t_avl m |` (- set (nodes l))" "t_val m1 = t_val m |` (- set (nodes l))"
    using Node.IH(1) [OF t(2) d(1)] by auto
  have "tree_at (t_avl m1) (Some a) r = tree_at (t_avl m) (Some a) r"
    by (rule tree_at_cong) (use m1(2) d(4) in \<open>auto simp: restrict_map_def\<close>)
  then obtain m2 where m2: "dispose m1 (root r) = Some m2"
    "t_avl m2 = t_avl m1 |` (- set (nodes r))" "t_val m2 = t_val m1 |` (- set (nodes r))"
    using Node.IH(2) [of m1 "Some a", OF _ d(2)] t(3) by auto
  have "t_avl m1 a = t_avl m a"
    using m1 d(3) by (simp add: x)
  then have run: "dispose m (root (Node l x r)) =
      Some (m2\<lparr>t_avl := (t_avl m2)(a := None), t_val := (t_val m2)(a := None)\<rparr>)"
    using t(1) m1(1) m2(1) by (subst dispose.simps) (simp add: x mem_simps)
  have restrict: "(f |` (- A) |` (- B))(a := None) = f |` (- (insert a (A \<union> B)))" for f :: "addr \<rightharpoonup> 'z" and A B
    by (auto simp: restrict_map_def fun_eq_iff)
  have set_nodes: "set (nodes (Node l x r)) = insert a (set (nodes l) \<union> set (nodes r))"
    by (auto simp: x)
  show ?case
    unfolding run set_nodes using restrict [of "t_avl m"] restrict [of "t_val m"]
    unfolding m2(2,3) m1(2,3) by (auto simp del: fun_upd_apply restrict_fun_upd fun_upd_restrict_conv restrict_restrict)
qed

lemma check_node_ok:
  assumes inv: "test_inv sz (m, root t) t" and i: "i < sz" and sz: "sz \<le> 2 ^ 30"
  shows "check_node m (Some 0) sz i = Some ()"
proof -
  have t: "tree_at (t_avl m) None t" "avl t" "nodes t = [0..<sz]" "\<forall>a < sz. t_val m a = Some (of_nat a)"
    using inv by (auto simp: test_inv_def)
  have n: "size t = sz"
    using length_nodes [of t] t(3) by simp
  have off: "avl_offset (t_avl m) (Some k) d =
      Some (if 0 \<le> int k + d \<and> int k + d < int sz then Some (nat (int k + d)) else None)" if "k < sz" for k d
    using avl_offset_computes [OF t(1) avl_counted [OF t(2)], of k d] that n sz t(3) by auto
  have "check_pair m (Some i) i j = Some ()" if "j < sz" for j
    using that i off [OF i] t(4) by (simp add: check_pair_def t_rd_def)
  then have "for_all [0..<sz] (check_pair m (Some i) i) = Some ()"
    by (intro for_all_ok) simp
  then show ?thesis
    using i off [OF i] off [of 0 "int i"] t(4) by (simp add: check_node_def t_rd_def)
qed

lemma test_case_ok:
  assumes "0 < sz" "sz \<le> 2 ^ 30"
  shows "\<exists>m. test_case sz = Some m \<and> t_avl m |` {..<sz} = Map.empty \<and> t_val m |` {..<sz} = Map.empty"
proof -
  let ?c = "(\<lparr>t_avl = Map.empty, t_val = Map.empty, t_next = 0\<rparr>, None)"
  have "test_inv 0 ?c Leaf"
    by (simp add: test_inv_def)
  from add_all_ok [OF this, of sz] assms(2) obtain c t where c: "add_all [0..<sz] ?c = Some c" "test_inv sz c t"
    by auto
  obtain m where m: "c = (m, root t)" "tree_at (t_avl m) None t" "nodes t = [0..<sz]"
    using c(2) by (cases c) (auto simp: test_inv_def)
  have ne: "t \<noteq> Leaf"
    using m(3) assms(1) by (cases sz) auto
  have "find_leftmost (t_avl m) (root t) = Some (Some 0)"
    using find_leftmost_run [OF m(2) ne, of "[]"] leftmost_first [OF ne, of "[]"] m(3) assms(1) by simp
  moreover have "for_all [0..<sz] (check_node m (Some 0) sz) = Some ()"
    using check_node_ok [OF c(2) [unfolded m(1)] _ assms(2)] by (intro for_all_ok) simp
  moreover obtain m' where "dispose m (root t) = Some m'" "t_avl m' = t_avl m |` (- set (nodes t))"
    "t_val m' = t_val m |` (- set (nodes t))"
    using dispose_ok [OF m(2)] m(3) by auto
  moreover have "{0..<sz} = {..<sz}"
    by auto
  ultimately show ?thesis
    using c(1) m(1,3) by (auto simp: test_case_def restrict_map_def fun_eq_iff)
qed

section \<open>Properties\<close>

text \<open>The test program of the repository runs to its end with every assertion true, for all its
  499 tree sizes.\<close>

lemma test_main_passes: "test_main = Some ()"
proof -
  have "(do { _ \<leftarrow> test_case i; Some () }) = Some ()" if "i \<in> set [1..<500]" for i
    using test_case_ok [of i] that by auto
  then show ?thesis
    unfolding test_main_def by (rule for_all_ok)
qed

text \<open>C29: For every size up to \<open>2 ^ 30\<close> the tree built by inserting 0, ..., sz - 1 passes all rank queries
  of \<open>test_case\<close>, and \<open>dispose\<close> frees every node.\<close>

theorem test_case_passes:
  assumes "0 < sz" "sz \<le> 2 ^ 30"
  shows "\<exists>m. test_case sz = Some m \<and> t_avl m |` {..<sz} = Map.empty \<and> t_val m |` {..<sz} = Map.empty"
  by (rule test_case_ok [OF assms])

lemma test_case_passes_witness:
  "\<exists>m. test_case 1000000 = Some m \<and> t_avl m |` {..<1000000} = Map.empty \<and> t_val m |` {..<1000000} = Map.empty"
  by (rule test_case_passes) simp_all

end
