(* ===== verification/OffsetHang.thy ===== *)
theory OffsetHang
  imports TestOffset
begin

text \<open>
  The loop of \<open>avl_offset\<close> on a tree with a stale count: one turn of the loop as a function of its
  own, so that running forever can be told apart from a read through a dead pointer, and a tree on
  which the loop runs forever after one call of \<open>avl_del\<close>.
\<close>

section \<open>One turn of the loop\<close>

text \<open>The body of \<open>while (offset != pos)\<close>: the next node and position, or the null result. \<open>None\<close> is a read through null.\<close>

definition offset_body :: "avlmem \<Rightarrow> int \<Rightarrow> ptr \<times> int \<Rightarrow> (ptr \<times> int + ptr) option" where
  "offset_body m offset s =
     (case s of (node, pos) \<Rightarrow> do {
        go_right \<leftarrow> (if pos < offset then do {
                        r \<leftarrow> rd n_right m node;
                        c \<leftarrow> avl_cnt m r;
                        Some (pos + uint c \<ge> offset)
                      } else Some False);
        go_left \<leftarrow> (if \<not> go_right \<and> pos > offset then do {
                       l \<leftarrow> rd n_left m node;
                       c \<leftarrow> avl_cnt m l;
                       Some (pos - uint c \<le> offset)
                     } else Some False);
        if go_right then do {
          node \<leftarrow> rd n_right m node;
          l \<leftarrow> rd n_left m node;
          c \<leftarrow> avl_cnt m l;
          Some (Inl (node, pos + uint (c + 1)))
        } else if go_left then do {
          node \<leftarrow> rd n_left m node;
          r \<leftarrow> rd n_right m node;
          c \<leftarrow> avl_cnt m r;
          Some (Inl (node, pos - uint (c + 1)))
        } else do {
          parent \<leftarrow> rd n_parent m node;
          if parent = None then Some (Inr None)
          else do {
            pr \<leftarrow> rd n_right m parent;
            if pr = node then do {
              l \<leftarrow> rd n_left m node;
              c \<leftarrow> avl_cnt m l;
              Some (Inl (parent, pos - uint (c + 1)))
            } else do {
              r \<leftarrow> rd n_right m node;
              c \<leftarrow> avl_cnt m r;
              Some (Inl (parent, pos + uint (c + 1)))
            }
          }
        }
      })"

text \<open>The loop runs this body, whatever it continues with.\<close>

lemma offset_loop_body:
  "(if offset = pos then Some node
      else do {
        go_right \<leftarrow> (if pos < offset then do {
                        r \<leftarrow> rd n_right m node;
                        c \<leftarrow> avl_cnt m r;
                        Some (pos + uint c \<ge> offset)
                      } else Some False);
        go_left \<leftarrow> (if \<not> go_right \<and> pos > offset then do {
                       l \<leftarrow> rd n_left m node;
                       c \<leftarrow> avl_cnt m l;
                       Some (pos - uint c \<le> offset)
                     } else Some False);
        if go_right then do {
          node \<leftarrow> rd n_right m node;
          l \<leftarrow> rd n_left m node;
          c \<leftarrow> avl_cnt m l;
          f m node offset (pos + uint (c + 1))
        } else if go_left then do {
          node \<leftarrow> rd n_left m node;
          r \<leftarrow> rd n_right m node;
          c \<leftarrow> avl_cnt m r;
          f m node offset (pos - uint (c + 1))
        } else do {
          parent \<leftarrow> rd n_parent m node;
          if parent = None then Some None
          else do {
            pr \<leftarrow> rd n_right m parent;
            if pr = node then do {
              l \<leftarrow> rd n_left m node;
              c \<leftarrow> avl_cnt m l;
              f m parent offset (pos - uint (c + 1))
            } else do {
              r \<leftarrow> rd n_right m node;
              c \<leftarrow> avl_cnt m r;
              f m parent offset (pos + uint (c + 1))
            }
          }
        }
      }) =
     (if offset = pos then Some node
      else do {
        r \<leftarrow> offset_body m offset (node, pos);
        (case r of Inl (node, pos) \<Rightarrow> f m node offset pos | Inr p \<Rightarrow> Some p)
      })"
proof -
  have if_bind: "(if b then x else y) \<bind> g = (if b then x \<bind> g else y \<bind> g)" for b and x y :: "'a option" and g :: "'a \<Rightarrow> 'b option"
    by simp
  show ?thesis
    by (simp only: offset_body_def prod.case Option.bind_assoc if_bind bind.bind_lunit sum.case)
qed

text \<open>The loop goes round forever, with every read in order.\<close>

coinductive spins :: "avlmem \<Rightarrow> int \<Rightarrow> ptr \<times> int \<Rightarrow> bool" for m offset where
  turn: "snd s \<noteq> offset \<Longrightarrow> offset_body m offset s = Some (Inl s') \<Longrightarrow> spins m offset s' \<Longrightarrow> spins m offset s"

inductive_cases spinsE: "spins m offset s"

text \<open>\<open>n\<close> turns of the loop.\<close>

fun turns :: "nat \<Rightarrow> avlmem \<Rightarrow> int \<Rightarrow> ptr \<times> int \<Rightarrow> (ptr \<times> int) option" where
  "turns 0 m offset s = Some s"
| "turns (Suc n) m offset s =
     (if snd s = offset then None
      else (case offset_body m offset s of Some (Inl s') \<Rightarrow> turns n m offset s' | _ \<Rightarrow> None))"

lemma turns_Suc:
  assumes "turns (Suc n) m offset s = Some s1"
  shows "\<exists>s'. snd s \<noteq> offset \<and> offset_body m offset s = Some (Inl s') \<and> turns n m offset s' = Some s1"
  using assms by (auto split: if_splits option.splits sum.splits)

lemma turns_add: "turns (i + j) m offset s = do { s \<leftarrow> turns i m offset s; turns j m offset s }"
  by (induction i arbitrary: s) (auto split: option.splits sum.splits)

lemma spins_cycle:
  assumes "turns k m offset s = Some s1" "turns (k + Suc j) m offset s = Some s1"
  shows "spins m offset s"
proof -
  have s1: "turns (Suc j) m offset s1 = Some s1"
    using assms unfolding turns_add by simp
  have "\<exists>i. turns i m offset x = Some s1 \<Longrightarrow> spins m offset x" for x
  proof (coinduction arbitrary: x rule: spins.coinduct)
    case (spins x)
    then obtain i where "turns i m offset x = Some s1"
      by blast
    then have "\<exists>i. turns (Suc i) m offset x = Some s1"
      using s1 by (cases i) auto
    then obtain i where "turns (Suc i) m offset x = Some s1"
      by blast
    from turns_Suc [OF this] show "\<exists>s s'. x = s \<and> snd s \<noteq> offset \<and> offset_body m offset s = Some (Inl s')
        \<and> ((\<exists>y. s' = y \<and> (\<exists>i. turns i m offset y = Some s1)) \<or> spins m offset s')"
      by blast
  qed
  then show ?thesis
    using assms(1) by blast
qed

lemma spins_no_result:
  assumes "spins m offset (node, pos)"
  shows "avl_offset_from m node offset pos = None"
proof (rule ccontr)
  have "\<not> spins m offset (node, pos)" if "avl_offset_from m node offset pos = Some r" for r
  proof (rule avl_offset_from.raw_induct [where P = "\<lambda>m node offset pos r. \<not> spins m offset (node, pos)", OF _ that])
    fix loop m node offset pos r
    assume 1: "\<And>m node offset pos r. loop m node offset pos = Some r \<Longrightarrow> \<not> spins m offset (node, pos)"
      "(if offset = pos then Some node
      else do {
        go_right \<leftarrow> (if pos < offset then do {
                        r \<leftarrow> rd n_right m node;
                        c \<leftarrow> avl_cnt m r;
                        Some (pos + uint c \<ge> offset)
                      } else Some False);
        go_left \<leftarrow> (if \<not> go_right \<and> pos > offset then do {
                       l \<leftarrow> rd n_left m node;
                       c \<leftarrow> avl_cnt m l;
                       Some (pos - uint c \<le> offset)
                     } else Some False);
        if go_right then do {
          node \<leftarrow> rd n_right m node;
          l \<leftarrow> rd n_left m node;
          c \<leftarrow> avl_cnt m l;
          loop m node offset (pos + uint (c + 1))
        } else if go_left then do {
          node \<leftarrow> rd n_left m node;
          r \<leftarrow> rd n_right m node;
          c \<leftarrow> avl_cnt m r;
          loop m node offset (pos - uint (c + 1))
        } else do {
          parent \<leftarrow> rd n_parent m node;
          if parent = None then Some None
          else do {
            pr \<leftarrow> rd n_right m parent;
            if pr = node then do {
              l \<leftarrow> rd n_left m node;
              c \<leftarrow> avl_cnt m l;
              loop m parent offset (pos - uint (c + 1))
            } else do {
              r \<leftarrow> rd n_right m node;
              c \<leftarrow> avl_cnt m r;
              loop m parent offset (pos + uint (c + 1))
            }
          }
        }
      }) = Some r"
    have run: "(if offset = pos then Some node
        else do {
          r \<leftarrow> offset_body m offset (node, pos);
          (case r of Inl (node, pos) \<Rightarrow> loop m node offset pos | Inr p \<Rightarrow> Some p)
        }) = Some r"
      using 1(2) unfolding offset_loop_body .
    show "\<not> spins m offset (node, pos)"
    proof
      assume "spins m offset (node, pos)"
      then obtain node' pos' where t: "pos \<noteq> offset" "offset_body m offset (node, pos) = Some (Inl (node', pos'))" "spins m offset (node', pos')"
        by (auto elim: spinsE)
      then have "loop m node' offset pos' = Some r"
        using run by simp
      then show False
        using 1(1) t(3) by blast
    qed
  qed
  moreover assume "avl_offset_from m node offset pos \<noteq> None"
  ultimately show False
    using assms by blast
qed

definition grown :: "tmem \<times> ptr" where
  "grown = (\<lparr>t_avl = Map.empty, t_val = Map.empty, t_next = 0\<rparr>, None)"

declare add_loop.simps [code]



lemma hang_run:
  "case add_all [0..<9] grown of None \<Rightarrow> False
   | Some (m, r) \<Rightarrow>
      (case avl_del (t_avl m) (Some 7) of None \<Rightarrow> False
       | Some (m, r) \<Rightarrow> find_leftmost m r = Some (Some 0) \<and> avl_offset m (Some 0) 6 = Some (Some 6)
           \<and> turns 4 m 7 (Some 0, 0) \<noteq> None \<and> turns 6 m 7 (Some 0, 0) = turns 4 m 7 (Some 0, 0))"
  by code_simp

text \<open>C35: Nine insertions in order and one deletion make \<open>avl_offset\<close> hang: after the deletion of the eighth member, the loop that
  looks for the last of the eight left, at rank 7 from the first, goes round forever between two nodes. It
  never reads a dead pointer, and it never returns.\<close>

theorem avl_offset_hangs:
  "case add_all [0..<9] grown of None \<Rightarrow> False
   | Some (m, r) \<Rightarrow>
      (case avl_del (t_avl m) (Some 7) of None \<Rightarrow> False
       | Some (m, r) \<Rightarrow> find_leftmost m r = Some (Some 0) \<and> avl_offset m (Some 0) 6 = Some (Some 6)
           \<and> spins m 7 (Some 0, 0) \<and> avl_offset m (Some 0) 7 = None)"
proof -
  have "spins m 7 (p, 0) \<and> avl_offset m p 7 = None"
    if "turns 4 m 7 (p, 0) \<noteq> None" "turns 6 m 7 (p, 0) = turns 4 m 7 (p, 0)" for m p
  proof -
    have "spins m 7 (p, 0)"
      using that spins_cycle [of 4 m 7 "(p, 0)" _ 1] by auto
    then show ?thesis
      using spins_no_result by (auto simp: avl_offset_def)
  qed
  then show ?thesis
    using hang_run by (auto split: option.splits prod.splits)
qed
end
