(* ===== verification/ThreadPool.thy ===== *)
theory ThreadPool
  imports Interfaces
begin

text \<open>
  thread_pool.h and thread_pool.cpp: workers that take jobs off a shared queue under a mutex and
  a condition variable. Each thread is a program counter, and a step is one pthread or queue
  operation; a waiting worker may also wake up spuriously, as POSIX allows. The producer is the
  thread of the event loop in \<open>thread_pool_queue\<close>. The logs \<open>tp_pushed\<close>, \<open>tp_taken\<close> and
  \<open>tp_done\<close> are not part of the program: they record the jobs queued, taken and finished.
\<close>

section \<open>The queue\<close>

definition queue_push :: "'j list \<Rightarrow> 'j \<Rightarrow> 'j list" where
  "queue_push q j = q @ [j]"

definition queue_pop :: "'j list \<Rightarrow> ('j \<times> 'j list) option" where
  "queue_pop q = (case q of [] \<Rightarrow> None | j # js \<Rightarrow> Some (j, js))"

interpretation deque: job_queue "\<lambda>q. q" queue_push queue_pop
  by unfold_locales (auto simp: queue_push_def queue_pop_def)

section \<open>Threads\<close>

datatype 'j worker =
    AtLock
  | Testing
  | Waiting
  | Relock
  | Got 'j
  | Running 'j

datatype 'j producer =
    PIdle
  | PLock 'j
  | PHold 'j
  | PPushed
  | PSignalled

datatype owner = Free | Producer | Worker nat

record 'j pool =
  tp_threads :: "'j worker list"
  tp_queue :: "'j list"
  tp_mu :: owner
  tp_prod :: "'j producer"
  tp_pushed :: "'j list"
  tp_taken :: "'j list"
  tp_done :: "'j list"

definition thread_pool_init :: "nat \<Rightarrow> 'j pool option" where
  "thread_pool_init num_threads = do {
     guard (num_threads > 0);
     Some \<lparr>tp_threads = replicate num_threads AtLock, tp_queue = [], tp_mu = Free, tp_prod = PIdle,
           tp_pushed = [], tp_taken = [], tp_done = []\<rparr>
   }"

definition set_thread :: "nat \<Rightarrow> 'j worker \<Rightarrow> 'j pool \<Rightarrow> 'j pool" where
  "set_thread i w p = p\<lparr>tp_threads := (tp_threads p)[i := w]\<rparr>"

abbreviation at_pc :: "'j pool \<Rightarrow> nat \<Rightarrow> 'j worker \<Rightarrow> bool" where
  "at_pc p i w \<equiv> i < length (tp_threads p) \<and> tp_threads p ! i = w"

text \<open>\<open>pthread_cond_signal\<close> wakes one waiting thread, if there is one.\<close>

inductive tp_step :: "'j pool \<Rightarrow> 'j pool \<Rightarrow> bool" where
  lock: "at_pc p i AtLock \<Longrightarrow> tp_mu p = Free \<Longrightarrow>
    tp_step p (set_thread i Testing (p\<lparr>tp_mu := Worker i\<rparr>))"
| wait: "at_pc p i Testing \<Longrightarrow> tp_queue p = [] \<Longrightarrow>
    tp_step p (set_thread i Waiting (p\<lparr>tp_mu := Free\<rparr>))"
| spurious: "at_pc p i Waiting \<Longrightarrow> tp_step p (set_thread i Relock p)"
| relock: "at_pc p i Relock \<Longrightarrow> tp_mu p = Free \<Longrightarrow>
    tp_step p (set_thread i Testing (p\<lparr>tp_mu := Worker i\<rparr>))"
| take: "at_pc p i Testing \<Longrightarrow> queue_pop (tp_queue p) = Some (j, q) \<Longrightarrow>
    tp_step p (set_thread i (Got j) (p\<lparr>tp_queue := q, tp_taken := tp_taken p @ [j]\<rparr>))"
| unlock: "at_pc p i (Got j) \<Longrightarrow> tp_step p (set_thread i (Running j) (p\<lparr>tp_mu := Free\<rparr>))"
| finish: "at_pc p i (Running j) \<Longrightarrow> tp_step p (set_thread i AtLock (p\<lparr>tp_done := tp_done p @ [j]\<rparr>))"
| submit: "tp_prod p = PIdle \<Longrightarrow> tp_step p (p\<lparr>tp_prod := PLock j\<rparr>)"
| p_lock: "tp_prod p = PLock j \<Longrightarrow> tp_mu p = Free \<Longrightarrow>
    tp_step p (p\<lparr>tp_prod := PHold j, tp_mu := Producer\<rparr>)"
| p_push: "tp_prod p = PHold j \<Longrightarrow>
    tp_step p (p\<lparr>tp_prod := PPushed, tp_queue := queue_push (tp_queue p) j, tp_pushed := tp_pushed p @ [j]\<rparr>)"
| p_signal: "tp_prod p = PPushed \<Longrightarrow> at_pc p i Waiting \<Longrightarrow>
    tp_step p (set_thread i Relock (p\<lparr>tp_prod := PSignalled\<rparr>))"
| p_signal_none: "tp_prod p = PPushed \<Longrightarrow> Waiting \<notin> set (tp_threads p) \<Longrightarrow>
    tp_step p (p\<lparr>tp_prod := PSignalled\<rparr>)"
| p_unlock: "tp_prod p = PSignalled \<Longrightarrow> tp_step p (p\<lparr>tp_prod := PIdle, tp_mu := Free\<rparr>)"

inductive_cases tp_stepE: "tp_step p p'"

inductive tp_reach :: "nat \<Rightarrow> 'j pool \<Rightarrow> bool" for n where
  tp_init: "thread_pool_init n = Some p \<Longrightarrow> tp_reach n p"
| tp_next: "tp_reach n p \<Longrightarrow> tp_step p p' \<Longrightarrow> tp_reach n p'"

section \<open>Invariants\<close>

fun holds :: "'j worker \<Rightarrow> bool" where
  "holds Testing = True"
| "holds (Got j) = True"
| "holds w = False"

fun p_holds :: "'j producer \<Rightarrow> bool" where
  "p_holds (PHold j) = True"
| "p_holds PPushed = True"
| "p_holds PSignalled = True"
| "p_holds q = False"

fun job_of :: "'j worker \<Rightarrow> 'j list" where
  "job_of (Got j) = [j]"
| "job_of (Running j) = [j]"
| "job_of w = []"

text \<open>The jobs in the hands of workers.\<close>

definition in_hand :: "'j pool \<Rightarrow> 'j multiset" where
  "in_hand p = mset (concat (map job_of (tp_threads p)))"

text \<open>Exactly the owner of the mutex is between a lock and an unlock.\<close>

definition tp_mutex :: "'j pool \<Rightarrow> bool" where
  "tp_mutex p \<longleftrightarrow>
     (\<forall>i < length (tp_threads p). holds (tp_threads p ! i) \<longleftrightarrow> tp_mu p = Worker i)
     \<and> (p_holds (tp_prod p) \<longleftrightarrow> tp_mu p = Producer)"

text \<open>Jobs are taken in the order in which they were queued.\<close>

definition tp_fifo :: "'j pool \<Rightarrow> bool" where
  "tp_fifo p \<longleftrightarrow> tp_pushed p = tp_taken p @ tp_queue p"

text \<open>Every job taken is in the hands of one worker or was run once.\<close>

definition tp_once :: "'j pool \<Rightarrow> bool" where
  "tp_once p \<longleftrightarrow> mset (tp_taken p) = in_hand p + mset (tp_done p)"

text \<open>No wake-up is lost: while jobs are queued not all workers sleep, unless a signal is about to come.\<close>

definition tp_awake :: "'j pool \<Rightarrow> bool" where
  "tp_awake p \<longleftrightarrow> tp_threads p \<noteq> [] \<and>
     (tp_queue p \<noteq> [] \<longrightarrow> tp_prod p = PPushed \<or> (\<exists>w \<in> set (tp_threads p). w \<noteq> Waiting))"

definition tp_inv :: "'j pool \<Rightarrow> bool" where
  "tp_inv p \<longleftrightarrow> tp_mutex p \<and> tp_fifo p \<and> tp_once p \<and> tp_awake p"

lemma in_hand_set:
  assumes "i < length (tp_threads p)"
  shows "in_hand (set_thread i w p) + mset (job_of (tp_threads p ! i)) = in_hand p + mset (job_of w)"
proof -
  have "concat (map job_of (tp_threads p)) =
      concat (take i (map job_of (tp_threads p))) @ job_of (tp_threads p ! i) @ concat (drop (Suc i) (map job_of (tp_threads p)))"
    using concat_update_split(2) [of i "map job_of (tp_threads p)"] assms by simp
  moreover have "concat (map job_of ((tp_threads p)[i := w])) =
      concat (take i (map job_of (tp_threads p))) @ job_of w @ concat (drop (Suc i) (map job_of (tp_threads p)))"
    using concat_update_split(1) [of i "map job_of (tp_threads p)" "job_of w"] assms by (simp add: map_update)
  ultimately show ?thesis
    by (simp add: in_hand_def set_thread_def)
qed

lemma busy_update:
  assumes "i < length ws" "w \<noteq> Waiting"
  shows "\<exists>v \<in> set (ws[i := w]). v \<noteq> Waiting"
  using assms by (metis set_update_memI)

lemma in_hand_simps [simp]:
  "in_hand (p\<lparr>tp_mu := x\<rparr>) = in_hand p" "in_hand (p\<lparr>tp_prod := y\<rparr>) = in_hand p"
  "in_hand (p\<lparr>tp_queue := q\<rparr>) = in_hand p" "in_hand (p\<lparr>tp_taken := l\<rparr>) = in_hand p"
  "in_hand (p\<lparr>tp_done := d\<rparr>) = in_hand p" "in_hand (p\<lparr>tp_pushed := u\<rparr>) = in_hand p"
  by (simp_all add: in_hand_def)

lemma set_thread_simps [simp]:
  "tp_threads (set_thread i w p) = (tp_threads p)[i := w]" "tp_queue (set_thread i w p) = tp_queue p"
  "tp_mu (set_thread i w p) = tp_mu p" "tp_prod (set_thread i w p) = tp_prod p"
  "tp_pushed (set_thread i w p) = tp_pushed p" "tp_taken (set_thread i w p) = tp_taken p"
  "tp_done (set_thread i w p) = tp_done p"
  by (simp_all add: set_thread_def)

lemma tp_init_inv: "thread_pool_init n = Some p \<Longrightarrow> tp_inv p"
  by (auto simp: thread_pool_init_def tp_inv_def tp_mutex_def tp_fifo_def tp_once_def tp_awake_def in_hand_def
      split: bind_splits)

lemma tp_step_fifo: "tp_step p p' \<Longrightarrow> tp_fifo p \<Longrightarrow> tp_fifo p'"
  by (erule tp_stepE) (auto simp: tp_fifo_def queue_push_def queue_pop_def split: list.splits)

lemma tp_step_mutex: "tp_step p p' \<Longrightarrow> tp_mutex p \<Longrightarrow> tp_mutex p'"
  by (erule tp_stepE) (auto simp: tp_mutex_def nth_list_update)

lemma in_hand_cases:
  assumes "i < length (tp_threads p)"
  shows "job_of (tp_threads p ! i) = [] \<Longrightarrow> in_hand (set_thread i w p) = in_hand p + mset (job_of w)"
    and "job_of (tp_threads p ! i) = job_of w \<Longrightarrow> in_hand (set_thread i w p) = in_hand p"
    and "tp_threads p ! i = Running j \<Longrightarrow> in_hand p = add_mset j (in_hand (set_thread i AtLock p))"
  using in_hand_set [OF assms, of w] in_hand_set [OF assms, of AtLock] by auto

lemma tp_step_once: "tp_step p p' \<Longrightarrow> tp_once p \<Longrightarrow> tp_once p'"
proof (erule tp_stepE, goal_cases)
  case (7 i j)
  then show ?case
    using in_hand_cases(3) [of i "p\<lparr>tp_done := tp_done p @ [j]\<rparr>" j] by (simp add: tp_once_def)
qed (auto simp: tp_once_def in_hand_cases(1,2))

lemma tp_step_awake: "tp_step p p' \<Longrightarrow> tp_awake p \<Longrightarrow> tp_awake p'"
proof (erule tp_stepE)
  assume "tp_awake p" "tp_prod p = PPushed" "Waiting \<notin> set (tp_threads p)" "p' = p\<lparr>tp_prod := PSignalled\<rparr>"
  then show "tp_awake p'"
    by (cases "tp_threads p") (auto simp: tp_awake_def)
qed (auto simp: tp_awake_def busy_update)

lemma tp_step_inv: "tp_step p p' \<Longrightarrow> tp_inv p \<Longrightarrow> tp_inv p'"
  by (simp add: tp_inv_def tp_step_mutex tp_step_fifo tp_step_once tp_step_awake)

lemma tp_reach_inv: "tp_reach n p \<Longrightarrow> tp_inv p"
  by (induction rule: tp_reach.induct) (auto intro: tp_init_inv tp_step_inv)

text \<open>What the event loop sees of the pool: a job goes to the back of the queue.\<close>

definition thread_pool_queue :: "'j list \<Rightarrow> 'j \<Rightarrow> 'j list" where
  "thread_pool_queue q j = queue_push q j"

section \<open>Properties\<close>

text \<open>C14: In every reachable state of the pool, with any interleaving of the workers, the producer and spurious
  wake-ups, the jobs were taken from the queue in the order in which they were queued, and every
  job taken is held by one worker or was run exactly once: no job is lost or run twice.\<close>

theorem pool_runs_each_job_once:
  assumes "tp_reach n p"
  shows "tp_pushed p = tp_taken p @ tp_queue p \<and> mset (tp_pushed p) = mset (tp_queue p) + in_hand p + mset (tp_done p)"
  using tp_reach_inv [OF assms] by (simp add: tp_inv_def tp_fifo_def tp_once_def)

text \<open>C27: At most one thread is between a lock and the matching unlock of the pool's mutex, and no wake-up is lost:
  while a job is queued and the producer is not about to signal, some worker is not asleep.\<close>

theorem pool_mutex_and_wakeups:
  assumes "tp_reach n p"
  shows "\<not> (at_pc p i w \<and> at_pc p k v \<and> holds w \<and> holds v \<and> i \<noteq> k)
    \<and> \<not> (at_pc p i w \<and> holds w \<and> p_holds (tp_prod p))
    \<and> \<not> (tp_queue p \<noteq> [] \<and> tp_prod p \<noteq> PPushed \<and> set (tp_threads p) \<subseteq> {Waiting})"
proof -
  have inv: "tp_mutex p" "tp_awake p"
    using tp_reach_inv [OF assms] by (simp_all add: tp_inv_def)
  have "\<not> (at_pc p i w \<and> at_pc p k v \<and> holds w \<and> holds v \<and> i \<noteq> k)"
    "\<not> (at_pc p i w \<and> holds w \<and> p_holds (tp_prod p))"
    using inv(1) by (auto simp: tp_mutex_def)
  moreover have "\<not> (tp_queue p \<noteq> [] \<and> tp_prod p \<noteq> PPushed \<and> set (tp_threads p) \<subseteq> {Waiting})"
    using inv(2) by (auto simp: tp_awake_def)
  ultimately show ?thesis
    by blast
qed

text \<open>A run of one worker: the producer queues a job, the worker takes it and runs it.\<close>

definition pool1 :: "nat worker \<Rightarrow> owner \<Rightarrow> nat producer \<Rightarrow> nat list \<Rightarrow> nat list \<Rightarrow> nat list \<Rightarrow> nat list \<Rightarrow> nat pool" where
  "pool1 w mu pr q pushed taken don = \<lparr>tp_threads = [w], tp_queue = q, tp_mu = mu, tp_prod = pr,
     tp_pushed = pushed, tp_taken = taken, tp_done = don\<rparr>"

lemma pool1_run:
  "tp_reach 1 (pool1 AtLock Free PIdle [] [] [] [])"
  "tp_reach 1 (pool1 AtLock Producer PPushed [7] [7] [] [])"
  "tp_reach 1 (pool1 (Running 7) Free PIdle [] [7] [7] [])"
proof -
  note steps = tp_next [where n = 1]
  have s0: "tp_reach 1 (pool1 AtLock Free PIdle [] [] [] [])"
    by (rule tp_init) (simp add: thread_pool_init_def pool1_def)
  have s1: "tp_reach 1 (pool1 AtLock Free (PLock 7) [] [] [] [])"
    using steps [OF s0 submit [where j = 7]] by (simp add: pool1_def)
  have s2: "tp_reach 1 (pool1 AtLock Producer (PHold 7) [] [] [] [])"
    using steps [OF s1 p_lock [where j = 7]] by (simp add: pool1_def)
  have s3: "tp_reach 1 (pool1 AtLock Producer PPushed [7] [7] [] [])"
    using steps [OF s2 p_push [where j = 7]] by (simp add: pool1_def queue_push_def)
  have s4: "tp_reach 1 (pool1 AtLock Producer PSignalled [7] [7] [] [])"
    using steps [OF s3 p_signal_none] by (simp add: pool1_def)
  have s5: "tp_reach 1 (pool1 AtLock Free PIdle [7] [7] [] [])"
    using steps [OF s4 p_unlock] by (simp add: pool1_def)
  have s6: "tp_reach 1 (pool1 Testing (Worker 0) PIdle [7] [7] [] [])"
    using steps [OF s5 lock [where i = 0]] by (simp add: pool1_def set_thread_def)
  have s7: "tp_reach 1 (pool1 (Got 7) (Worker 0) PIdle [] [7] [7] [])"
    using steps [OF s6 take [where i = 0 and j = 7 and q = "[]"]] by (simp add: pool1_def set_thread_def queue_pop_def)
  have s8: "tp_reach 1 (pool1 (Running 7) Free PIdle [] [7] [7] [])"
    using steps [OF s7 unlock [where i = 0 and j = 7]] by (simp add: pool1_def set_thread_def)
  show "tp_reach 1 (pool1 AtLock Free PIdle [] [] [] [])" "tp_reach 1 (pool1 AtLock Producer PPushed [7] [7] [] [])"
    "tp_reach 1 (pool1 (Running 7) Free PIdle [] [7] [7] [])"
    by (rule s0 s3 s8)+
qed

lemma pool_runs_each_job_once_witness:
  "mset (tp_pushed (pool1 (Running 7) Free PIdle [] [7] [7] [])) = in_hand (pool1 (Running 7) Free PIdle [] [7] [7] [])"
  using pool_runs_each_job_once [OF pool1_run(3)] by (simp add: pool1_def in_hand_def)

lemma pool_mutex_and_wakeups_witness:
  "\<not> (holds AtLock \<and> p_holds (tp_prod (pool1 AtLock Producer PPushed [7] [7] [] [])))"
  using pool_mutex_and_wakeups [OF pool1_run(2), of 0 AtLock] by (simp add: pool1_def)

end
