(* ===== verification/PoolDrains.thy ===== *)
theory PoolDrains
  imports ThreadPool
begin

text \<open>
  Progress of the thread pool of thread_pool.cpp: left alone, with no new job and no spurious wake-up,
  the pool comes to rest after a bounded number of steps of any schedule, and then every job was run.
\<close>

section \<open>Steps of the pool left alone\<close>

definition spurious_step :: "'j pool \<Rightarrow> 'j pool \<Rightarrow> bool" where
  "spurious_step p p' \<longleftrightarrow> (\<exists>i. at_pc p i Waiting \<and> p' = set_thread i Relock p)"

definition submit_step :: "'j pool \<Rightarrow> 'j pool \<Rightarrow> bool" where
  "submit_step p p' \<longleftrightarrow> (\<exists>j. tp_prod p = PIdle \<and> p' = p\<lparr>tp_prod := PLock j\<rparr>)"

definition tp_go :: "'j pool \<Rightarrow> 'j pool \<Rightarrow> bool" where
  "tp_go p p' \<longleftrightarrow> tp_step p p' \<and> \<not> spurious_step p p' \<and> \<not> submit_step p p'"

section \<open>What is left to do\<close>

fun worker_work :: "'j worker \<Rightarrow> nat" where
  "worker_work Waiting = 0"
| "worker_work Testing = 1"
| "worker_work AtLock = 2"
| "worker_work Relock = 2"
| "worker_work (Running j) = 3"
| "worker_work (Got j) = 4"

fun producer_work :: "'j producer \<Rightarrow> nat" where
  "producer_work PIdle = 0"
| "producer_work PSignalled = 1"
| "producer_work PPushed = 4"
| "producer_work (PHold j) = 9"
| "producer_work (PLock j) = 10"

definition pool_work :: "'j pool \<Rightarrow> nat" where
  "pool_work p = sum_list (map worker_work (tp_threads p)) + 4 * length (tp_queue p) + producer_work (tp_prod p)"

lemma work_update:
  "i < length ws \<Longrightarrow> sum_list (map worker_work (ws[i := w])) + worker_work (ws ! i) = sum_list (map worker_work ws) + worker_work w"
proof (induction ws arbitrary: i)
  case (Cons v ws)
  then show ?case
    by (cases i) auto
qed simp

lemma go_works: "tp_go p p' \<Longrightarrow> pool_work p' < pool_work p"
  unfolding tp_go_def
proof (elim conjE tp_stepE, goal_cases)
  case (1 i)
  then show ?case
    using work_update [of i "tp_threads p" Testing] by (simp add: pool_work_def)
next
  case (2 i)
  then show ?case
    using work_update [of i "tp_threads p" Waiting] by (simp add: pool_work_def)
next
  case (3 i)
  then show ?case
    by (auto simp: spurious_step_def)
next
  case (4 i)
  then show ?case
    using work_update [of i "tp_threads p" Testing] by (simp add: pool_work_def)
next
  case (5 i j q)
  then show ?case
    using work_update [of i "tp_threads p" "Got j"] by (auto simp: pool_work_def queue_pop_def split: list.splits)
next
  case (6 i j)
  then show ?case
    using work_update [of i "tp_threads p" "Running j"] by (simp add: pool_work_def)
next
  case (7 i j)
  then show ?case
    using work_update [of i "tp_threads p" AtLock] by (simp add: pool_work_def)
next
  case (8 j)
  then show ?case
    by (auto simp: submit_step_def)
next
  case (11 i)
  then show ?case
    using work_update [of i "tp_threads p" Relock] by (simp add: pool_work_def)
qed (simp_all add: pool_work_def queue_push_def)

lemma run_works: "(tp_go ^^ m) p p' \<Longrightarrow> pool_work p' + m \<le> pool_work p"
proof (induction m arbitrary: p')
  case (Suc m)
  then obtain q where "(tp_go ^^ m) p q" "tp_go q p'"
    by auto
  then show ?case
    using Suc.IH [of q] go_works [of q p'] by simp
qed simp

section \<open>Where the pool comes to rest\<close>

lemma reach_run: "(tp_go ^^ m) p p' \<Longrightarrow> tp_reach n p \<Longrightarrow> tp_reach n p'"
proof (induction m arbitrary: p')
  case (Suc m)
  then obtain q where q: "(tp_go ^^ m) p q" "tp_go q p'"
    by auto
  have "tp_step q p'"
    using q(2) by (simp add: tp_go_def)
  then show ?case
    by (rule tp_reach.tp_next [OF Suc.IH [OF q(1) Suc.prems(2)]])
qed simp

text \<open>The mutex belongs to a thread of the pool.\<close>

lemma reach_owner: "tp_reach n p \<Longrightarrow> tp_mu p = Worker i \<Longrightarrow> i < length (tp_threads p)"
proof (induction arbitrary: i rule: tp_reach.induct)
  case (tp_init p)
  then show ?case
    by (auto simp: thread_pool_init_def split: bind_splits)
next
  case (tp_next p p')
  then show ?case
    by (elim tp_stepE) auto
qed

lemma goI: "tp_step p p' \<Longrightarrow> \<not> spurious_step p p' \<and> \<not> submit_step p p' \<Longrightarrow> \<exists>q. tp_go p q"
  by (auto simp: tp_go_def)

lemma worker_moved: "at_pc p i v \<Longrightarrow> v \<noteq> Waiting \<Longrightarrow> tp_threads p' ! i \<noteq> v \<Longrightarrow> \<not> spurious_step p p' \<and> \<not> submit_step p p'"
  by (auto simp: spurious_step_def submit_step_def nth_list_update split: if_splits)

lemma producer_moved: "tp_prod p' \<noteq> tp_prod p \<Longrightarrow> tp_prod p \<noteq> PIdle \<Longrightarrow> \<not> spurious_step p p' \<and> \<not> submit_step p p'"
  by (auto simp: spurious_step_def submit_step_def)

lemma worker_goes:
  assumes "at_pc p i v" "v \<noteq> Waiting" "tp_mu p = Free \<or> v \<noteq> AtLock \<and> v \<noteq> Relock"
  shows "\<exists>q. tp_go p q"
proof (cases v)
  case AtLock
  then show ?thesis
    using assms by (intro goI [OF tp_step.lock [where p = p and i = i]] worker_moved [where i = i and v = v]) auto
next
  case Testing
  show ?thesis
  proof (cases "tp_queue p")
    case Nil
    then show ?thesis
      using Testing assms by (intro goI [OF tp_step.wait [where p = p and i = i]] worker_moved [where i = i and v = v]) auto
  next
    case (Cons j js)
    then show ?thesis
      using Testing assms by (intro goI [OF tp_step.take [where p = p and i = i and j = j and q = js]] worker_moved [where i = i and v = v]) (auto simp: queue_pop_def)
  qed
next
  case Waiting
  then show ?thesis
    using assms by simp
next
  case Relock
  then show ?thesis
    using assms by (intro goI [OF tp_step.relock [where p = p and i = i]] worker_moved [where i = i and v = v]) auto
next
  case (Got j)
  then show ?thesis
    using assms by (intro goI [OF tp_step.unlock [where p = p and i = i and j = j]] worker_moved [where i = i and v = v]) auto
next
  case (Running j)
  then show ?thesis
    using assms by (intro goI [OF tp_step.finish [where p = p and i = i and j = j]] worker_moved [where i = i and v = v]) auto
qed

lemma producer_goes:
  assumes "tp_prod p \<noteq> PIdle" "tp_mu p = Free \<or> p_holds (tp_prod p)"
  shows "\<exists>q. tp_go p q"
proof (cases "tp_prod p")
  case PIdle
  then show ?thesis
    using assms by simp
next
  case (PLock j)
  then show ?thesis
    using assms by (intro goI [OF tp_step.p_lock [where p = p and j = j]] producer_moved) auto
next
  case (PHold j)
  then show ?thesis
    by (intro goI [OF tp_step.p_push [where p = p and j = j]] producer_moved) auto
next
  case PPushed
  show ?thesis
  proof (cases "Waiting \<in> set (tp_threads p)")
    case True
    then obtain i where "at_pc p i Waiting"
      by (auto simp: in_set_conv_nth)
    then show ?thesis
      using PPushed by (intro goI [OF tp_step.p_signal [where p = p and i = i]] producer_moved) auto
  next
    case False
    then show ?thesis
      using PPushed by (intro goI [OF tp_step.p_signal_none [where p = p]] producer_moved) auto
  qed
next
  case PSignalled
  then show ?thesis
    by (intro goI [OF tp_step.p_unlock [where p = p]] producer_moved) auto
qed

lemma rest_done:
  assumes "tp_reach n p" "\<not> (\<exists>q. tp_go p q)"
  shows "tp_queue p = [] \<and> mset (tp_done p) = mset (tp_pushed p) \<and> set (tp_threads p) \<subseteq> {Waiting}"
proof -
  have inv: "tp_mutex p" "tp_fifo p" "tp_once p" "tp_awake p"
    using tp_reach_inv [OF assms(1)] by (simp_all add: tp_inv_def)
  have nh: "\<not> holds (tp_threads p ! i)" if "i < length (tp_threads p)" for i
    using worker_goes [where p = p and i = i and v = "tp_threads p ! i"] that assms(2) by (cases "tp_threads p ! i") auto
  have np: "\<not> p_holds (tp_prod p)"
    using producer_goes [where p = p] assms(2) by (cases "tp_prod p") auto
  have "tp_mu p = Free"
  proof (cases "tp_mu p")
    case Producer
    then show ?thesis
      using inv(1) np by (simp add: tp_mutex_def)
  next
    case (Worker i)
    then show ?thesis
      using inv(1) nh reach_owner [OF assms(1) Worker] by (auto simp: tp_mutex_def)
  qed simp
  then have "tp_threads p ! i = Waiting" if "i < length (tp_threads p)" for i
    using worker_goes [where p = p and i = i and v = "tp_threads p ! i"] that assms(2) by blast
  then have w: "set (tp_threads p) \<subseteq> {Waiting}"
    by (auto simp: in_set_conv_nth)
  have idle: "tp_prod p = PIdle"
    using producer_goes [where p = p] \<open>tp_mu p = Free\<close> assms(2) by blast
  have "tp_queue p = []"
    using inv(4) w idle by (auto simp: tp_awake_def)
  moreover have "in_hand p = {#}"
    using w by (auto simp: in_hand_def)
  ultimately show ?thesis
    using inv(2,3) w by (simp add: tp_fifo_def tp_once_def)
qed

section \<open>Properties\<close>

text \<open>C26: The pool finishes its jobs: left alone by the producer and by spurious wake-ups, every schedule of the threads makes
  at most \<open>pool_work p\<close> steps, a number of the order of the queued jobs; and when no further step is possible
  the queue is empty, every job ever queued was run, exactly once, and all workers sleep. So there is no deadlock.\<close>

theorem pool_drains:
  assumes "tp_reach n p" "(tp_go ^^ m) p p'"
  shows "m \<le> pool_work p \<and> ((\<exists>q. tp_go p' q) \<or>
    tp_queue p' = [] \<and> mset (tp_done p') = mset (tp_pushed p') \<and> set (tp_threads p') \<subseteq> {Waiting})"
  using run_works [OF assms(2)] rest_done [OF reach_run [OF assms(2,1)]] by auto

lemma pool_drains_witness:
  "\<exists>p'. (tp_go ^^ 1) (pool1 (Running 7) Free PIdle [] [7] [7] []) p' \<and> (1 :: nat) \<le> pool_work (pool1 (Running 7) Free PIdle [] [7] [7] [])"
proof -
  let ?p = "pool1 (Running 7) Free PIdle [] [7] [7] []"
  have "tp_go ?p (set_thread 0 AtLock (?p\<lparr>tp_done := tp_done ?p @ [7]\<rparr>))"
    unfolding tp_go_def by (intro conjI tp_step.finish) (auto simp: pool1_def set_thread_def spurious_step_def submit_step_def)
  then have "\<exists>p'. (tp_go ^^ 1) ?p p'"
    by auto
  then show ?thesis
    using pool_drains [OF pool1_run(3)] by blast
qed

end
