(* ===== verification/Zset.thy ===== *)
theory Zset
  imports Numbers Hashtable AvlOffset "HOL-Library.List_Lexorder" "HOL-Library.Product_Lexorder"
begin

text \<open>
  zset.h and zset.cpp: the sorted set of (score, name) pairs, indexed twice by intrusive
  members of one node: by name in a hashtable and by (score, name) in an AVL tree. A node is an
  address; its AVL member lives in an \<open>avlmem\<close>, its other members in a second map, its hash
  node is the \<open>hnode\<close> of the hashtable. \<open>malloc\<close> hands out addresses that are not in use and
  \<open>free\<close> kills both parts of a node; \<open>None\<close> is any access to a dead address.
\<close>

section \<open>Nodes\<close>

record znode =
  zn_hcode :: u64
  zn_score :: u64
  zn_name :: bytes

record zmem =
  z_avl :: avlmem
  z_node :: "addr \<rightharpoonup> znode"
  z_next :: addr

record zset =
  zs_root :: ptr
  zs_hmap :: "addr hmap"

definition empty_zset :: zset where
  "empty_zset = \<lparr>zs_root = None, zs_hmap = empty_hmap\<rparr>"

definition zn_rd :: "(znode \<Rightarrow> 'b) \<Rightarrow> zmem \<Rightarrow> ptr \<Rightarrow> 'b option" where
  "zn_rd f m p = (case p of None \<Rightarrow> None | Some a \<Rightarrow> map_option f (z_node m a))"

definition znode_new :: "zmem \<Rightarrow> bytes \<Rightarrow> u64 \<Rightarrow> (zmem \<times> addr) option" where
  "znode_new m name score = do {
     let a = z_next m;
     let m = m\<lparr>z_next := a + 1,
                z_avl := (z_avl m)(a \<mapsto> \<lparr>n_parent = None, n_left = None, n_right = None, n_height = 0, n_cnt = 0\<rparr>),
                z_node := (z_node m)(a \<mapsto> \<lparr>zn_hcode = str_hash name, zn_score = score, zn_name = name\<rparr>)\<rparr>;
     t \<leftarrow> avl_init (z_avl m) (Some a);
     Some (m\<lparr>z_avl := t\<rparr>, a)
   }"

definition znode_del :: "zmem \<Rightarrow> addr \<Rightarrow> zmem option" where
  "znode_del m a = do {
     guard (z_node m a \<noteq> None);
     Some (m\<lparr>z_avl := (z_avl m)(a := None), z_node := (z_node m)(a := None)\<rparr>)
   }"

section \<open>The order of the tuples\<close>

text \<open>The sign of the first difference in the first \<open>n\<close> bytes.\<close>

fun memcmp :: "bytes \<Rightarrow> bytes \<Rightarrow> nat \<Rightarrow> int" where
  "memcmp (x # xs) (y # ys) (Suc n) = (if x = y then memcmp xs ys n else if x < y then - 1 else 1)"
| "memcmp xs ys n = 0"

definition zless_key :: "zmem \<Rightarrow> ptr \<Rightarrow> u64 \<Rightarrow> bytes \<Rightarrow> bool option" where
  "zless_key m lhs score name = do {
     s \<leftarrow> zn_rd zn_score m lhs;
     n \<leftarrow> zn_rd zn_name m lhs;
     if \<not> dbl_eq s score then Some (dbl_lt s score)
     else
       let rv = memcmp n name (min (length n) (length name))
       in if rv \<noteq> 0 then Some (rv < 0) else Some (length n < length name)
   }"

definition zless :: "zmem \<Rightarrow> ptr \<Rightarrow> ptr \<Rightarrow> bool option" where
  "zless m lhs rhs = do {
     s \<leftarrow> zn_rd zn_score m rhs;
     n \<leftarrow> zn_rd zn_name m rhs;
     zless_key m lhs s n
   }"

section \<open>Insertion and update\<close>

text \<open>
  The descent of \<open>tree_insert\<close> from \<open>cur = *from\<close>: the last node passed and the place that
  points to the null found. The place \<open>FromLocal\<close> is \<open>&zset->root\<close>.
\<close>

partial_function (option) tree_slot :: "zmem \<Rightarrow> ptr \<Rightarrow> ptr \<Rightarrow> ptr \<Rightarrow> from_slot \<Rightarrow> (ptr \<times> from_slot) option" where
  "tree_slot m node cur parent from =
     (if cur = None then Some (parent, from)
      else do {
        lt \<leftarrow> zless m node cur;
        next \<leftarrow> (if lt then rd n_left (z_avl m) cur else rd n_right (z_avl m) cur);
        tree_slot m node next cur (if lt then FromLeft cur else FromRight cur)
      })"

definition tree_insert :: "zmem \<Rightarrow> zset \<Rightarrow> addr \<Rightarrow> (zmem \<times> zset) option" where
  "tree_insert m zs node = do {
     (parent, from) \<leftarrow> tree_slot m (Some node) (zs_root zs) None FromLocal;
     t \<leftarrow> wr_from (z_avl m) from (Some node);
     t \<leftarrow> wr (set_parent parent) t (Some node);
     (t, root) \<leftarrow> avl_fix t (Some node);
     Some (m\<lparr>z_avl := t\<rparr>, zs\<lparr>zs_root := root\<rparr>)
   }"

definition zset_update :: "zmem \<Rightarrow> zset \<Rightarrow> addr \<Rightarrow> u64 \<Rightarrow> (zmem \<times> zset) option" where
  "zset_update m zs node score = do {
     s \<leftarrow> zn_rd zn_score m (Some node);
     if dbl_eq s score then Some (m, zs)
     else do {
       (t, root) \<leftarrow> avl_del (z_avl m) (Some node);
       z \<leftarrow> z_node m node;
       t \<leftarrow> avl_init t (Some node);
       tree_insert (m\<lparr>z_avl := t, z_node := (z_node m)(node \<mapsto> z\<lparr>zn_score := score\<rparr>)\<rparr>)
         (zs\<lparr>zs_root := root\<rparr>) node
     }
   }"

definition hcmp :: "zmem \<Rightarrow> bytes \<Rightarrow> addr \<Rightarrow> bool" where
  "hcmp m name a =
     (case z_node m a of
        None \<Rightarrow> False
      | Some z \<Rightarrow> if length (zn_name z) \<noteq> length name then False
                  else memcmp (zn_name z) name (length (zn_name z)) = 0)"

text \<open>A lookup migrates some of the hashtable, so it returns the set as well.\<close>

definition zset_lookup :: "zmem \<Rightarrow> zset \<Rightarrow> bytes \<Rightarrow> (zset \<times> ptr) option" where
  "zset_lookup m zs name =
     (if zs_root zs = None then Some (zs, None)
      else do {
        (h, found) \<leftarrow> hm_lookup (zs_hmap zs) (str_hash name) (hcmp m name);
        Some (zs\<lparr>zs_hmap := h\<rparr>, map_option hobj found)
      })"

definition zset_insert :: "zmem \<Rightarrow> zset \<Rightarrow> bytes \<Rightarrow> u64 \<Rightarrow> (zmem \<times> zset \<times> bool) option" where
  "zset_insert m zs name score = do {
     (zs, node) \<leftarrow> zset_lookup m zs name;
     (case node of
        Some a \<Rightarrow> do { (m, zs) \<leftarrow> zset_update m zs a score; Some (m, zs, False) }
      | None \<Rightarrow> do {
          (m, a) \<leftarrow> znode_new m name score;
          hc \<leftarrow> zn_rd zn_hcode m (Some a);
          h \<leftarrow> hm_insert (zs_hmap zs) \<lparr>hcode = hc, hobj = a\<rparr>;
          (m, zs) \<leftarrow> tree_insert m (zs\<lparr>zs_hmap := h\<rparr>) a;
          Some (m, zs, True)
        })
   }"

section \<open>Deletion\<close>

definition zset_delete :: "zmem \<Rightarrow> zset \<Rightarrow> ptr \<Rightarrow> (zmem \<times> zset) option" where
  "zset_delete m zs node =
     (case node of
        None \<Rightarrow> Some (m, zs)
      | Some a \<Rightarrow> do {
          hc \<leftarrow> zn_rd zn_hcode m node;
          name \<leftarrow> zn_rd zn_name m node;
          (h, found) \<leftarrow> hm_delete (zs_hmap zs) hc (hcmp m name);
          let zs = zs\<lparr>zs_hmap := h\<rparr>;
          if found = None then Some (m, zs)
          else do {
            (t, newRoot) \<leftarrow> avl_del (z_avl m) node;
            let m = m\<lparr>z_avl := t\<rparr>;
            let zs = (if newRoot \<noteq> None then zs\<lparr>zs_root := newRoot\<rparr> else zs);
            m \<leftarrow> znode_del m a;
            Some (m, zs)
          }
        })"

partial_function (option) tree_dispose :: "zmem \<Rightarrow> ptr \<Rightarrow> zmem option" where
  "tree_dispose m node =
     (if node = None then Some m
      else do {
        l \<leftarrow> rd n_left (z_avl m) node;
        m \<leftarrow> tree_dispose m l;
        r \<leftarrow> rd n_right (z_avl m) node;
        m \<leftarrow> tree_dispose m r;
        a \<leftarrow> node;
        znode_del m a
      })"

definition zset_clear :: "zmem \<Rightarrow> zset \<Rightarrow> (zmem \<times> zset) option" where
  "zset_clear m zs = do {
     let zs = zs\<lparr>zs_hmap := hm_clear (zs_hmap zs)\<rparr>;
     m \<leftarrow> tree_dispose m (zs_root zs);
     Some (m, zs\<lparr>zs_root := None\<rparr>)
   }"

section \<open>Range queries\<close>

partial_function (option) seek_loop :: "zmem \<Rightarrow> u64 \<Rightarrow> bytes \<Rightarrow> ptr \<Rightarrow> ptr \<Rightarrow> ptr option" where
  "seek_loop m score name node found =
     (if node = None then Some found
      else do {
        lt \<leftarrow> zless_key m node score name;
        if \<not> lt then do {
          l \<leftarrow> rd n_left (z_avl m) node;
          seek_loop m score name l node
        } else do {
          r \<leftarrow> rd n_right (z_avl m) node;
          seek_loop m score name r found
        }
      })"

definition zset_seekge :: "zmem \<Rightarrow> zset \<Rightarrow> u64 \<Rightarrow> bytes \<Rightarrow> ptr option" where
  "zset_seekge m zs score name = seek_loop m score name (zs_root zs) None"

definition znode_offset :: "zmem \<Rightarrow> ptr \<Rightarrow> int \<Rightarrow> ptr option" where
  "znode_offset m node offset =
     (if node = None then Some None else avl_offset (z_avl m) node offset)"

declare tree_slot.simps [code] tree_dispose.simps [code] seek_loop.simps [code]

end
