(* ===== verification/ZsetOk.thy ===== *)
theory ZsetOk
  imports Zset AvlSearch
begin

text \<open>
  The invariant of the sorted set and what its operations do to the set of members: insertion,
  score update, lookup, deletion and seeking refine a finite map from names to scores whose
  members are listed in (score, name) order.
\<close>

section \<open>The order of zless\<close>

lemma memcmp_lex:
  "memcmp xs ys (min (length xs) (length ys)) < 0 \<or>
   (memcmp xs ys (min (length xs) (length ys)) = 0 \<and> length xs < length ys) \<longleftrightarrow> xs < ys"
proof (induction xs arbitrary: ys)
  case Nil
  then show ?case
    by (cases ys) auto
next
  case (Cons x xs)
  then show ?case
    by (cases ys) auto
qed

lemma memcmp_sign: "memcmp xs ys (min (length xs) (length ys)) \<noteq> 0 \<Longrightarrow>
    (memcmp xs ys (min (length xs) (length ys)) < 0) = (xs < ys)"
  using memcmp_lex [of xs ys] by auto

lemma memcmp_eq: "length xs = length ys \<Longrightarrow> memcmp xs ys (length xs) = 0 \<longleftrightarrow> xs = ys"
  by (induction xs arbitrary: ys; case_tac ys) auto

text \<open>The sort key of a node.\<close>

definition zkey :: "zmem \<Rightarrow> addr \<Rightarrow> int \<times> bytes" where
  "zkey m a = (case z_node m a of None \<Rightarrow> (0, []) | Some z \<Rightarrow> (dord (zn_score z), zn_name z))"

definition zname :: "zmem \<Rightarrow> addr \<Rightarrow> bytes" where
  "zname m a = (case z_node m a of None \<Rightarrow> [] | Some z \<Rightarrow> zn_name z)"

definition zscore :: "zmem \<Rightarrow> addr \<Rightarrow> u64" where
  "zscore m a = (case z_node m a of None \<Rightarrow> 0 | Some z \<Rightarrow> zn_score z)"

definition live_node :: "zmem \<Rightarrow> addr \<Rightarrow> bool" where
  "live_node m a \<longleftrightarrow>
     (case z_node m a of
        None \<Rightarrow> False
      | Some z \<Rightarrow> zn_hcode z = str_hash (zn_name z) \<and> \<not> isnan (zn_score z))"

lemma live_nodeD:
  assumes "live_node m a"
  obtains z where "z_node m a = Some z" "zn_hcode z = str_hash (zn_name z)" "\<not> isnan (zn_score z)"
    "zkey m a = (dord (zn_score z), zn_name z)" "zname m a = zn_name z" "zscore m a = zn_score z"
  using assms by (auto simp: live_node_def zkey_def zname_def zscore_def split: option.splits)

lemma zkey_eq: "zkey m a = (dord (zscore m a), zname m a)" if "live_node m a"
  using that by (auto elim!: live_nodeD)

lemma zless_key_run:
  assumes "live_node m a" "\<not> isnan s"
  shows "zless_key m (Some a) s n = Some (zkey m a < (dord s, n))"
proof -
  obtain z where z: "z_node m a = Some z" "\<not> isnan (zn_score z)" "zkey m a = (dord (zn_score z), zn_name z)"
    using assms(1) by (rule live_nodeD)
  show ?thesis
    using z assms(2) memcmp_lex [of "zn_name z" n] memcmp_sign [of "zn_name z" n]
    by (auto simp: zless_key_def zn_rd_def dbl_eq_def dbl_lt_def less_prod_def' Let_def)
qed

lemma zless_run:
  assumes "live_node m a" "live_node m b"
  shows "zless m (Some a) (Some b) = Some (zkey m a < zkey m b)"
proof -
  obtain z where z: "z_node m b = Some z" "\<not> isnan (zn_score z)" "zkey m b = (dord (zn_score z), zn_name z)"
    using assms(2) by (rule live_nodeD)
  then show ?thesis
    using zless_key_run [OF assms(1) z(2)] by (simp add: zless_def zn_rd_def)
qed

section \<open>The loops\<close>

lemma tree_slot_run:
  assumes "tree_at (z_avl m) q t" "live_node m a" "\<forall>b \<in> set (nodes t). live_node m b"
  defines "p \<equiv> \<lambda>b. zkey m a < zkey m b"
  shows "tree_slot m (Some a) (root t) (up_ptr fs) (slot_of fs) =
    Some (up_ptr (descend p t fs), slot_of (descend p t fs))"
  using assms(1,3)
proof (induction t arbitrary: q fs)
  case Leaf
  then show ?case
    by (subst tree_slot.simps) simp
next
  case (Node l x r)
  obtain b h c where x: "x = (b, h, c)" by (cases x) auto
  have t: "z_avl m b = Some \<lparr>n_parent = q, n_left = root l, n_right = root r, n_height = h, n_cnt = c\<rparr>"
    "tree_at (z_avl m) (Some b) l" "tree_at (z_avl m) (Some b) r"
    using Node.prems by (auto simp: x)
  have z: "zless m (Some a) (Some b) = Some (p b)"
    using zless_run [OF assms(2)] Node.prems by (simp add: x p_def)
  show ?case
    using Node.IH(1) [OF t(2), of "InL x r # fs"] Node.IH(2) [OF t(3), of "InR l x # fs"] Node.prems(2) t z
    by (subst tree_slot.simps) (simp add: x mem_simps)
qed

lemma seek_loop_run:
  assumes "tree_at (z_avl m) q t" "\<not> isnan s" "\<forall>b \<in> set (nodes t). live_node m b"
  shows "seek_loop m s n (root t) found = Some (seek (\<lambda>b. \<not> zkey m b < (dord s, n)) t found)"
  using assms(1,3)
proof (induction t arbitrary: q found)
  case Leaf
  then show ?case
    by (subst seek_loop.simps) simp
next
  case (Node l x r)
  obtain b h c where x: "x = (b, h, c)" by (cases x) auto
  have t: "z_avl m b = Some \<lparr>n_parent = q, n_left = root l, n_right = root r, n_height = h, n_cnt = c\<rparr>"
    "tree_at (z_avl m) (Some b) l" "tree_at (z_avl m) (Some b) r"
    using Node.prems by (auto simp: x)
  have z: "zless_key m (Some b) s n = Some (zkey m b < (dord s, n))"
    using zless_key_run [OF _ assms(2)] Node.prems by (simp add: x)
  show ?case
    using Node.IH(1) [OF t(2)] Node.IH(2) [OF t(3)] Node.prems(2) t z
    by (subst seek_loop.simps) (simp add: x mem_simps)
qed

section \<open>The invariant\<close>

definition zset_inv :: "zmem \<Rightarrow> zset \<Rightarrow> addr atree \<Rightarrow> bool" where
  "zset_inv m zs t \<longleftrightarrow>
     tree_at (z_avl m) None t \<and> zs_root zs = root t
     \<and> (\<forall>a \<in> set (nodes t). live_node m a)
     \<and> sorted_wrt (<) (map (zkey m) (nodes t))
     \<and> hm_ok (zs_hmap zs)
     \<and> image_mset hobj (hm_nodes (zs_hmap zs)) = mset (nodes t)
     \<and> keyed hcode hobj (zname m) (hm_nodes (zs_hmap zs))"

text \<open>Addresses not handed out yet are dead.\<close>

definition unused :: "zmem \<Rightarrow> bool" where
  "unused m \<longleftrightarrow> (\<forall>a \<ge> z_next m. z_avl m a = None \<and> z_node m a = None)"

text \<open>The score of each member.\<close>

definition content :: "zmem \<Rightarrow> addr atree \<Rightarrow> bytes \<Rightarrow> u64 option" where
  "content m t = map_of (map (\<lambda>a. (zname m a, zscore m a)) (nodes t))"

definition same_memory :: "zmem \<Rightarrow> zmem \<Rightarrow> addr set \<Rightarrow> bool" where
  "same_memory m m' A \<longleftrightarrow> (\<forall>a. a \<notin> A \<longrightarrow> z_avl m' a = z_avl m a \<and> z_node m' a = z_node m a)"

lemma same_memory_refl [simp]: "same_memory m m A"
  by (simp add: same_memory_def)

lemma zset_inv_distinct: "zset_inv m zs t \<Longrightarrow> distinct (nodes t)"
proof -
  assume "zset_inv m zs t"
  then have "distinct (map (zkey m) (nodes t))"
    by (auto simp: zset_inv_def strict_sorted_iff)
  then show ?thesis
    by (simp add: distinct_map)
qed

lemma zset_inv_empty [simp]: "zset_inv m empty_zset Leaf"
  by (simp add: zset_inv_def empty_zset_def)

lemma zset_names_inj:
  assumes "zset_inv m zs t" "a \<in> set (nodes t)" "b \<in> set (nodes t)" "zname m a = zname m b"
  shows "a = b"
proof -
  let ?M = "hm_nodes (zs_hmap zs)"
  have k: "keyed hcode hobj (zname m) ?M" and s: "set_mset (image_mset hobj ?M) = set (nodes t)"
    using assms(1) by (simp_all add: zset_inv_def)
  obtain n n' where "n \<in># ?M" "n' \<in># ?M" "a = hobj n" "b = hobj n'"
    using assms(2,3) unfolding s [symmetric] by auto
  then show ?thesis
    using keyed_unique [OF k, of n n'] assms(4) by simp
qed

lemma content_Some:
  assumes "zset_inv m zs t"
  shows "content m t name = Some s \<longleftrightarrow> (\<exists>a \<in> set (nodes t). zname m a = name \<and> zscore m a = s)"
proof -
  have "inj_on (zname m) (set (nodes t))"
    using zset_names_inj [OF assms] by (auto simp: inj_on_def)
  then have "distinct (map fst (map (\<lambda>a. (zname m a, zscore m a)) (nodes t)))"
    using zset_inv_distinct [OF assms] by (simp add: distinct_map comp_def)
  from map_of_eq_Some_iff [OF this] show ?thesis
    by (auto simp: content_def)
qed

lemma content_None:
  assumes "zset_inv m zs t"
  shows "content m t name = None \<longleftrightarrow> (\<forall>a \<in> set (nodes t). zname m a \<noteq> name)"
  using content_Some [OF assms, of name] by (metis not_Some_eq)

lemma binds_nodes:
  assumes "zset_inv m zs t"
  shows "binds hobj (zname m) (hm_nodes (zs_hmap zs)) name a \<longleftrightarrow> a \<in> set (nodes t) \<and> zname m a = name"
proof -
  have "set_mset (image_mset hobj (hm_nodes (zs_hmap zs))) = set (nodes t)"
    using assms by (simp add: zset_inv_def)
  then show ?thesis
    by (auto simp: binds_def)
qed

section \<open>Lookup\<close>

lemma hcmp_name: "live_node m a \<Longrightarrow> hcmp m name a \<longleftrightarrow> zname m a = name"
  using memcmp_eq by (auto simp: hcmp_def elim!: live_nodeD)

text \<open>
  A lookup and a detachment in the hashtable only ask \<open>hcmp\<close> about nodes of the table, so
  \<open>hcmp\<close> can be read as equality of names.
\<close>

lemma chain_find_cong:
  "(\<And>n. n \<in> set c \<Longrightarrow> eq (hobj n) = eq' (hobj n)) \<Longrightarrow> chain_find hc eq c = chain_find hc eq' c"
  by (induction c) auto

lemma h_lookup_cong:
  assumes "\<And>n. n \<in># tab_nodes t \<Longrightarrow> eq (hobj n) = eq' (hobj n)"
  shows "h_lookup t hc eq = h_lookup t hc eq'"
proof (cases "htab_tab t")
  case (Some slots)
  have "chain_find hc eq (slots ! i) = chain_find hc eq' (slots ! i)" if "i < length slots" for i
  proof (rule chain_find_cong)
    fix n assume "n \<in> set (slots ! i)"
    then have "n \<in># tab_nodes t"
      using Some that by (auto simp: tab_nodes_def intro!: bexI [of _ "slots ! i"])
    then show "eq (hobj n) = eq' (hobj n)"
      by (rule assms)
  qed
  then show ?thesis
    using Some by (cases "h_slot t hc < length slots") (simp_all add: h_lookup_def Let_def)
qed (simp add: h_lookup_def)

lemma hm_op_cong:
  assumes "hm_ok h" "\<And>n. n \<in># hm_nodes h \<Longrightarrow> eq (hobj n) = eq' (hobj n)"
  shows "hm_lookup h hc eq = hm_lookup h hc eq'" "hm_delete h hc eq = hm_delete h hc eq'"
proof -
  obtain g where g: "hm_help_rehashing h = Some g" "hm_nodes g = hm_nodes h"
    using hm_help_rehashing_ok [OF assms(1)] by auto
  have "n \<in># hm_nodes h" if "n \<in># tab_nodes (newer g) \<or> n \<in># tab_nodes (older g)" for n
    using that unfolding g(2) [symmetric] by (auto simp: hm_nodes_def)
  then have "h_lookup (newer g) hc eq = h_lookup (newer g) hc eq'" "h_lookup (older g) hc eq = h_lookup (older g) hc eq'"
    using assms(2) by (auto intro!: h_lookup_cong)
  then show "hm_lookup h hc eq = hm_lookup h hc eq'" "hm_delete h hc eq = hm_delete h hc eq'"
    by (simp_all add: hm_lookup_def hm_delete_def g(1))
qed

lemma hmap_eq_name:
  assumes "zset_inv m zs t" "n \<in># hm_nodes (zs_hmap zs)"
  shows "hcmp m name (hobj n) = (zname m (hobj n) = name)"
proof -
  have "hobj n \<in> set (nodes t)"
    using binds_nodes [OF assms(1), of "zname m (hobj n)" "hobj n"] assms(2) by (auto simp: binds_def)
  then show ?thesis
    using assms(1) hcmp_name by (auto simp: zset_inv_def)
qed

lemma zset_lookup_ok:
  assumes "zset_inv m zs t"
  shows "\<exists>zs' p. zset_lookup m zs name = Some (zs', p) \<and> zset_inv m zs' t \<and>
    (case p of None \<Rightarrow> content m t name = None
     | Some a \<Rightarrow> a \<in> set (nodes t) \<and> zname m a = name \<and> content m t name = Some (zscore m a))"
proof (cases "zs_root zs = None")
  case True
  then have "t = Leaf"
    using assms root_eq_None [of t] by (simp add: zset_inv_def)
  then show ?thesis
    using assms True by (simp add: zset_lookup_def content_def)
next
  case False
  have ok: "hm_ok (zs_hmap zs)" "keyed hcode hobj (zname m) (hm_nodes (zs_hmap zs))"
    using assms by (simp_all add: zset_inv_def)
  have "hm_lookup (zs_hmap zs) (str_hash name) (hcmp m name) =
      hm_lookup (zs_hmap zs) (str_hash name) (\<lambda>a. zname m a = name)"
    by (rule hm_op_cong(1)) (use ok(1) hmap_eq_name [OF assms] in auto)
  then obtain h r where l: "hm_lookup (zs_hmap zs) (str_hash name) (hcmp m name) = Some (h, r)" "hm_ok h"
    "hm_nodes h = hm_nodes (zs_hmap zs)"
    "\<And>a. (\<exists>n. r = Some n \<and> hobj n = a) \<longleftrightarrow> a \<in> set (nodes t) \<and> zname m a = name"
    using hm.find_key [OF ok, of name] binds_nodes [OF assms] by auto
  let ?zs = "zs\<lparr>zs_hmap := h\<rparr>"
  have "zset_inv m ?zs t"
    using assms l(2,3) by (simp add: zset_inv_def)
  moreover have "zset_lookup m zs name = Some (?zs, map_option hobj r)"
    using False l(1) by (simp add: zset_lookup_def del: not_None_eq)
  moreover have "content m t name = None" if "r = None"
    using l(4) that by (auto simp: content_None [OF assms])
  moreover have "hobj n \<in> set (nodes t)" "zname m (hobj n) = name" "content m t name = Some (zscore m (hobj n))"
    if "r = Some n" for n
    using l(4) [of "hobj n"] that by (auto simp: content_Some [OF assms])
  ultimately show ?thesis
    by (cases r) auto
qed

section \<open>Insertion into the tree\<close>

lemma sorted_upward:
  fixes f :: "'a \<Rightarrow> 'b :: linorder"
  assumes "sorted_wrt (<) (map f xs)"
  shows "upward (\<lambda>b. k < f b) xs" "upward (\<lambda>b. \<not> f b < k) xs"
  using assms by (auto simp: sorted_wrt_map elim!: sorted_wrt_mono_rel [rotated] intro: less_trans)

lemma sorted_insert_filter:
  fixes f :: "'a \<Rightarrow> 'b :: linorder"
  assumes "sorted_wrt (<) (map f xs)" "f a \<notin> f ` set xs"
  shows "sorted_wrt (<) (map f (filter (\<lambda>b. \<not> f a < f b) xs @ a # filter (\<lambda>b. f a < f b) xs))"
proof -
  have "sorted_wrt (<) (map f (filter P xs))" for P
    using assms(1) sorted_wrt_filter by (auto simp: sorted_wrt_map)
  moreover have "f b < f a" if "b \<in> set xs" "\<not> f a < f b" for b
    using that assms(2) by (metis imageI linorder_neqE)
  ultimately show ?thesis
    by (auto simp: sorted_wrt_append intro: less_trans)
qed

lemma mset_filter_split: "mset (filter (\<lambda>b. \<not> P b) xs @ a # filter P xs) = add_mset a (mset xs)"
  by (induction xs) auto

lemma tree_insert_ok:
  assumes t: "tree_at (z_avl m) None t" "zs_root zs = root t"
    and live: "\<forall>b \<in> set (nodes t). live_node m b" "live_node m a"
    and srt: "sorted_wrt (<) (map (zkey m) (nodes t))" "zkey m a \<notin> zkey m ` set (nodes t)"
    and a: "z_avl m a = Some fresh_node"
    and h: "hle K t" "K + 2 * size t + 3 < 2 ^ 32"
  shows "\<exists>m' zs' t'. tree_insert m zs a = Some (m', zs') \<and> z_node m' = z_node m \<and> z_next m' = z_next m
    \<and> zs_hmap zs' = zs_hmap zs \<and> tree_at (z_avl m') None t' \<and> zs_root zs' = root t'
    \<and> sorted_wrt (<) (map (zkey m) (nodes t')) \<and> mset (nodes t') = add_mset a (mset (nodes t))
    \<and> hle (K + 2 * size t + 3) t' \<and> same_except (z_avl m) (z_avl m') (set (nodes t'))
    \<and> (avl t \<and> size t + 5 < 2 ^ 32 \<longrightarrow> avl t')"
proof -
  let ?p = "\<lambda>b. zkey m a < zkey m b"
  let ?fs = "descend ?p t []"
  let ?t = "fix_up (leaf_node a) ?fs"
  have up: "upward ?p (nodes t)"
    by (rule sorted_upward(1) [OF srt(1)])
  have d: "distinct (a # nodes t)"
    using srt by (auto simp: strict_sorted_iff distinct_map)
  obtain m1 m2 m3 where r: "wr_from (z_avl m) (slot_of ?fs) (Some a) = Some m1"
    "wr (set_parent (up_ptr ?fs)) m1 (Some a) = Some m2" "avl_fix m2 (Some a) = Some (m3, root ?t)"
    "tree_at m3 None ?t" "same_except (z_avl m) m3 (set (nodes ?t))"
    "nodes ?t = filter (\<lambda>x. \<not> ?p x) (nodes t) @ a # filter ?p (nodes t)" "hle (K + 2 * size t + 3) ?t"
    using insert_leaf [OF t(1) up d a h] by blast
  have slot: "tree_slot m (Some a) (zs_root zs) None FromLocal = Some (up_ptr ?fs, slot_of ?fs)"
    using tree_slot_run [OF t(1) live(2,1), of "[]"] t(2) by simp
  have "tree_insert m zs a = Some (m\<lparr>z_avl := m3\<rparr>, zs\<lparr>zs_root := root ?t\<rparr>)"
    using r(1-3) slot by (simp add: tree_insert_def)
  moreover have "sorted_wrt (<) (map (zkey m) (nodes ?t))"
    unfolding r(6) by (rule sorted_insert_filter [OF srt])
  moreover have "mset (nodes ?t) = add_mset a (mset (nodes t))"
    unfolding r(6) by (rule mset_filter_split)
  moreover have "avl ?t" if "avl t" "size t + 5 < 2 ^ 32"
    using that by (intro avl_insert_at) simp_all
  ultimately show ?thesis
    using r(4,5,7) by (intro exI [of _ "m\<lparr>z_avl := m3\<rparr>"] exI [of _ "zs\<lparr>zs_root := root ?t\<rparr>"] exI [of _ ?t]) simp
qed

section \<open>Insertion into the set\<close>

lemma select_convs_zset: "zs_hmap (zs\<lparr>zs_hmap := h\<rparr>) = h"
  by simp

lemma option_eqI: "(\<And>v. x = Some v \<longleftrightarrow> y = Some v) \<Longrightarrow> x = y"
  by (metis option.exhaust)

lemma node_cong:
  assumes "z_node m' a = z_node m a"
  shows "zkey m' a = zkey m a" "zname m' a = zname m a" "zscore m' a = zscore m a" "live_node m' a = live_node m a"
  using assms by (simp_all add: zkey_def zname_def zscore_def live_node_def)

lemma keyed_cong:
  assumes "\<And>n. n \<in># M \<Longrightarrow> key' (ob n) = key (ob n)"
  shows "keyed hc ob key' M = keyed hc ob key M"
proof -
  have "filter_mset (\<lambda>n. key' (ob n) = k) M = filter_mset (\<lambda>n. key (ob n) = k) M" for k
    using assms by (intro filter_mset_cong) auto
  then show ?thesis
    using assms by (auto simp: keyed_def)
qed

lemma zset_hobj_mem:
  assumes "zset_inv m zs t" "n \<in># hm_nodes (zs_hmap zs)"
  shows "hobj n \<in> set (nodes t)"
  using binds_nodes [OF assms(1), of "zname m (hobj n)" "hobj n"] assms(2) by (auto simp: binds_def)

lemma map_keys_cong:
  assumes "\<forall>b \<in> set xs. z_node m' b = z_node m b"
  shows "map (zkey m') xs = map (zkey m) xs"
  using assms by (auto intro: node_cong)

text \<open>How much an operation may add to the largest stored height.\<close>

definition height_cost :: "addr atree \<Rightarrow> nat" where
  "height_cost t = 4 * size t + 4"

lemma zset_add_node_ok:
  assumes inv: "zset_inv m zs t" and un: "unused m" and new: "content m t name = None" and s: "\<not> isnan s"
    and h: "hle K t" "K + height_cost t < 2 ^ 32"
  shows "\<exists>m1 a hm1 m' zs' t'. znode_new m name s = Some (m1, a) \<and> zn_rd zn_hcode m1 (Some a) = Some (str_hash name)
    \<and> hm_insert (zs_hmap zs) \<lparr>hcode = str_hash name, hobj = a\<rparr> = Some hm1
    \<and> tree_insert m1 (zs\<lparr>zs_hmap := hm1\<rparr>) a = Some (m', zs') \<and> zset_inv m' zs' t' \<and> unused m'
    \<and> content m' t' = (content m t)(name \<mapsto> s) \<and> set (nodes t') = insert (z_next m) (set (nodes t))
    \<and> same_memory m m' (set (nodes t')) \<and> z_next m' = Suc (z_next m)
    \<and> size t' = Suc (size t) \<and> hle (K + height_cost t) t' \<and> (avl t \<and> size t + 5 < 2 ^ 32 \<longrightarrow> avl t')"
proof -
  let ?a = "z_next m"
  define z where "z = \<lparr>zn_hcode = str_hash name, zn_score = s, zn_name = name\<rparr>"
  define m1 where "m1 = m\<lparr>z_next := ?a + 1, z_avl := (z_avl m)(?a \<mapsto> fresh_node), z_node := (z_node m)(?a \<mapsto> z)\<rparr>"
  have new1: "znode_new m name s = Some (m1, ?a)"
    by (simp add: znode_new_def avl_init_def wr_simps m1_def z_def fresh_node_def Let_def)
  have i: "tree_at (z_avl m) None t" "zs_root zs = root t" "\<forall>b \<in> set (nodes t). live_node m b"
    "sorted_wrt (<) (map (zkey m) (nodes t))" "hm_ok (zs_hmap zs)"
    "image_mset hobj (hm_nodes (zs_hmap zs)) = mset (nodes t)"
    "keyed hcode hobj (zname m) (hm_nodes (zs_hmap zs))"
    using inv by (simp_all add: zset_inv_def)
  have fresh: "?a \<notin> set (nodes t)"
    using un tree_at_dom [OF i(1)] by (force simp: unused_def)
  have same: "\<forall>b \<in> set (nodes t). z_node m1 b = z_node m b"
    using fresh by (auto simp: m1_def)
  have live1: "\<forall>b \<in> set (nodes t). live_node m1 b" "live_node m1 ?a"
    using i(3) same node_cong(4) s by (auto simp: live_node_def m1_def z_def)
  have a1: "zname m1 ?a = name" "zscore m1 ?a = s"
    by (simp_all add: zname_def zscore_def m1_def z_def)
  have names: "zname m1 b \<noteq> name" if "b \<in> set (nodes t)" for b
    using new same that node_cong(2) [of m1 b m] by (auto simp: content_None [OF inv])
  have key1: "zkey m1 ?a \<notin> zkey m1 ` set (nodes t)"
    using live1 a1 zkey_eq names by (metis (no_types, lifting) imageE prod.inject)
  have k1: "keyed hcode hobj (zname m1) (hm_nodes (zs_hmap zs))"
    using i(7) keyed_cong [of "hm_nodes (zs_hmap zs)" "zname m1" hobj "zname m"]
      zset_hobj_mem [OF inv] same node_cong(2) by metis
  let ?n = "\<lparr>hcode = str_hash name, hobj = ?a\<rparr>"
  obtain hm1 where hm1: "hm_insert (zs_hmap zs) ?n = Some hm1" "hm_ok hm1"
    "hm_nodes hm1 = add_mset ?n (hm_nodes (zs_hmap zs))"
    using hm_insert_ok [OF i(5)] by blast
  have khm: "keyed hcode hobj (zname m1) (hm_nodes hm1)"
    unfolding hm1(3)
  proof (rule keyed_add [OF k1])
    show "\<not> binds hobj (zname m1) (hm_nodes (zs_hmap zs)) (zname m1 (hobj ?n)) x" for x
      using names zset_hobj_mem [OF inv] a1 by (auto simp: binds_def)
  qed (simp add: a1)
  have t1: "tree_at (z_avl m1) None t" "z_avl m1 ?a = Some fresh_node"
    using i(1) fresh by (simp_all add: m1_def)
  obtain m' zs' t' where r: "tree_insert m1 (zs\<lparr>zs_hmap := hm1\<rparr>) ?a = Some (m', zs')" "z_node m' = z_node m1"
    "z_next m' = z_next m1" "zs_hmap zs' = hm1" "tree_at (z_avl m') None t'" "zs_root zs' = root t'"
    "sorted_wrt (<) (map (zkey m1) (nodes t'))" "mset (nodes t') = add_mset ?a (mset (nodes t))"
    "hle (K + 2 * size t + 3) t'" "same_except (z_avl m1) (z_avl m') (set (nodes t'))"
    "avl t \<and> size t + 5 < 2 ^ 32 \<longrightarrow> avl t'"
  proof -
    have "sorted_wrt (<) (map (zkey m1) (nodes t))"
      using i(4) by (simp only: map_keys_cong [OF same])
    moreover have "K + 2 * size t + 3 < 2 ^ 32"
      using h(2) by (simp add: height_cost_def)
    moreover have "zs_root (zs\<lparr>zs_hmap := hm1\<rparr>) = root t"
      using i(2) by simp
    ultimately show thesis
      using tree_insert_ok [OF t1(1) _ live1 _ key1 t1(2) h(1)] that by (metis select_convs_zset)
  qed
  have nodes': "set (nodes t') = insert ?a (set (nodes t))" "size t' = Suc (size t)"
    using mset_eq_setD [of "nodes t'" "?a # nodes t"] mset_eq_length [of "nodes t'" "?a # nodes t"] r(8)
    by simp_all
  have nd: "zkey m' b = zkey m1 b" "zname m' b = zname m1 b" "zscore m' b = zscore m1 b" "live_node m' b = live_node m1 b" for b
    using node_cong [of m' b m1] r(2) by simp_all
  have inv': "zset_inv m' zs' t'"
    unfolding zset_inv_def
  proof (intro conjI)
    show "\<forall>b \<in> set (nodes t'). live_node m' b"
      using nodes'(1) live1 nd by auto
    show "sorted_wrt (<) (map (zkey m') (nodes t'))"
      using r(7) nd(1) by (simp cong: map_cong)
    show "image_mset hobj (hm_nodes (zs_hmap zs')) = mset (nodes t')"
      using i(6) r(4,8) hm1(3) by simp
    show "keyed hcode hobj (zname m') (hm_nodes (zs_hmap zs'))"
      using khm r(4) nd(2) keyed_cong [of "hm_nodes hm1" "zname m'" hobj "zname m1"] by simp
  qed (use r hm1 in simp_all)
  have "unused m'"
    unfolding unused_def
  proof (intro allI impI)
    fix b assume "z_next m' \<le> b"
    then have b: "?a < b" "b \<notin> set (nodes t)"
      using r(3) un tree_at_dom [OF i(1), of b] by (auto simp: m1_def unused_def)
    then have "z_avl m' b = z_avl m1 b"
      using r(10) nodes'(1) by (auto simp: same_except_def)
    then show "z_avl m' b = None \<and> z_node m' b = None"
      using b un r(2) by (simp add: m1_def unused_def)
  qed
  moreover have "content m' t' nm = ((content m t)(name \<mapsto> s)) nm" for nm
  proof (rule option_eqI)
    fix v
    have "zname m' b = zname m b \<and> zscore m' b = zscore m b" if "b \<in> set (nodes t)" for b
      using nd same that node_cong [of m1 b m] by simp
    then show "content m' t' nm = Some v \<longleftrightarrow> ((content m t)(name \<mapsto> s)) nm = Some v"
      using nodes'(1) nd a1 names content_Some [OF inv', of nm v] content_Some [OF inv, of nm v] by auto
  qed
  then have "content m' t' = (content m t)(name \<mapsto> s)"
    by blast
  moreover have "same_memory m m' (set (nodes t'))"
    using r(2,10) nodes'(1) by (auto simp: same_memory_def same_except_def m1_def)
  moreover have "hle (K + height_cost t) t'"
    using r(9) by (rule hle_mono) (simp add: height_cost_def)
  moreover have "zn_rd zn_hcode m1 (Some ?a) = Some (str_hash name)"
    by (simp add: zn_rd_def m1_def z_def)
  ultimately show ?thesis
    using new1 hm1(1) r(1,3,11) inv' nodes'
    by (intro exI [of _ m1] exI [of _ ?a] exI [of _ hm1] exI [of _ m'] exI [of _ zs'] exI [of _ t'])
      (simp add: m1_def)
qed

text \<open>What an operation on a set promises about the memory around it.\<close>

definition zset_step :: "nat \<Rightarrow> zmem \<Rightarrow> addr atree \<Rightarrow> zmem \<Rightarrow> zset \<Rightarrow> addr atree \<Rightarrow> bool" where
  "zset_step K m t m' zs' t' \<longleftrightarrow>
     zset_inv m' zs' t' \<and> unused m' \<and> set (nodes t') \<subseteq> insert (z_next m) (set (nodes t))
     \<and> same_memory m m' (insert (z_next m) (set (nodes t))) \<and> z_next m \<le> z_next m'
     \<and> size t' \<le> Suc (size t) \<and> hle (K + height_cost t) t'"

lemma filter_neq_mset:
  assumes "distinct xs" "a \<in> set xs"
  shows "add_mset a (mset (filter (\<lambda>b. b \<noteq> a) xs)) = mset xs"
proof -
  have "filter (\<lambda>b. b \<noteq> a) xs = remove1 a xs"
    using assms(1) by (simp add: distinct_remove1_removeAll removeAll_filter_not_eq eq_commute)
  then show ?thesis
    using assms(2) by simp
qed

lemma zset_update_ok:
  assumes inv: "zset_inv m zs t" and un: "unused m" and a: "a \<in> set (nodes t)" and s: "\<not> isnan s"
    and h: "hle K t" "K + height_cost t < 2 ^ 32"
  shows "\<exists>m' zs' t'. zset_update m zs a s = Some (m', zs') \<and> zset_step K m t m' zs' t' \<and> set (nodes t') = set (nodes t)
    \<and> content m' t' = (content m t)(zname m a \<mapsto> (if dbl_eq (zscore m a) s then zscore m a else s))"
proof -
  have i: "tree_at (z_avl m) None t" "zs_root zs = root t" "\<forall>b \<in> set (nodes t). live_node m b"
    "sorted_wrt (<) (map (zkey m) (nodes t))" "hm_ok (zs_hmap zs)"
    "image_mset hobj (hm_nodes (zs_hmap zs)) = mset (nodes t)"
    "keyed hcode hobj (zname m) (hm_nodes (zs_hmap zs))"
    using inv by (simp_all add: zset_inv_def)
  obtain z where z: "z_node m a = Some z" "zn_hcode z = str_hash (zn_name z)" "\<not> isnan (zn_score z)"
    "zname m a = zn_name z" "zscore m a = zn_score z"
    using i(3) a by (auto elim: live_nodeD)
  have d: "distinct (nodes t)"
    using inv by (rule zset_inv_distinct)
  show ?thesis
  proof (cases "dbl_eq (zn_score z) s")
    case True
    then have "zset_update m zs a s = Some (m, zs)"
      by (simp add: zset_update_def zn_rd_def z(1))
    moreover have "content m t (zname m a) = Some (zscore m a)"
      using a by (auto simp: content_Some [OF inv])
    then have "(content m t)(zname m a \<mapsto> zscore m a) = content m t"
      by auto
    ultimately show ?thesis
      using True inv un h(1) hle_mono [OF h(1), of "K + height_cost t"] z(5)
      by (intro exI [of _ m] exI [of _ zs] exI [of _ t]) (auto simp: zset_step_def)
  next
    case False
    obtain t1 td where dl: "avl_del (z_avl m) (Some a) = Some (t1, root td)" "tree_at t1 None td"
      "nodes td = filter (\<lambda>b. b \<noteq> a) (nodes t)" "same_except (z_avl m) t1 (set (nodes t))" "t1 a \<noteq> None"
      "hle (K + 2 * size t) td"
      using avl_del_ok [OF i(1) d a h(1)] h(2) by (auto simp: height_cost_def)
    define m1 where "m1 = m\<lparr>z_avl := t1(a \<mapsto> fresh_node), z_node := (z_node m)(a \<mapsto> z\<lparr>zn_score := s\<rparr>)\<rparr>"
    have msd: "add_mset a (mset (nodes td)) = mset (nodes t)"
      unfolding dl(3) by (rule filter_neq_mset [OF d a])
    have std: "Suc (size td) = size t"
      using mset_eq_length [of "a # nodes td" "nodes t"] msd by simp
    have an: "a \<notin> set (nodes td)"
      by (simp add: dl(3))
    have same: "\<forall>b \<in> set (nodes td). z_node m1 b = z_node m b"
      using an by (auto simp: m1_def)
    have sub: "set (nodes td) \<subseteq> set (nodes t)"
      by (auto simp: dl(3))
    have live1: "\<forall>b \<in> set (nodes td). live_node m1 b" "live_node m1 a"
      using i(3) sub same node_cong(4) z(2) s by (auto simp: live_node_def m1_def)
    have a1: "zname m1 a = zname m a" "zscore m1 a = s"
      by (simp_all add: zname_def zscore_def m1_def z(1))
    have nm1: "zname m1 b = zname m b" for b
      using a1(1) node_cong(2) [of m1 b m] by (cases "b = a") (simp_all add: m1_def)
    have names: "zname m1 b \<noteq> zname m1 a" if "b \<in> set (nodes td)" for b
      using zset_names_inj [OF inv, of b a] that sub an a nm1 by auto
    have srt: "sorted_wrt (<) (map (zkey m1) (nodes td))"
      unfolding map_keys_cong [OF same] unfolding dl(3) using i(4) by (simp add: sorted_wrt_map sorted_wrt_filter)
    have key1: "zkey m1 a \<notin> zkey m1 ` set (nodes td)"
      using live1 zkey_eq names by (metis (no_types, lifting) imageE prod.inject)
    have t1: "tree_at (z_avl m1) None td" "z_avl m1 a = Some fresh_node"
      using dl(2) an by (simp_all add: m1_def)
    have hb: "(K + 2 * size t) + 2 * size td + 3 < 2 ^ 32"
      using h(2) std by (simp add: height_cost_def)
    have rt: "zs_root (zs\<lparr>zs_root := root td\<rparr>) = root td"
      by simp
    obtain m' zs' t' where r: "tree_insert m1 (zs\<lparr>zs_root := root td\<rparr>) a = Some (m', zs')" "z_node m' = z_node m1"
      "z_next m' = z_next m1" "zs_hmap zs' = zs_hmap (zs\<lparr>zs_root := root td\<rparr>)" "tree_at (z_avl m') None t'" "zs_root zs' = root t'"
      "sorted_wrt (<) (map (zkey m1) (nodes t'))" "mset (nodes t') = add_mset a (mset (nodes td))"
      "hle ((K + 2 * size t) + 2 * size td + 3) t'" "same_except (z_avl m1) (z_avl m') (set (nodes t'))"
      using tree_insert_ok [OF t1(1) rt live1 srt key1 t1(2) dl(6) hb] by blast
    have nodes': "set (nodes t') = set (nodes t)" "size t' = size t"
      using mset_eq_setD [of "nodes t'" "nodes t"] mset_eq_length [of "nodes t'" "nodes t"] r(8) msd by simp_all
    have nd: "zkey m' b = zkey m1 b" "zname m' b = zname m1 b" "zscore m' b = zscore m1 b" "live_node m' b = live_node m1 b" for b
      using node_cong [of m' b m1] r(2) by simp_all
    have inv': "zset_inv m' zs' t'"
      unfolding zset_inv_def
    proof (intro conjI)
      have "set (nodes t) = insert a (set (nodes td))"
        using mset_eq_setD [of "a # nodes td" "nodes t"] msd by simp
      then show "\<forall>b \<in> set (nodes t'). live_node m' b"
        using nodes'(1) live1 nd by auto
      show "sorted_wrt (<) (map (zkey m') (nodes t'))"
        using r(7) nd(1) by (simp cong: map_cong)
      show "image_mset hobj (hm_nodes (zs_hmap zs')) = mset (nodes t')"
        using i(6) r(4,8) msd by simp
      show "keyed hcode hobj (zname m') (hm_nodes (zs_hmap zs'))"
        using i(7) r(4) nd(2) nm1 keyed_cong [of "hm_nodes (zs_hmap zs)" "zname m'" hobj "zname m"] by simp
    qed (use r i in simp_all)
    have sm: "same_memory m m' (set (nodes t))"
      using r(2,10) nodes'(1) dl(4) a by (auto simp: same_memory_def same_except_def m1_def)
    have sc: "zscore m' b = (if b = a then s else zscore m b)" for b
      using nd(3) a1(2) node_cong(3) [of m1 b m] by (simp add: m1_def)
    have "content m' t' nm = ((content m t)(zname m a \<mapsto> s)) nm" for nm
    proof (cases "nm = zname m a")
      case True
      then show ?thesis
        using nodes'(1) a nd(2) nm1 sc by (auto simp: content_Some [OF inv'])
    next
      case False
      then have "b \<in> set (nodes t) \<and> zname m b = nm \<and> zscore m' b = v \<longleftrightarrow> b \<in> set (nodes t) \<and> zname m b = nm \<and> zscore m b = v" for b v
        using sc by auto
      then show ?thesis
        using False nodes'(1) nd(2) nm1 content_Some [OF inv', of nm] content_Some [OF inv, of nm]
        by (intro option_eqI) (simp, metis)
    qed
    then have "content m' t' = (content m t)(zname m a \<mapsto> s)"
      by blast
    moreover have "zset_update m zs a s = Some (m', zs')"
      using False r(1) dl(1) dl(5)
      by (auto simp: zset_update_def zn_rd_def z(1) avl_init_def wr_simps m1_def fresh_node_def)
    moreover have "zset_step K m t m' zs' t'"
      unfolding zset_step_def
    proof (intro conjI)
      show "unused m'"
        unfolding unused_def
      proof (intro allI impI)
        fix b assume b: "z_next m' \<le> b"
        then have "b \<notin> set (nodes t)"
          using un tree_at_dom [OF i(1), of b] r(3) by (auto simp: m1_def unused_def)
        then show "z_avl m' b = None \<and> z_node m' b = None"
          using sm un b r(3) by (simp add: same_memory_def unused_def m1_def)
      qed
      show "hle (K + height_cost t) t'"
        using r(9) by (rule hle_mono) (use std in \<open>simp add: height_cost_def\<close>)
    qed (use inv' nodes' sm r(3) in \<open>auto simp: same_memory_def m1_def\<close>)
    ultimately show ?thesis
      using nodes'(1) False z(5) by auto
  qed
qed

lemma zset_insert_ok:
  assumes inv: "zset_inv m zs t" and un: "unused m" and s: "\<not> isnan s"
    and h: "hle K t" "K + height_cost t < 2 ^ 32"
  shows "\<exists>m' zs' t'. zset_insert m zs name s = Some (m', zs', content m t name = None) \<and> zset_step K m t m' zs' t'
    \<and> content m' t' = (content m t)(name \<mapsto>
        (case content m t name of Some s0 \<Rightarrow> if dbl_eq s0 s then s0 else s | None \<Rightarrow> s))
    \<and> (avl t \<and> content m t name = None \<and> size t + 5 < 2 ^ 32 \<longrightarrow> avl t')"
proof -
  obtain zs1 p where l: "zset_lookup m zs name = Some (zs1, p)" "zset_inv m zs1 t"
    "case p of None \<Rightarrow> content m t name = None
     | Some a \<Rightarrow> a \<in> set (nodes t) \<and> zname m a = name \<and> content m t name = Some (zscore m a)"
    using zset_lookup_ok [OF inv] by blast
  show ?thesis
  proof (cases p)
    case None
    then have new: "content m t name = None"
      using l(3) by simp
    obtain m1 a hm1 m' zs' t' where r: "znode_new m name s = Some (m1, a)" "zn_rd zn_hcode m1 (Some a) = Some (str_hash name)"
      "hm_insert (zs_hmap zs1) \<lparr>hcode = str_hash name, hobj = a\<rparr> = Some hm1"
      "tree_insert m1 (zs1\<lparr>zs_hmap := hm1\<rparr>) a = Some (m', zs')" "zset_inv m' zs' t'" "unused m'"
      "content m' t' = (content m t)(name \<mapsto> s)" "set (nodes t') = insert (z_next m) (set (nodes t))"
      "same_memory m m' (set (nodes t'))" "z_next m' = Suc (z_next m)"
      "size t' = Suc (size t)" "hle (K + height_cost t) t'" "avl t \<and> size t + 5 < 2 ^ 32 \<longrightarrow> avl t'"
      using zset_add_node_ok [OF l(2) un new s h] by metis
    have "zset_insert m zs name s = Some (m', zs', True)"
      using l(1) r(1-4) None by (simp add: zset_insert_def)
    moreover have "zset_step K m t m' zs' t'"
      using r by (simp add: zset_step_def)
    ultimately show ?thesis
      using r(7,13) new by (intro exI [of _ m'] exI [of _ zs'] exI [of _ t']) simp
  next
    case (Some a)
    then have a: "a \<in> set (nodes t)" "zname m a = name" "content m t name = Some (zscore m a)"
      using l(3) by simp_all
    obtain m' zs' t' where r: "zset_update m zs1 a s = Some (m', zs')" "zset_step K m t m' zs' t'"
      "content m' t' = (content m t)(zname m a \<mapsto> (if dbl_eq (zscore m a) s then zscore m a else s))"
      using zset_update_ok [OF l(2) un a(1) s h] by blast
    have "zset_insert m zs name s = Some (m', zs', False)"
      using l(1) r(1) Some by (simp add: zset_insert_def)
    then show ?thesis
      using r(2,3) a by (intro exI [of _ m'] exI [of _ zs'] exI [of _ t']) simp
  qed
qed

section \<open>Deletion\<close>

lemma zset_inv_frame:
  assumes "zset_inv m zs t" "same_memory m m' A" "set (nodes t) \<inter> A = {}"
  shows "zset_inv m' zs t"
proof -
  have same: "z_avl m' b = z_avl m b" "z_node m' b = z_node m b" if "b \<in> set (nodes t)" for b
    using assms(2,3) that by (auto simp: same_memory_def)
  have eq1: "tree_at (z_avl m') None t = tree_at (z_avl m) None t"
    by (rule tree_at_cong) (rule same(1))
  have eq2: "map (zkey m') (nodes t) = map (zkey m) (nodes t)"
    by (rule map_keys_cong) (use same(2) in blast)
  have eq3: "keyed hcode hobj (zname m') (hm_nodes (zs_hmap zs)) = keyed hcode hobj (zname m) (hm_nodes (zs_hmap zs))"
    by (rule keyed_cong) (rule node_cong(2) [OF same(2) [OF zset_hobj_mem [OF assms(1)]]])
  have "live_node m' b" if "b \<in> set (nodes t)" for b
    using node_cong(4) [OF same(2) [OF that]] assms(1) that by (simp add: zset_inv_def)
  then show ?thesis
    using assms(1) unfolding zset_inv_def eq1 eq2 eq3 by simp
qed

lemma content_frame:
  assumes "same_memory m m' A" "set (nodes t) \<inter> A = {}"
  shows "content m' t = content m t"
proof -
  have "z_node m' b = z_node m b" if "b \<in> set (nodes t)" for b
    using assms that by (auto simp: same_memory_def)
  from node_cong(2,3) [OF this]
  have "map (\<lambda>a. (zname m' a, zscore m' a)) (nodes t) = map (\<lambda>a. (zname m a, zscore m a)) (nodes t)"
    by simp
  then show ?thesis
    by (simp only: content_def)
qed

text \<open>
  Deleting a member that is not the last one. The last member is a different matter: see
  \<open>zset_delete_last\<close>.
\<close>

lemma zset_delete_step:
  assumes inv: "zset_inv m zs t" and un: "unused m" and a: "a \<in> set (nodes t)"
    and h: "hle K t" "K + height_cost t < 2 ^ 32"
  shows "\<exists>m' zs' t'. zset_delete m zs (Some a) = Some (m', zs')
    \<and> (1 < size t \<longrightarrow> zset_step K m t m' zs' t') \<and> nodes t' = filter (\<lambda>b. b \<noteq> a) (nodes t)
    \<and> (1 < size t \<longrightarrow> content m' t' = (content m t)(zname m a := None))
    \<and> zs_root zs' = (if size t = 1 then zs_root zs else root t')
    \<and> z_node m' = (z_node m)(a := None) \<and> z_avl m' a = None \<and> hm_nodes (zs_hmap zs') = hm_nodes (zs_hmap zs) - {#\<lparr>hcode = str_hash (zname m a), hobj = a\<rparr>#}
    \<and> hm_ok (zs_hmap zs')"
proof -
  have i: "tree_at (z_avl m) None t" "zs_root zs = root t" "\<forall>b \<in> set (nodes t). live_node m b"
    "sorted_wrt (<) (map (zkey m) (nodes t))" "hm_ok (zs_hmap zs)"
    "image_mset hobj (hm_nodes (zs_hmap zs)) = mset (nodes t)"
    "keyed hcode hobj (zname m) (hm_nodes (zs_hmap zs))"
    using inv by (simp_all add: zset_inv_def)
  obtain z where z: "z_node m a = Some z" "zn_hcode z = str_hash (zn_name z)"
    "zname m a = zn_name z" "zscore m a = zn_score z"
    using i(3) a by (auto elim: live_nodeD)
  let ?nm = "zname m a"
  have d: "distinct (nodes t)"
    using inv by (rule zset_inv_distinct)
  have "hm_delete (zs_hmap zs) (str_hash ?nm) (hcmp m ?nm) =
      hm_delete (zs_hmap zs) (str_hash ?nm) (\<lambda>b. zname m b = ?nm)"
    by (rule hm_op_cong(2)) (use i(5) hmap_eq_name [OF inv] in auto)
  then obtain hd r where hd: "hm_delete (zs_hmap zs) (str_hash ?nm) (hcmp m ?nm) = Some (hd, r)" "hm_ok hd"
    "case r of None \<Rightarrow> \<forall>n \<in># hm_nodes (zs_hmap zs). \<not> matches (str_hash ?nm) (\<lambda>b. zname m b = ?nm) n
     | Some n \<Rightarrow> hm_nodes (zs_hmap zs) = add_mset n (hm_nodes hd) \<and> matches (str_hash ?nm) (\<lambda>b. zname m b = ?nm) n"
    using hm_delete_ok [OF i(5), of "str_hash ?nm" "\<lambda>b. zname m b = ?nm"] by (auto split: option.splits)
  have "a \<in># image_mset hobj (hm_nodes (zs_hmap zs))"
    using a i(6) by simp
  then obtain n0 where n0: "n0 \<in># hm_nodes (zs_hmap zs)" "hobj n0 = a"
    by auto
  then have "matches (str_hash ?nm) (\<lambda>b. zname m b = ?nm) n0"
    using i(7) by (auto simp: matches_def keyed_def)
  then obtain n where n: "r = Some n" "hm_nodes (zs_hmap zs) = add_mset n (hm_nodes hd)" "zname m (hobj n) = ?nm" "hcode n = str_hash ?nm"
    using hd(3) n0(1) by (cases r) (auto simp: matches_def)
  have "hobj n = a"
    using zset_names_inj [OF inv _ a n(3)] zset_hobj_mem [OF inv, of n] n(2) by simp
  then have nn: "n = \<lparr>hcode = str_hash ?nm, hobj = a\<rparr>"
    using n(4) by (cases n) simp
  obtain t1 td where dl: "avl_del (z_avl m) (Some a) = Some (t1, root td)" "tree_at t1 None td"
    "nodes td = filter (\<lambda>b. b \<noteq> a) (nodes t)" "same_except (z_avl m) t1 (set (nodes t))" "t1 a \<noteq> None"
    "hle (K + 2 * size t) td"
    using avl_del_ok [OF i(1) d a h(1)] h(2) by (auto simp: height_cost_def)
  have msd: "add_mset a (mset (nodes td)) = mset (nodes t)"
    unfolding dl(3) by (rule filter_neq_mset [OF d a])
  have std: "Suc (size td) = size t"
    using mset_eq_length [of "a # nodes td" "nodes t"] msd by simp
  have an: "a \<notin> set (nodes td)" and sub: "set (nodes td) \<subseteq> set (nodes t)"
    by (auto simp: dl(3))
  define m' where "m' = m\<lparr>z_avl := t1(a := None), z_node := (z_node m)(a := None)\<rparr>"
  define zs' where "zs' = (if td = Leaf then zs\<lparr>zs_hmap := hd\<rparr> else zs\<lparr>zs_hmap := hd, zs_root := root td\<rparr>)"
  have run: "zset_delete m zs (Some a) = Some (m', zs')"
    using dl(1) hd(1) z n(1) by (simp add: zset_delete_def zn_rd_def znode_del_def m'_def zs'_def Let_def)
  have sm: "same_memory m m' (set (nodes t))"
    using dl(4) a by (auto simp: same_memory_def same_except_def m'_def)
  have same: "\<forall>b \<in> set (nodes td). z_node m' b = z_node m b"
    using an by (auto simp: m'_def)
  have "zset_inv m' zs' td \<and> unused m' \<and> content m' td = (content m t)(?nm := None)" if "1 < size t"
  proof -
    have "td \<noteq> Leaf"
      using that std by auto
    have inv': "zset_inv m' zs' td"
      unfolding zset_inv_def
    proof (intro conjI)
      show "tree_at (z_avl m') None td" "zs_root zs' = root td" "hm_ok (zs_hmap zs')"
        using dl(2) an \<open>td \<noteq> Leaf\<close> hd(2) by (simp_all add: m'_def zs'_def)
      show "\<forall>b \<in> set (nodes td). live_node m' b"
        using i(3) sub same node_cong(4) by blast
      show "sorted_wrt (<) (map (zkey m') (nodes td))"
        unfolding map_keys_cong [OF same] unfolding dl(3) using i(4) by (simp add: sorted_wrt_map sorted_wrt_filter)
      have im: "add_mset a (image_mset hobj (hm_nodes hd)) = add_mset a (mset (nodes td))"
        using i(6) n(2) msd \<open>hobj n = a\<close> by simp
      then show "image_mset hobj (hm_nodes (zs_hmap zs')) = mset (nodes td)"
        by (simp add: zs'_def)
      have "hobj x \<in> set (nodes td)" if "x \<in># hm_nodes hd" for x
        using im that by (metis add_mset_add_single add_right_cancel imageI set_image_mset set_mset_mset)
      then have "keyed hcode hobj (zname m') (hm_nodes hd) = keyed hcode hobj (zname m) (hm_nodes hd)"
        using same node_cong(2) by (intro keyed_cong) blast
      then show "keyed hcode hobj (zname m') (hm_nodes (zs_hmap zs'))"
        using keyed_remove [of hcode hobj "zname m" n] i(7) n(2) by (simp add: zs'_def)
    qed
    have un': "unused m'"
      unfolding unused_def
    proof (intro allI impI)
      fix b assume "z_next m' \<le> b"
      then have b: "z_avl m b = None" "z_node m b = None"
        using un by (auto simp: unused_def m'_def)
      then have "b \<notin> set (nodes t)"
        using tree_at_dom [OF i(1), of b] by auto
      then show "z_avl m' b = None \<and> z_node m' b = None"
        using sm b by (simp add: same_memory_def)
    qed
    have sc: "zname m' b = zname m b" "zscore m' b = zscore m b" if "b \<in> set (nodes td)" for b
      using same that node_cong [of m' b m] by simp_all
    have mem: "b \<in> set (nodes td) \<longleftrightarrow> b \<in> set (nodes t) \<and> zname m b \<noteq> ?nm" if "b \<in> set (nodes t)" for b
      using zset_names_inj [OF inv that a] that by (auto simp: dl(3))
    have "content m' td nm = ((content m t)(?nm := None)) nm" for nm
    proof -
      have "b \<in> set (nodes td) \<and> zname m' b = nm \<and> zscore m' b = v \<longleftrightarrow>
          (b \<in> set (nodes t) \<and> zname m b = nm \<and> zscore m b = v) \<and> nm \<noteq> ?nm" for b v
        using sc [of b] mem [of b] sub by auto
      then show ?thesis
        using content_Some [OF inv', of nm] content_Some [OF inv, of nm]
        by (intro option_eqI) (simp, metis)
    qed
    then show ?thesis
      using inv' un' by blast
  qed
  moreover have "hle (K + height_cost t) td"
    using dl(6) by (rule hle_mono) (simp add: height_cost_def)
  ultimately have "1 < size t \<longrightarrow> zset_step K m t m' zs' td" "1 < size t \<longrightarrow> content m' td = (content m t)(?nm := None)"
    using sm std sub by (auto simp: zset_step_def same_memory_def m'_def)
  moreover have "zs_root zs' = (if size t = 1 then zs_root zs else root td)"
    using std by (auto simp: zs'_def)
  moreover have "hm_nodes (zs_hmap zs') = hm_nodes (zs_hmap zs) - {#\<lparr>hcode = str_hash (zname m a), hobj = a\<rparr>#}"
    using n(2) nn by (simp add: zs'_def)
  ultimately show ?thesis
    using run dl(3) hd(2) by (intro exI [of _ m'] exI [of _ zs'] exI [of _ td]) (simp add: m'_def zs'_def)
qed

section \<open>Range queries\<close>

lemma zset_seekge_ok:
  assumes "zset_inv m zs t" "\<not> isnan s"
  shows "zset_seekge m zs s n =
    Some (case filter (\<lambda>b. \<not> zkey m b < (dord s, n)) (nodes t) of [] \<Rightarrow> None | a # _ \<Rightarrow> Some a)"
proof -
  have i: "tree_at (z_avl m) None t" "zs_root zs = root t" "\<forall>b \<in> set (nodes t). live_node m b"
    "sorted_wrt (<) (map (zkey m) (nodes t))"
    using assms(1) by (simp_all add: zset_inv_def)
  show ?thesis
    using seek_loop_run [OF i(1) assms(2) i(3)] seek_first [OF sorted_upward(2) [OF i(4)]] i(2)
    by (simp add: zset_seekge_def)
qed

text \<open>In a sorted list the elements that are not below a key form a tail.\<close>

lemma sorted_filter_drop:
  fixes f :: "'a \<Rightarrow> 'b :: linorder"
  assumes "sorted_wrt (<) (map f xs)"
  shows "filter (\<lambda>b. \<not> f b < k) xs = drop (length (filter (\<lambda>b. f b < k) xs)) xs"
  using assms
proof (induction xs)
  case (Cons x xs)
  show ?case
  proof (cases "f x < k")
    case False
    then have "\<forall>y \<in> set xs. \<not> f y < k"
      using Cons.prems by (auto dest: less_trans)
    then have "filter (\<lambda>b. f b < k) xs = []" "filter (\<lambda>b. \<not> f b < k) xs = xs"
      by (auto simp: filter_empty_conv filter_id_conv)
    then show ?thesis
      using False by simp
  qed (use Cons in simp)
qed simp

text \<open>The rank of a key: how many members lie below it.\<close>

definition rank :: "zmem \<Rightarrow> addr atree \<Rightarrow> int \<times> bytes \<Rightarrow> nat" where
  "rank m t k = length (filter (\<lambda>b. zkey m b < k) (nodes t))"

lemma zset_seekge_rank:
  assumes "zset_inv m zs t" "\<not> isnan s"
  shows "zset_seekge m zs s n =
    Some (if rank m t (dord s, n) < size t then Some (nodes t ! rank m t (dord s, n)) else None)"
proof -
  have srt: "sorted_wrt (<) (map (zkey m) (nodes t))"
    using assms(1) by (simp add: zset_inv_def)
  let ?r = "rank m t (dord s, n)"
  have "filter (\<lambda>b. \<not> zkey m b < (dord s, n)) (nodes t) = drop ?r (nodes t)"
    using sorted_filter_drop [OF srt] by (simp add: rank_def)
  moreover have "(case drop ?r (nodes t) of [] \<Rightarrow> None | a # _ \<Rightarrow> Some a)
      = (if ?r < size t then Some (nodes t ! ?r) else None)"
    by (simp add: Cons_nth_drop_Suc [symmetric] split: list.splits)
  ultimately show ?thesis
    using zset_seekge_ok [OF assms] by simp
qed

lemma znode_offset_ok:
  assumes "zset_inv m zs t" "counted t" "size t + 1 < 2 ^ 32" "i < size t"
  shows "znode_offset m (Some (nodes t ! i)) offset =
    Some (if 0 \<le> int i + offset \<and> int i + offset < int (size t) then Some (nodes t ! nat (int i + offset)) else None)"
  using avl_offset_computes [of "z_avl m" t i offset] assms zset_inv_distinct [OF assms(1)]
  by (simp add: znode_offset_def zset_inv_def)

section \<open>Disposal\<close>

lemma tree_dispose_ok:
  assumes "tree_at (z_avl m) p t" "distinct (nodes t)" "\<forall>a \<in> set (nodes t). z_node m a \<noteq> None"
  shows "\<exists>m'. tree_dispose m (root t) = Some m' \<and> z_next m' = z_next m
    \<and> z_avl m' = z_avl m |` (- set (nodes t)) \<and> z_node m' = z_node m |` (- set (nodes t))"
  using assms
proof (induction t arbitrary: m p)
  case Leaf
  then show ?case
    by (subst tree_dispose.simps) (simp add: restrict_map_def)
next
  case (Node l x r)
  obtain a h c where x: "x = (a, h, c)" by (cases x) auto
  have t: "z_avl m a = Some \<lparr>n_parent = p, n_left = root l, n_right = root r, n_height = h, n_cnt = c\<rparr>"
    "tree_at (z_avl m) (Some a) l" "tree_at (z_avl m) (Some a) r"
    using Node.prems by (auto simp: x)
  have d: "distinct (nodes l)" "distinct (nodes r)" "a \<notin> set (nodes l)" "a \<notin> set (nodes r)" "set (nodes l) \<inter> set (nodes r) = {}"
    using Node.prems(2) by (auto simp: x)
  obtain m1 where m1: "tree_dispose m (root l) = Some m1" "z_next m1 = z_next m"
    "z_avl m1 = z_avl m |` (- set (nodes l))" "z_node m1 = z_node m |` (- set (nodes l))"
    using Node.IH(1) [OF t(2) d(1)] Node.prems(3) by auto
  have "tree_at (z_avl m1) (Some a) r = tree_at (z_avl m) (Some a) r"
    by (rule tree_at_cong) (use m1(3) d(5) in \<open>auto simp: restrict_map_def\<close>)
  moreover have "\<forall>b \<in> set (nodes r). z_node m1 b \<noteq> None"
    using Node.prems(3) m1(4) d(5) by (auto simp: restrict_map_def)
  ultimately obtain m2 where m2: "tree_dispose m1 (root r) = Some m2" "z_next m2 = z_next m"
    "z_avl m2 = z_avl m1 |` (- set (nodes r))" "z_node m2 = z_node m1 |` (- set (nodes r))"
    using Node.IH(2) [of m1 "Some a", OF _ d(2)] t(3) m1(2) by auto
  have "z_avl m1 a = z_avl m a" "z_node m2 a \<noteq> None"
    using m1 m2 d(3,4) Node.prems(3) by (simp_all add: x)
  then have run: "tree_dispose m (root (Node l x r)) =
      Some (m2\<lparr>z_avl := (z_avl m2)(a := None), z_node := (z_node m2)(a := None)\<rparr>)"
    using t(1) m1(1) m2(1) by (subst tree_dispose.simps) (auto simp: x mem_simps znode_del_def)
  have restrict: "(f |` (- A) |` (- B))(a := None) = f |` (- (insert a (A \<union> B)))" for f :: "addr \<rightharpoonup> 'z" and A B
    by (auto simp: restrict_map_def fun_eq_iff)
  have set_nodes: "set (nodes (Node l x r)) = insert a (set (nodes l) \<union> set (nodes r))"
    by (auto simp: x)
  show ?case
    unfolding run set_nodes using m2(2) restrict [of "z_avl m"] restrict [of "z_node m"]
    unfolding m2(3,4) m1(3,4) by (auto simp del: fun_upd_apply restrict_fun_upd fun_upd_restrict_conv restrict_restrict)
qed

lemma zset_clear_ok:
  assumes "zset_inv m zs t"
  shows "\<exists>m'. zset_clear m zs = Some (m', empty_zset) \<and> z_next m' = z_next m
    \<and> z_avl m' = z_avl m |` (- set (nodes t)) \<and> z_node m' = z_node m |` (- set (nodes t))"
proof -
  have "\<forall>a \<in> set (nodes t). z_node m a \<noteq> None"
    using assms by (auto simp: zset_inv_def live_node_def split: option.splits)
  then obtain m' where "tree_dispose m (root t) = Some m' \<and> z_next m' = z_next m
    \<and> z_avl m' = z_avl m |` (- set (nodes t)) \<and> z_node m' = z_node m |` (- set (nodes t))"
    using tree_dispose_ok [of m None t] assms zset_inv_distinct [OF assms] by (auto simp: zset_inv_def)
  then show ?thesis
    using assms by (simp add: zset_clear_def zset_inv_def hm_clear_def empty_zset_def Let_def)
qed

end
