(* ===== verification/Proto.thy ===== *)
theory Proto
  imports Bytes
begin

text \<open>
  The wire protocol in server.cpp: parsing a request (\<open>read_u32\<close>, \<open>read_str\<close>,
  \<open>parse_req\<close>), the tagged serialisation of a reply (\<open>out_*\<close>) and its length-prefixed frame
  (\<open>response_begin\<close>, \<open>response_size\<close>, \<open>response_end\<close>). A cursor into a buffer is the rest of
  the buffer; \<open>None\<close> is a failed read, or for the framing an access outside the buffer.
\<close>

section \<open>Requests\<close>

definition k_max_msg :: nat where
  "k_max_msg = 32 * 2 ^ 20"

definition k_max_args :: nat where
  "k_max_args = 200 * 1000"

definition read_u32 :: "bytes \<Rightarrow> (u32 \<times> bytes) option" where
  "read_u32 cur = (if length cur < 4 then None else Some (rd32 (take 4 cur), drop 4 cur))"

definition read_str :: "nat \<Rightarrow> bytes \<Rightarrow> (bytes \<times> bytes) option" where
  "read_str n cur = (if length cur < n then None else Some (take n cur, drop n cur))"

text \<open>The loop of \<open>parse_req\<close>, with the number of strings still to read.\<close>

fun parse_strs :: "nat \<Rightarrow> bytes \<Rightarrow> bytes list \<Rightarrow> (bytes list \<times> bytes) option" where
  "parse_strs 0 cur out = Some (out, cur)"
| "parse_strs (Suc n) cur out = do {
     (len, cur) \<leftarrow> read_u32 cur;
     (s, cur) \<leftarrow> read_str (unat len) cur;
     parse_strs n cur (out @ [s])
   }"

definition parse_req :: "bytes \<Rightarrow> bytes list option" where
  "parse_req data = do {
     (nstr, cur) \<leftarrow> read_u32 data;
     if unat nstr > k_max_args then None
     else do {
       (out, cur) \<leftarrow> parse_strs (unat nstr) cur [];
       if cur \<noteq> [] then None else Some out
     }
   }"

section \<open>Replies\<close>

definition ERR_UNKNOWN :: u32 where "ERR_UNKNOWN = 1"
definition ERR_TOO_BIG :: u32 where "ERR_TOO_BIG = 2"
definition ERR_BAD_TYP :: u32 where "ERR_BAD_TYP = 3"
definition ERR_BAD_ARG :: u32 where "ERR_BAD_ARG = 4"
definition ERR_BAD_REQ :: u32 where "ERR_BAD_REQ = 5"

definition TAG_NIL :: u8 where "TAG_NIL = 0"
definition TAG_ERR :: u8 where "TAG_ERR = 1"
definition TAG_STR :: u8 where "TAG_STR = 2"
definition TAG_INT :: u8 where "TAG_INT = 3"
definition TAG_DBL :: u8 where "TAG_DBL = 4"
definition TAG_ARR :: u8 where "TAG_ARR = 5"

lemmas err_defs = ERR_UNKNOWN_def ERR_TOO_BIG_def ERR_BAD_TYP_def ERR_BAD_ARG_def ERR_BAD_REQ_def
lemmas tag_defs = TAG_NIL_def TAG_ERR_def TAG_STR_def TAG_INT_def TAG_DBL_def TAG_ARR_def

definition out_nil :: "bytes \<Rightarrow> bytes" where
  "out_nil out = buf_append_u8 out TAG_NIL"

definition out_str :: "bytes \<Rightarrow> bytes \<Rightarrow> bytes" where
  "out_str out s =
     (let out = buf_append_u8 out TAG_STR;
          out = buf_append_u32 out (of_nat (length s))
      in buf_append out s)"

definition out_int :: "bytes \<Rightarrow> u64 \<Rightarrow> bytes" where
  "out_int out val = buf_append_i64 (buf_append_u8 out TAG_INT) val"

definition out_dbl :: "bytes \<Rightarrow> u64 \<Rightarrow> bytes" where
  "out_dbl out val = buf_append_dbl (buf_append_u8 out TAG_DBL) val"

definition out_err :: "bytes \<Rightarrow> u32 \<Rightarrow> bytes \<Rightarrow> bytes" where
  "out_err out code msg =
     (let out = buf_append_u8 out TAG_ERR;
          out = buf_append_u32 out code;
          out = buf_append_u32 out (of_nat (length msg))
      in buf_append out msg)"

definition out_arr :: "bytes \<Rightarrow> u32 \<Rightarrow> bytes" where
  "out_arr out n = buf_append_u32 (buf_append_u8 out TAG_ARR) n"

definition out_begin_arr :: "bytes \<Rightarrow> bytes \<times> nat" where
  "out_begin_arr out =
     (let out = out @ [TAG_ARR];
          out = buf_append_u32 out 0
      in (out, length out - 4))"

definition out_end_arr :: "bytes \<Rightarrow> nat \<Rightarrow> u32 \<Rightarrow> bytes option" where
  "out_end_arr out ctx n = do {
     guard (0 < ctx \<and> ctx + 4 \<le> length out \<and> out ! (ctx - 1) = TAG_ARR);
     Some (patch ctx (le32 n) out)
   }"

section \<open>Frames\<close>

definition response_begin :: "bytes \<Rightarrow> bytes \<times> nat" where
  "response_begin out = (buf_append_u32 out 0, length out)"

definition response_size :: "bytes \<Rightarrow> nat \<Rightarrow> nat" where
  "response_size out header = length out - header - 4"

definition response_end :: "bytes \<Rightarrow> nat \<Rightarrow> bytes option" where
  "response_end out header = do {
     guard (header + 4 \<le> length out);
     let msg_size = response_size out header;
     let (out, msg_size) =
       (if msg_size > k_max_msg then
          let out = out_err (take (header + 4) out) ERR_TOO_BIG (lit ''response is too big'')
          in (out, response_size out header)
        else (out, msg_size));
     Some (patch header (le32 (of_nat msg_size)) out)
   }"

section \<open>What the request parser accepts\<close>

text \<open>The body that \<open>send_request\<close> of client.cpp builds: the number of strings, then each with its length.\<close>

definition field :: "bytes \<Rightarrow> bytes" where
  "field s = le32 (of_nat (length s)) @ s"

definition req_body :: "bytes list \<Rightarrow> bytes" where
  "req_body cmd = le32 (of_nat (length cmd)) @ concat (map field cmd)"

lemma read_u32_le32 [run_simps]: "read_u32 (le32 x @ rest) = Some (x, rest)"
  using c32.dec_prefix [of x rest] c32.drop_field [of x rest] by (simp add: read_u32_def)

lemma read_str_append [run_simps]: "read_str (length s) (s @ rest) = Some (s, rest)"
  by (simp add: read_str_def)

lemma read_u32_inv: "read_u32 cur = Some (x, rest) \<Longrightarrow> cur = le32 x @ rest"
  using c32.split_field [of cur] by (auto simp: read_u32_def split: if_splits)

lemma read_str_inv: "read_str n cur = Some (s, rest) \<Longrightarrow> cur = s @ rest \<and> length s = n"
  by (auto simp: read_str_def split: if_splits)

lemma parse_strs_fields:
  assumes "\<forall>s \<in> set cmd. length s < 2 ^ 32"
  shows "parse_strs (length cmd) (concat (map field cmd) @ rest) out = Some (out @ cmd, rest)"
  using assms
proof (induction cmd arbitrary: out)
  case (Cons s cmd)
  then have "unat (of_nat (length s) :: u32) = length s"
    by (intro unat_of_nat_u32) simp
  then show ?case
    using Cons by (simp add: field_def run_simps)
qed simp

lemma parse_strs_inv:
  "parse_strs n cur out = Some (res, rest) \<Longrightarrow>
     \<exists>cmd. res = out @ cmd \<and> length cmd = n \<and> cur = concat (map field cmd) @ rest \<and>
       (\<forall>s \<in> set cmd. length s < 2 ^ 32)"
proof (induction n cur out rule: parse_strs.induct)
  case (2 n cur out)
  then obtain len cur1 s cur2 where r: "read_u32 cur = Some (len, cur1)" "read_str (unat len) cur1 = Some (s, cur2)"
    "parse_strs n cur2 (out @ [s]) = Some (res, rest)"
    by (auto split: bind_splits)
  from "2.IH" [OF r(1) refl r(2) refl r(3)] obtain cmd where c: "res = (out @ [s]) @ cmd" "length cmd = n"
    "cur2 = concat (map field cmd) @ rest" "\<forall>s \<in> set cmd. length s < 2 ^ 32"
    by blast
  have s: "cur = le32 len @ s @ cur2" "length s = unat len"
    using read_u32_inv [OF r(1)] read_str_inv [OF r(2)] by auto
  then have "cur = field s @ cur2"
    by (simp add: field_def)
  then show ?case
    using c s(2) by (intro exI [of _ "s # cmd"]) auto
qed simp

lemma parse_req_body:
  assumes "length cmd \<le> k_max_args" "\<forall>s \<in> set cmd. length s < 2 ^ 32"
  shows "parse_req (req_body cmd) = Some cmd"
proof -
  have "unat (of_nat (length cmd) :: u32) = length cmd"
    using assms(1) by (intro unat_of_nat_u32) (simp add: k_max_args_def)
  then show ?thesis
    using assms parse_strs_fields [OF assms(2), of "[]" "[]"]
    by (simp add: parse_req_def req_body_def run_simps)
qed

lemma parse_req_inv:
  assumes "parse_req data = Some cmd"
  shows "data = req_body cmd \<and> length cmd \<le> k_max_args \<and> (\<forall>s \<in> set cmd. length s < 2 ^ 32)"
proof -
  obtain nstr cur where r: "read_u32 data = Some (nstr, cur)" "unat nstr \<le> k_max_args"
    "parse_strs (unat nstr) cur [] = Some (cmd, [])"
    using assms by (auto simp: parse_req_def split: bind_splits if_splits)
  from parse_strs_inv [OF r(3)] show ?thesis
    using read_u32_inv [OF r(1)] r(2) by (auto simp: req_body_def)
qed

lemma sent_arg_length:
  assumes "length (req_body cmd) \<le> k_max_msg" "s \<in> set cmd"
  shows "length s < 2 ^ 32"
proof -
  obtain xs ys where "cmd = xs @ s # ys"
    using assms(2) by (meson split_list)
  then show ?thesis
    using assms(1) by (simp add: req_body_def field_def k_max_msg_def)
qed

lemma parse_req_sent:
  "length (req_body cmd) \<le> k_max_msg \<Longrightarrow> length cmd \<le> k_max_args \<Longrightarrow> parse_req (req_body cmd) = Some cmd"
  using parse_req_body [of cmd] sent_arg_length [of cmd] by blast

section \<open>The layout of replies\<close>

datatype reply = RNil | RErr u32 bytes | RStr bytes | RInt u64 | RDbl u64 | RArr "reply list"

fun encode :: "reply \<Rightarrow> bytes" where
  "encode RNil = [TAG_NIL]"
| "encode (RErr code msg) = TAG_ERR # le32 code @ field msg"
| "encode (RStr s) = TAG_STR # field s"
| "encode (RInt x) = TAG_INT # le64 x"
| "encode (RDbl x) = TAG_DBL # le64 x"
| "encode (RArr rs) = TAG_ARR # le32 (of_nat (length rs)) @ concat (map encode rs)"

lemma out_encode:
  "out_nil out = out @ encode RNil"
  "out_str out s = out @ encode (RStr s)"
  "out_int out x = out @ encode (RInt x)"
  "out_dbl out x = out @ encode (RDbl x)"
  "out_err out c s = out @ encode (RErr c s)"
  by (simp_all add: out_nil_def out_str_def out_int_def out_dbl_def out_err_def buf_defs field_def Let_def)

lemma out_arr_encode: "out_arr out (of_nat (length rs)) @ concat (map encode rs) = out @ encode (RArr rs)"
  by (simp add: out_arr_def buf_defs)

text \<open>An array filled in between \<open>out_begin_arr\<close> and \<open>out_end_arr\<close>.\<close>

lemma out_begin_arr_simp: "out_begin_arr out = (out @ TAG_ARR # le32 0, length out + 1)"
  by (simp add: out_begin_arr_def buf_defs)

lemma out_end_arr_run:
  "out_end_arr (out @ TAG_ARR # le32 0 @ body) (length out + 1) n = Some (out @ TAG_ARR # le32 n @ body)"
proof -
  have "patch (length (out @ [TAG_ARR])) (le32 n) ((out @ [TAG_ARR]) @ le32 0 @ body) = (out @ [TAG_ARR]) @ le32 n @ body"
    by (rule c32.patch_hole)
  then show ?thesis
    by (simp add: out_end_arr_def nth_append)
qed

text \<open>The error that replaces an oversized body.\<close>

definition too_big :: bytes where
  "too_big = encode (RErr ERR_TOO_BIG (lit ''response is too big''))"

definition frame :: "bytes \<Rightarrow> bytes" where
  "frame body = le32 (of_nat (length body)) @ body"

lemma response_end_run:
  "response_end (pre @ le32 0 @ body) (length pre) =
     Some (pre @ frame (if length body > k_max_msg then too_big else body))"
proof -
  have p: "patch (length pre) (le32 n) (pre @ le32 0 @ b) = pre @ le32 n @ b" for n b
    by (rule c32.patch_hole)
  show ?thesis
    by (auto simp: response_end_def response_size_def frame_def p too_big_def out_encode Let_def
        simp del: encode.simps)
qed

lemma length_too_big: "length too_big \<le> k_max_msg"
  by (simp add: too_big_def field_def k_max_msg_def)

section \<open>Properties\<close>

text \<open>C16: \<open>parse_req\<close> accepts exactly the encodings of at most 200000 strings: a body parses to \<open>cmd\<close> if and
  only if it is the body that \<open>send_request\<close> builds for \<open>cmd\<close>; so it never misreads, accepts no
  trailing bytes and no second encoding of a request.\<close>

theorem parse_req_exact:
  "parse_req data = Some cmd \<longleftrightarrow>
     data = req_body cmd \<and> length cmd \<le> k_max_args \<and> \<not> (\<exists>s \<in> set cmd. 2 ^ 32 \<le> length s)"
  using parse_req_inv [of data cmd] parse_req_body [of cmd] by (auto simp: not_le)

text \<open>\<open>response_end\<close> leaves the earlier bytes of the buffer alone and turns the reserved header and the body
  into one frame whose length word is the length of what follows; a body over 32 MB is replaced by
  the error \<open>ERR_TOO_BIG\<close>.\<close>

lemma response_frame:
  "response_end (fst (response_begin pre) @ body) (snd (response_begin pre)) =
     Some (pre @ frame (if length body > k_max_msg then too_big else body))
   \<and> unat (rd32 (take 4 (frame (if length body > k_max_msg then too_big else body)))) =
       length (if length body > k_max_msg then too_big else body)"
proof
  show "response_end (fst (response_begin pre) @ body) (snd (response_begin pre)) =
     Some (pre @ frame (if length body > k_max_msg then too_big else body))"
    using response_end_run [of pre body] by (simp add: response_begin_def buf_defs)
  let ?b = "if length body > k_max_msg then too_big else body"
  have "length ?b \<le> k_max_msg"
    using length_too_big by auto
  then have "unat (of_nat (length ?b) :: u32) = length ?b"
    by (intro unat_of_nat_u32) (simp add: k_max_msg_def)
  then show "unat (rd32 (take 4 (frame ?b))) = length ?b"
    unfolding frame_def by (simp only: c32.dec_prefix)
qed

end
