(* ===== verification/Server.thy ===== *)
theory Server
  imports ZsetOk Heap Proto ThreadPool
begin

text \<open>
  The key-value store and the commands of server.cpp. The store holds the entries of all
  connections, the TTL heap with the \<open>heap_idx\<close> of each entry, the memory of the sorted sets
  and the jobs handed to the thread pool; the hashtable of a connection is the argument \<open>db\<close>.
  A command appends its reply to the buffer \<open>out\<close>. \<open>now\<close> is the clock read by the command.
  \<open>None\<close> is undefined behaviour or a failed assertion.
\<close>

section \<open>Entries\<close>

datatype entry_type = T_INIT | T_STR | T_ZSET

record entry =
  e_hcode :: u64
  e_key :: bytes
  e_type :: entry_type
  e_str :: bytes
  e_val :: bytes
  e_zset :: zset
  e_owner :: ptr

record store =
  s_entry :: "addr \<rightharpoonup> entry"
  s_next :: addr
  s_timers :: "heap_item list \<times> idxmem"
  s_zmem :: zmem
  s_jobs :: "addr list"

type_synonym db = "addr hmap"

definition empty_store :: store where
  "empty_store = \<lparr>s_entry = Map.empty, s_next = 0, s_timers = ([], Map.empty),
     s_zmem = \<lparr>z_avl = Map.empty, z_node = Map.empty, z_next = 0\<rparr>, s_jobs = []\<rparr>"

definition upd_entry :: "addr \<Rightarrow> (entry \<Rightarrow> entry) \<Rightarrow> store \<Rightarrow> store option" where
  "upd_entry a f s = do {
     e \<leftarrow> s_entry s a;
     Some (s\<lparr>s_entry := (s_entry s)(a \<mapsto> f e)\<rparr>)
   }"

definition entry_new :: "store \<Rightarrow> entry_type \<Rightarrow> addr \<Rightarrow> store \<times> addr" where
  "entry_new s ty conn =
     (let a = s_next s;
          e = \<lparr>e_hcode = 0, e_key = [], e_type = ty, e_str = [], e_val = [], e_zset = empty_zset, e_owner = Some conn\<rparr>
      in (s\<lparr>s_next := a + 1, s_entry := (s_entry s)(a \<mapsto> e),
            s_timers := (fst (s_timers s), (snd (s_timers s))(a \<mapsto> npos))\<rparr>, a))"

definition set_ttl :: "u64 \<Rightarrow> addr \<Rightarrow> int \<Rightarrow> store \<Rightarrow> store option" where
  "set_ttl now ent ttl s = do {
     h \<leftarrow> entry_set_ttl now ent ttl (s_timers s);
     Some (s\<lparr>s_timers := h\<rparr>)
   }"

definition entry_del_sync :: "addr \<Rightarrow> store \<Rightarrow> store option" where
  "entry_del_sync ent s = do {
     e \<leftarrow> s_entry s ent;
     s \<leftarrow> (if e_type e = T_ZSET then do {
              (m, zs) \<leftarrow> zset_clear (s_zmem s) (e_zset e);
              Some (s\<lparr>s_zmem := m, s_entry := (s_entry s)(ent \<mapsto> e\<lparr>e_zset := zs\<rparr>)\<rparr>)
            } else Some s);
     s \<leftarrow> upd_entry ent (\<lambda>e. e\<lparr>e_owner := None\<rparr>) s;
     Some (s\<lparr>s_entry := (s_entry s)(ent := None), s_timers := (fst (s_timers s), (snd (s_timers s))(ent := None))\<rparr>)
   }"

definition entry_del_func :: "addr \<Rightarrow> store \<Rightarrow> store option" where
  "entry_del_func arg s = entry_del_sync arg s"

definition k_large_container_size :: nat where
  "k_large_container_size = 1000"

definition entry_del :: "u64 \<Rightarrow> addr \<Rightarrow> store \<Rightarrow> store option" where
  "entry_del now ent s = do {
     s \<leftarrow> set_ttl now ent (- 1) s;
     e \<leftarrow> s_entry s ent;
     let set_size = (if e_type e = T_ZSET then hm_size (zs_hmap (e_zset e)) else 0);
     if set_size > k_large_container_size
     then Some (s\<lparr>s_jobs := thread_pool_queue (s_jobs s) ent\<rparr>)
     else entry_del_sync ent s
   }"

definition entry_eq :: "store \<Rightarrow> bytes \<Rightarrow> addr \<Rightarrow> bool" where
  "entry_eq s key a = (case s_entry s a of None \<Rightarrow> False | Some e \<Rightarrow> e_key e = key)"

text \<open>The lookup that every command starts with.\<close>

definition db_lookup :: "store \<Rightarrow> db \<Rightarrow> bytes \<Rightarrow> (db \<times> ptr) option" where
  "db_lookup s db key = do {
     (db, node) \<leftarrow> hm_lookup db (str_hash key) (entry_eq s key);
     Some (db, map_option hobj node)
   }"

definition arg :: "bytes list \<Rightarrow> nat \<Rightarrow> bytes option" where
  "arg cmd i = (if i < length cmd then Some (cmd ! i) else None)"

section \<open>Commands on strings and keys\<close>

definition do_get :: "bytes list \<Rightarrow> bytes \<Rightarrow> store \<Rightarrow> db \<Rightarrow> (store \<times> db \<times> bytes) option" where
  "do_get cmd out s db = do {
     key \<leftarrow> arg cmd 1;
     (db, node) \<leftarrow> db_lookup s db key;
     (case node of
        None \<Rightarrow> Some (s, db, out_nil out)
      | Some a \<Rightarrow> do {
          ent \<leftarrow> s_entry s a;
          if e_type ent \<noteq> T_STR
          then Some (s, db, out_err out ERR_BAD_TYP (lit ''not a string value''))
          else Some (s, db, out_str out (e_str ent))
        })
   }"

definition do_set :: "addr \<Rightarrow> bytes list \<Rightarrow> bytes \<Rightarrow> store \<Rightarrow> db \<Rightarrow> (store \<times> db \<times> bytes) option" where
  "do_set conn cmd out s db = do {
     key \<leftarrow> arg cmd 1;
     val \<leftarrow> arg cmd 2;
     (db, node) \<leftarrow> db_lookup s db key;
     (case node of
        Some a \<Rightarrow> do {
          ent \<leftarrow> s_entry s a;
          if e_type ent \<noteq> T_STR
          then Some (s, db, out_err out ERR_BAD_TYP (lit ''a non-string value exists''))
          else do {
            s \<leftarrow> upd_entry a (\<lambda>e. e\<lparr>e_str := val\<rparr>) s;
            Some (s, db, out_str out (lit ''1''))
          }
        }
      | None \<Rightarrow> do {
          let (s, a) = entry_new s T_STR conn;
          s \<leftarrow> upd_entry a (\<lambda>e. e\<lparr>e_key := key, e_hcode := str_hash key, e_type := T_STR, e_str := val\<rparr>) s;
          db \<leftarrow> hm_insert db \<lparr>hcode = str_hash key, hobj = a\<rparr>;
          Some (s, db, out_str out (lit ''1''))
        })
   }"

definition do_del :: "u64 \<Rightarrow> bytes list \<Rightarrow> bytes \<Rightarrow> store \<Rightarrow> db \<Rightarrow> (store \<times> db \<times> bytes) option" where
  "do_del now cmd out s db = do {
     key \<leftarrow> arg cmd 1;
     (db, node) \<leftarrow> hm_delete db (str_hash key) (entry_eq s key);
     (case node of
        Some n \<Rightarrow> do {
          s \<leftarrow> entry_del now (hobj n) s;
          Some (s, db, out_str out (lit ''1''))
        }
      | None \<Rightarrow> Some (s, db, out_str out (lit ''0'')))
   }"

definition do_expire :: "u64 \<Rightarrow> bytes list \<Rightarrow> bytes \<Rightarrow> store \<Rightarrow> db \<Rightarrow> (store \<times> db \<times> bytes) option" where
  "do_expire now cmd out s db = do {
     ttl \<leftarrow> arg cmd 2;
     key \<leftarrow> arg cmd 1;
     (case str2int ttl of
        None \<Rightarrow> Some (s, db, out_err out ERR_BAD_ARG (lit ''expect int64''))
      | Some ttl_ms \<Rightarrow> do {
          (db, node) \<leftarrow> db_lookup s db key;
          s \<leftarrow> (case node of None \<Rightarrow> Some s | Some a \<Rightarrow> set_ttl now a ttl_ms s);
          Some (s, db, out_int out (if node \<noteq> None then 1 else 0))
        })
   }"

definition do_ttl :: "u64 \<Rightarrow> bytes list \<Rightarrow> bytes \<Rightarrow> store \<Rightarrow> db \<Rightarrow> (store \<times> db \<times> bytes) option" where
  "do_ttl now cmd out s db = do {
     key \<leftarrow> arg cmd 1;
     (db, node) \<leftarrow> db_lookup s db key;
     (case node of
        None \<Rightarrow> Some (s, db, out_int out (- 2))
      | Some a \<Rightarrow> do {
          heap_idx \<leftarrow> snd (s_timers s) a;
          if heap_idx = npos then Some (s, db, out_int out (- 1))
          else do {
            guard (heap_idx < length (fst (s_timers s)));
            let expire_at = hi_val (fst (s_timers s) ! heap_idx);
            Some (s, db, out_int out (if expire_at > now then expire_at - now else 0))
          }
        })
   }"

text \<open>The callback writes to a buffer; a dead entry makes the buffer undefined.\<close>

definition cb_keys :: "store \<Rightarrow> addr \<Rightarrow> bytes option \<Rightarrow> bool \<times> bytes option" where
  "cb_keys s a out = (True, do { o' \<leftarrow> out; e \<leftarrow> s_entry s a; Some (out_str o' (e_key e)) })"

definition do_keys :: "bytes list \<Rightarrow> bytes \<Rightarrow> store \<Rightarrow> db \<Rightarrow> (store \<times> db \<times> bytes) option" where
  "do_keys cmd out s db = do {
     let out = out_arr out (of_nat (hm_size db));
     out \<leftarrow> hm_foreach db (cb_keys s) (Some out);
     out \<leftarrow> out;
     Some (s, db, out)
   }"

section \<open>Commands on sorted sets\<close>

definition run_zset :: "addr \<Rightarrow> (zmem \<Rightarrow> zset \<Rightarrow> (zmem \<times> zset \<times> 'r) option) \<Rightarrow> store \<Rightarrow> (store \<times> 'r) option" where
  "run_zset a f s = do {
     e \<leftarrow> s_entry s a;
     (m, zs, r) \<leftarrow> f (s_zmem s) (e_zset e);
     Some (s\<lparr>s_zmem := m, s_entry := (s_entry s)(a \<mapsto> e\<lparr>e_zset := zs\<rparr>)\<rparr>, r)
   }"

definition do_zadd :: "addr \<Rightarrow> bytes list \<Rightarrow> bytes \<Rightarrow> store \<Rightarrow> db \<Rightarrow> (store \<times> db \<times> bytes) option" where
  "do_zadd conn cmd out s db = do {
     score \<leftarrow> arg cmd 2;
     key \<leftarrow> arg cmd 1;
     name \<leftarrow> arg cmd 3;
     (case str2dbl score of
        None \<Rightarrow> Some (s, db, out_err out ERR_BAD_ARG (lit ''expect float''))
      | Some score \<Rightarrow> do {
          (db, hnode) \<leftarrow> db_lookup s db key;
          (s, db, ent) \<leftarrow>
            (case hnode of
               None \<Rightarrow> do {
                 let (s, a) = entry_new s T_ZSET conn;
                 s \<leftarrow> upd_entry a (\<lambda>e. e\<lparr>e_key := key, e_hcode := str_hash key\<rparr>) s;
                 db \<leftarrow> hm_insert db \<lparr>hcode = str_hash key, hobj = a\<rparr>;
                 Some (s, db, a)
               }
             | Some a \<Rightarrow> Some (s, db, a));
          e \<leftarrow> s_entry s ent;
          if e_type e \<noteq> T_ZSET
          then Some (s, db, out_err out ERR_BAD_TYP (lit ''expect zset''))
          else do {
            (s, added) \<leftarrow> run_zset ent (\<lambda>m zs. zset_insert m zs name score) s;
            Some (s, db, out_int out (if added then 1 else 0))
          }
        })
   }"

text \<open>The null result, the static empty set, or the set of an entry.\<close>

datatype zset_ref = ZNull | ZEmpty | ZEntry addr

definition expect_zset :: "store \<Rightarrow> db \<Rightarrow> bytes \<Rightarrow> (db \<times> zset_ref) option" where
  "expect_zset s db key = do {
     (db, hnode) \<leftarrow> db_lookup s db key;
     (case hnode of
        None \<Rightarrow> Some (db, ZEmpty)
      | Some a \<Rightarrow> do {
          ent \<leftarrow> s_entry s a;
          Some (db, if e_type ent = T_ZSET then ZEntry a else ZNull)
        })
   }"

text \<open>The empty set is never written to: its root is null, so nothing is found in it.\<close>

definition with_zset :: "zset_ref \<Rightarrow> (zmem \<Rightarrow> zset \<Rightarrow> (zmem \<times> zset \<times> 'r) option) \<Rightarrow> store \<Rightarrow> (store \<times> 'r) option" where
  "with_zset z f s =
     (case z of
        ZNull \<Rightarrow> None
      | ZEmpty \<Rightarrow> do { (m, zs, r) \<leftarrow> f (s_zmem s) empty_zset; Some (s, r) }
      | ZEntry a \<Rightarrow> run_zset a f s)"

definition do_zrem :: "bytes list \<Rightarrow> bytes \<Rightarrow> store \<Rightarrow> db \<Rightarrow> (store \<times> db \<times> bytes) option" where
  "do_zrem cmd out s db = do {
     key \<leftarrow> arg cmd 1;
     name \<leftarrow> arg cmd 2;
     (db, zset) \<leftarrow> expect_zset s db key;
     if zset = ZNull then Some (s, db, out_err out ERR_BAD_TYP (lit ''expect zset''))
     else do {
       (s, found) \<leftarrow> with_zset zset (\<lambda>m zs. do {
            (zs, znode) \<leftarrow> zset_lookup m zs name;
            (m, zs) \<leftarrow> (if znode \<noteq> None then zset_delete m zs znode else Some (m, zs));
            Some (m, zs, znode \<noteq> None)
          }) s;
       Some (s, db, out_int out (if found then 1 else 0))
     }
   }"

definition do_zscore :: "bytes list \<Rightarrow> bytes \<Rightarrow> store \<Rightarrow> db \<Rightarrow> (store \<times> db \<times> bytes) option" where
  "do_zscore cmd out s db = do {
     key \<leftarrow> arg cmd 1;
     name \<leftarrow> arg cmd 2;
     (db, zset) \<leftarrow> expect_zset s db key;
     if zset = ZNull then Some (s, db, out_err out ERR_BAD_TYP (lit ''expect zset''))
     else do {
       (s, znode) \<leftarrow> with_zset zset (\<lambda>m zs. do { (zs, znode) \<leftarrow> zset_lookup m zs name; Some (m, zs, znode) }) s;
       (case znode of
          None \<Rightarrow> Some (s, db, out_nil out)
        | Some a \<Rightarrow> do {
            score \<leftarrow> zn_rd zn_score (s_zmem s) znode;
            Some (s, db, out_dbl out score)
          })
     }
   }"

text \<open>The output loop of \<open>do_zquery\<close>: a name and a score for each node, two of the limit at a time.\<close>

function zquery_loop :: "zmem \<Rightarrow> ptr \<Rightarrow> int \<Rightarrow> int \<Rightarrow> bytes \<Rightarrow> (bytes \<times> int) option" where
  "zquery_loop m znode n limit out =
     (if znode \<noteq> None \<and> n < limit then do {
        name \<leftarrow> zn_rd zn_name m znode;
        score \<leftarrow> zn_rd zn_score m znode;
        let out = out_dbl (out_str out name) score;
        znode \<leftarrow> znode_offset m znode 1;
        zquery_loop m znode (n + 2) limit out
      } else Some (out, n))"
  by pat_completeness auto
termination
  by (relation "measure (\<lambda>(m, znode, n, limit, out). nat (limit - n))") auto

declare zquery_loop.simps [simp del]

definition do_zquery :: "bytes list \<Rightarrow> bytes \<Rightarrow> store \<Rightarrow> db \<Rightarrow> (store \<times> db \<times> bytes) option" where
  "do_zquery cmd out s db = do {
     score_arg \<leftarrow> arg cmd 2;
     name \<leftarrow> arg cmd 3;
     offset_arg \<leftarrow> arg cmd 4;
     limit_arg \<leftarrow> arg cmd 5;
     key \<leftarrow> arg cmd 1;
     (case str2dbl score_arg of
        None \<Rightarrow> Some (s, db, out_err out ERR_BAD_ARG (lit ''expect fp number''))
      | Some score \<Rightarrow>
          (case (str2int offset_arg, str2int limit_arg) of
             (Some offset, Some limit) \<Rightarrow> do {
               (db, zset) \<leftarrow> expect_zset s db key;
               if zset = ZNull then Some (s, db, out_err out ERR_BAD_TYP (lit ''expect zset''))
               else if limit \<le> 0 then Some (s, db, out_arr out 0)
               else do {
                 (s, out) \<leftarrow> with_zset zset (\<lambda>m zs. do {
                      znode \<leftarrow> zset_seekge m zs score name;
                      znode \<leftarrow> znode_offset m znode offset;
                      let (out, ctx) = out_begin_arr out;
                      (out, n) \<leftarrow> zquery_loop m znode 0 limit out;
                      out \<leftarrow> out_end_arr out ctx (of_int n);
                      Some (m, zs, out)
                    }) s;
                 Some (s, db, out)
               }
             }
           | _ \<Rightarrow> Some (s, db, out_err out ERR_BAD_ARG (lit ''expect int''))))
   }"

section \<open>Dispatch\<close>

definition is_cmd :: "bytes list \<Rightarrow> nat \<Rightarrow> string \<Rightarrow> bool" where
  "is_cmd cmd n name \<longleftrightarrow> length cmd = n \<and> cmd ! 0 = lit name"

definition do_request :: "u64 \<Rightarrow> addr \<Rightarrow> bytes list \<Rightarrow> bytes \<Rightarrow> store \<Rightarrow> db \<Rightarrow> (store \<times> db \<times> bytes) option" where
  "do_request now conn cmd out s db =
     (if is_cmd cmd 2 ''get'' then do_get cmd out s db
      else if is_cmd cmd 3 ''set'' then do_set conn cmd out s db
      else if is_cmd cmd 2 ''del'' then do_del now cmd out s db
      else if is_cmd cmd 3 ''pexpire'' then do_expire now cmd out s db
      else if is_cmd cmd 2 ''pttl'' then do_ttl now cmd out s db
      else if is_cmd cmd 1 ''keys'' then do_keys cmd out s db
      else if is_cmd cmd 4 ''zadd'' then do_zadd conn cmd out s db
      else if is_cmd cmd 3 ''zrem'' then do_zrem cmd out s db
      else if is_cmd cmd 3 ''zscore'' then do_zscore cmd out s db
      else if is_cmd cmd 6 ''zquery'' then do_zquery cmd out s db
      else if is_cmd cmd 1 ''quit'' then Some (s, db, out_str out (lit ''BYE''))
      else Some (s, db, out_err out ERR_UNKNOWN (lit ''Unknown command.'')))"

end
