(* ===== verification/DList.thy ===== *)
theory DList
  imports Prelude
begin

text \<open>
  list.h: the circular doubly linked list of the idle timers. A memory maps addresses to
  nodes; \<open>None\<close> is a dereference of a null or dead pointer. A list with the dummy head
  \<open>h\<close> and the members \<open>xs\<close> is the predicate \<open>ring m h xs\<close>.
\<close>

section \<open>Nodes and operations\<close>

record dnode =
  d_prev :: ptr
  d_next :: ptr

type_synonym dmem = "addr \<rightharpoonup> dnode"

definition d_rd :: "(dnode \<Rightarrow> 'b) \<Rightarrow> dmem \<Rightarrow> ptr \<Rightarrow> 'b option" where
  "d_rd f m p = (case p of None \<Rightarrow> None | Some a \<Rightarrow> map_option f (m a))"

definition d_wr :: "(dnode \<Rightarrow> dnode) \<Rightarrow> dmem \<Rightarrow> ptr \<Rightarrow> dmem option" where
  "d_wr f m p = (case p of None \<Rightarrow> None | Some a \<Rightarrow> map_option (\<lambda>n. m(a \<mapsto> f n)) (m a))"

definition dlist_init :: "dmem \<Rightarrow> ptr \<Rightarrow> dmem option" where
  "dlist_init m node = do {
     m \<leftarrow> d_wr (\<lambda>n. n\<lparr>d_next := node\<rparr>) m node;
     d_wr (\<lambda>n. n\<lparr>d_prev := node\<rparr>) m node
   }"

definition dlist_empty :: "dmem \<Rightarrow> ptr \<Rightarrow> bool option" where
  "dlist_empty m node = do {
     nx \<leftarrow> d_rd d_next m node;
     Some (nx = node)
   }"

definition dlist_detach :: "dmem \<Rightarrow> ptr \<Rightarrow> dmem option" where
  "dlist_detach m node = do {
     prev \<leftarrow> d_rd d_prev m node;
     nxt \<leftarrow> d_rd d_next m node;
     m \<leftarrow> d_wr (\<lambda>n. n\<lparr>d_next := nxt\<rparr>) m prev;
     d_wr (\<lambda>n. n\<lparr>d_prev := prev\<rparr>) m nxt
   }"

definition dlist_insert_before :: "dmem \<Rightarrow> ptr \<Rightarrow> ptr \<Rightarrow> dmem option" where
  "dlist_insert_before m target rookie = do {
     prev \<leftarrow> d_rd d_prev m target;
     m \<leftarrow> d_wr (\<lambda>n. n\<lparr>d_next := rookie\<rparr>) m prev;
     m \<leftarrow> d_wr (\<lambda>n. n\<lparr>d_prev := prev\<rparr>) m rookie;
     m \<leftarrow> d_wr (\<lambda>n. n\<lparr>d_next := target\<rparr>) m rookie;
     d_wr (\<lambda>n. n\<lparr>d_prev := rookie\<rparr>) m target
   }"

lemma d_simps [mem_simps]:
  "d_rd f m None = None"
  "d_rd f m (Some a) = map_option f (m a)"
  "d_wr g m None = None"
  "d_wr g m (Some a) = map_option (\<lambda>n. m(a \<mapsto> g n)) (m a)"
  by (simp_all add: d_rd_def d_wr_def)

section \<open>Rings\<close>

definition linked :: "dmem \<Rightarrow> addr \<Rightarrow> addr \<Rightarrow> bool" where
  "linked m a b \<longleftrightarrow> map_option d_next (m a) = Some (Some b) \<and> map_option d_prev (m b) = Some (Some a)"

fun links :: "dmem \<Rightarrow> addr list \<Rightarrow> bool" where
  "links m (a # b # xs) \<longleftrightarrow> linked m a b \<and> links m (b # xs)"
| "links m xs \<longleftrightarrow> True"

definition ring :: "dmem \<Rightarrow> addr \<Rightarrow> addr list \<Rightarrow> bool" where
  "ring m h xs \<longleftrightarrow> distinct (h # xs) \<and> links m (h # xs @ [h])"

lemma links_append: "links m (xs @ a # ys) \<longleftrightarrow> links m (xs @ [a]) \<and> links m (a # ys)"
proof (induction xs)
  case (Cons b xs)
  then show ?case by (cases xs) auto
qed simp

lemma links_cong:
  assumes "\<And>a. a \<in> set (butlast xs) \<Longrightarrow> map_option d_next (m' a) = map_option d_next (m a)"
    and "\<And>a. a \<in> set (tl xs) \<Longrightarrow> map_option d_prev (m' a) = map_option d_prev (m a)"
  shows "links m' xs = links m xs"
  using assms by (induction m xs rule: links.induct) (auto simp: linked_def)

lemma linked_dom:
  "linked m a b \<Longrightarrow> \<exists>n k. m a = Some n \<and> d_next n = Some b \<and> m b = Some k \<and> d_prev k = Some a"
  by (auto simp: linked_def)

text \<open>A place in a ring: the nodes before and after it, and the two stretches they end.\<close>

lemma ring_place:
  obtains ps p n qs where "h # us = ps @ [p]" "vs @ [h] = n # qs"
  by (metis append_butlast_last_id append_is_Nil_conv list.distinct(1) list.exhaust)

lemma place_disjoint:
  assumes "h # us = ps @ [p]" "vs @ [h] = n # qs" "distinct (h # us @ vs)"
  shows "p \<notin> set ps" "p \<notin> set (butlast (n # qs))" "n \<notin> set qs" "n \<notin> set (tl (ps @ [p]))"
    and "set (ps @ [p]) \<union> set (n # qs) = set (h # us @ vs)"
proof -
  have b: "butlast (n # qs) = vs" and t: "tl (ps @ [p]) = us"
    using assms(1,2) by (metis butlast_snoc, metis list.sel(3))
  show "p \<notin> set ps"
    using arg_cong [OF assms(1), of distinct] assms(3) by simp
  have "p \<in> set (h # us)"
    using assms(1) by simp
  then show "p \<notin> set (butlast (n # qs))"
    using assms(3) unfolding b by auto
  show "n \<notin> set qs"
    using arg_cong [OF assms(2), of distinct] assms(3) by simp
  have "n \<in> set (vs @ [h])"
    using assms(2) by simp
  then show "n \<notin> set (tl (ps @ [p]))"
    using assms(3) unfolding t by auto
  show "set (ps @ [p]) \<union> set (n # qs) = set (h # us @ vs)"
    using assms(1,2) by (metis Un_insert_left Un_insert_right list.set(1) list.simps(15) set_append sup_bot.right_neutral sup_left_idem)
qed

lemma dlist_init_ring:
  assumes "m h = Some n"
  shows "\<exists>m'. dlist_init m (Some h) = Some m' \<and> ring m' h [] \<and> (\<forall>a. a \<noteq> h \<longrightarrow> m' a = m a)"
  using assms by (simp add: dlist_init_def mem_simps ring_def linked_def)

lemma dlist_empty_ring:
  assumes "ring m h xs"
  shows "dlist_empty m (Some h) = Some (xs = [])"
proof -
  have "linked m h (hd (xs @ [h]))"
    using assms by (cases xs) (auto simp: ring_def)
  then show ?thesis
    using assms by (cases xs) (auto simp: dlist_empty_def mem_simps linked_def ring_def)
qed

text \<open>Two stretches joined at \<open>p\<close> and \<open>n\<close>, whatever lay between them before.\<close>

lemma join_links:
  assumes "h # us = ps @ [p]" "vs @ [h] = n # qs" "distinct (h # us @ vs)"
    and "links m (ps @ [p])" "links m (n # qs)"
    and "\<And>a. a \<noteq> p \<Longrightarrow> map_option d_next (m' a) = map_option d_next (m a)"
    and "\<And>a. a \<noteq> n \<Longrightarrow> map_option d_prev (m' a) = map_option d_prev (m a)"
    and "linked m' p n"
  shows "ring m' h (us @ vs)"
proof -
  note pd = place_disjoint [OF assms(1-3)]
  have "links m' (ps @ [p]) = links m (ps @ [p])"
    by (rule links_cong) (metis assms(6) butlast_snoc pd(1), metis assms(7) pd(4))
  moreover have "links m' (n # qs) = links m (n # qs)"
    by (rule links_cong) (metis assms(6) pd(2), metis assms(7) list.sel(3) pd(3))
  ultimately have "links m' (ps @ p # n # qs)"
    using assms(4,5,8) by (subst links_append) auto
  then show ?thesis
    using assms(1-3) by (simp add: ring_def) (metis append_Cons append_assoc append_Nil)
qed

lemma dlist_detach_ring:
  assumes "ring m h (us @ x # vs)"
  shows "\<exists>m'. dlist_detach m (Some x) = Some m' \<and> ring m' h (us @ vs) \<and>
           (\<forall>a. a \<notin> set (h # us @ vs) \<longrightarrow> m' a = m a)"
proof -
  obtain ps p n qs where pl: "h # us = ps @ [p]" "vs @ [h] = n # qs"
    by (rule ring_place)
  have d: "distinct (h # us @ vs)" "x \<notin> set (h # us @ vs)"
    using assms by (auto simp: ring_def)
  have lk: "links m (ps @ p # x # n # qs)"
    using assms pl by (metis append_Cons append_assoc append_Nil ring_def)
  then have ls: "links m (ps @ [p])" "linked m p x" "linked m x n" "links m (n # qs)"
    by (subst (asm) links_append, simp)+
  have neq: "x \<noteq> p" "x \<noteq> n"
    using place_disjoint(5) [OF pl d(1)] d(2) by auto
  obtain kp kn kx where k: "m p = Some kp" "m n = Some kn" "m x = Some kx"
    "d_prev kx = Some p" "d_next kx = Some n"
    using linked_dom [OF ls(2)] linked_dom [OF ls(3)] by auto
  define m1 where "m1 = m(p \<mapsto> kp\<lparr>d_next := Some n\<rparr>)"
  obtain kn' where kn': "m1 n = Some kn'"
    using k by (cases "n = p") (auto simp: m1_def)
  define m2 where "m2 = m1(n \<mapsto> kn'\<lparr>d_prev := Some p\<rparr>)"
  have run: "dlist_detach m (Some x) = Some m2"
    using k kn' by (simp add: dlist_detach_def mem_simps m1_def m2_def)
  have "ring m2 h (us @ vs)"
    using kn' k by (intro join_links [OF pl d(1) ls(1,4)]) (auto simp: m2_def m1_def linked_def)
  moreover have "m2 a = m a" if "a \<notin> set (h # us @ vs)" for a
    using that place_disjoint(5) [OF pl d(1)] by (auto simp: m2_def m1_def)
  ultimately show ?thesis
    using run by blast
qed

text \<open>Insertion before the dummy head appends to the list.\<close>

lemma dlist_insert_before_ring:
  assumes "ring m h xs" "m x = Some k" "x \<notin> set (h # xs)"
  shows "\<exists>m'. dlist_insert_before m (Some h) (Some x) = Some m' \<and> ring m' h (xs @ [x]) \<and>
           (\<forall>a. a \<notin> set (h # xs @ [x]) \<longrightarrow> m' a = m a)"
proof -
  obtain ps p where pl: "h # xs = ps @ [p]"
    by (metis append_butlast_last_id list.distinct(1))
  have lk: "links m (ps @ [p, h])"
    using assms(1) pl by (metis append_Cons append_assoc append_Nil ring_def)
  then have ls: "links m (ps @ [p])" "linked m p h"
    by (subst (asm) links_append, simp)+
  have pin: "p \<in> set (h # xs)"
    using pl by simp
  then have neq: "x \<noteq> p" "x \<noteq> h"
    using assms(3) by auto
  obtain kp kh where k: "m p = Some kp" "m h = Some kh" "d_prev kh = Some p"
    using linked_dom [OF ls(2)] by auto
  define m1 where "m1 = m(p \<mapsto> kp\<lparr>d_next := Some x\<rparr>)"
  obtain kh' where kh': "m1 h = Some kh'"
    using k by (cases "h = p") (auto simp: m1_def)
  define m2 where "m2 = m1(x \<mapsto> k\<lparr>d_prev := Some p, d_next := Some h\<rparr>, h \<mapsto> kh'\<lparr>d_prev := Some x\<rparr>)"
  have run: "dlist_insert_before m (Some h) (Some x) = Some m2"
    using k kh' assms(2) neq by (simp add: dlist_insert_before_def mem_simps m1_def m2_def)
  have d: "distinct (ps @ [p])"
    using assms(1) pl by (metis ring_def)
  have nx: "map_option d_next (m2 a) = map_option d_next (m a)" if "a \<noteq> p" "a \<noteq> x" for a
    using that k kh' by (auto simp: m2_def m1_def)
  have pv: "map_option d_prev (m2 a) = map_option d_prev (m a)" if "a \<noteq> h" "a \<noteq> x" for a
    using that k kh' by (auto simp: m2_def m1_def)
  have notin: "p \<notin> set ps" "h \<notin> set (tl (ps @ [p]))" "x \<notin> set (ps @ [p])"
    subgoal using d by simp
    subgoal using assms(1) unfolding pl [symmetric] by (auto simp: ring_def)
    subgoal using assms(3) unfolding pl [symmetric] by simp
    done
  have "links m2 (ps @ [p]) = links m (ps @ [p])"
    by (rule links_cong) (metis nx butlast_snoc notin(1,3) Un_iff set_append, metis pv notin(2,3) list.set_sel(2) tl_Nil)
  then have "links m2 (ps @ [p])"
    using ls(1) by simp
  moreover have "linked m2 p x" "linked m2 x h"
    using k kh' neq by (auto simp: m2_def m1_def linked_def)
  ultimately have "links m2 (ps @ p # x # [h])"
    by (subst links_append) auto
  then have "links m2 ((h # xs) @ [x, h])"
    unfolding pl by simp
  then have "ring m2 h (xs @ [x])"
    using assms(1,3) by (auto simp: ring_def)
  moreover have "m2 a = m a" if "a \<notin> set (h # xs @ [x])" for a
    using that pin by (auto simp: m2_def m1_def)
  ultimately show ?thesis
    using run by blast
qed

end
