(* ===== verification/EventLoop.thy ===== *)
theory EventLoop
  imports Server DList
begin

text \<open>
  The connections and the event loop of server.cpp: \<open>Conn\<close>, \<open>g_data\<close>, \<open>handle_accept\<close>,
  \<open>conn_destroy\<close>, \<open>try_one_request\<close>, \<open>handle_read\<close>, \<open>handle_write\<close>, the timers and one
  iteration of the loop of \<open>main\<close>. What the operating system answers (\<open>accept\<close>, \<open>read\<close>,
  \<open>write\<close>, the \<open>revents\<close> of \<open>poll\<close>, the clock) is an argument. The idle node of a
  connection has the address of the connection; the head \<open>g_data.idle_list\<close> has address 0.
  \<open>None\<close> is undefined behaviour, as the use of a deleted connection, or a failed assertion.
\<close>

section \<open>State\<close>

record conn =
  c_fd :: int
  c_want_read :: bool
  c_want_write :: bool
  c_want_close :: bool
  c_incoming :: bytes
  c_outgoing :: bytes
  c_last_active_ms :: u64
  c_db :: db

record server =
  sv_conn :: "addr \<rightharpoonup> conn"
  sv_next :: addr
  sv_idle :: dmem
  sv_fd2conn :: "ptr list"
  sv_store :: store

definition idle_list :: addr where
  "idle_list = 0"

text \<open>\<open>g_data\<close> after \<open>dlist_init(&g_data.idle_list)\<close>.\<close>

definition server0 :: "server option" where
  "server0 = do {
     m \<leftarrow> dlist_init [idle_list \<mapsto> \<lparr>d_prev = None, d_next = None\<rparr>] (Some idle_list);
     Some \<lparr>sv_conn = Map.empty, sv_next = 1, sv_idle = m, sv_fd2conn = [], sv_store = empty_store\<rparr>
   }"

definition upd_conn :: "addr \<Rightarrow> (conn \<Rightarrow> conn) \<Rightarrow> server \<Rightarrow> server option" where
  "upd_conn a f sv = do {
     c \<leftarrow> sv_conn sv a;
     Some (sv\<lparr>sv_conn := (sv_conn sv)(a \<mapsto> f c)\<rparr>)
   }"

section \<open>Opening and closing\<close>

text \<open>\<open>connfd\<close> is what \<open>accept\<close> returned. The new \<open>Conn\<close> comes with an idle node of null pointers.\<close>

definition handle_accept :: "u64 \<Rightarrow> int \<Rightarrow> server \<Rightarrow> (server \<times> ptr) option" where
  "handle_accept now connfd sv =
     (if connfd < 0 then Some (sv, None)
      else do {
        let a = sv_next sv;
        let c = \<lparr>c_fd = connfd, c_want_read = True, c_want_write = False, c_want_close = False,
                 c_incoming = [], c_outgoing = [], c_last_active_ms = now, c_db = empty_hmap\<rparr>;
        m \<leftarrow> dlist_insert_before ((sv_idle sv)(a \<mapsto> \<lparr>d_prev = None, d_next = None\<rparr>)) (Some idle_list) (Some a);
        Some (sv\<lparr>sv_conn := (sv_conn sv)(a \<mapsto> c), sv_next := a + 1, sv_idle := m\<rparr>, Some a)
      })"

definition clear_fd :: "int \<Rightarrow> server \<Rightarrow> server" where
  "clear_fd fd sv =
     (if 0 \<le> fd \<and> nat fd < length (sv_fd2conn sv)
      then sv\<lparr>sv_fd2conn := (sv_fd2conn sv)[nat fd := None]\<rparr> else sv)"

definition conn_destroy :: "addr \<Rightarrow> server \<Rightarrow> server option" where
  "conn_destroy a sv = do {
     c \<leftarrow> sv_conn sv a;
     let sv = clear_fd (c_fd c) sv;
     m \<leftarrow> dlist_detach (sv_idle sv) (Some a);
     Some (sv\<lparr>sv_conn := (sv_conn sv)(a := None), sv_idle := m(a := None)\<rparr>)
   }"

section \<open>Requests\<close>

text \<open>An error reply, after which the connection is to be closed.\<close>

definition refuse :: "bytes \<Rightarrow> nat \<Rightarrow> conn \<Rightarrow> conn option" where
  "refuse err n c = do {
     let (out, header_pos) = response_begin (c_outgoing c);
     out \<leftarrow> response_end (out_err out ERR_BAD_REQ err) header_pos;
     rest \<leftarrow> buf_consume (c_incoming c) n;
     Some (c\<lparr>c_outgoing := out, c_incoming := rest, c_want_read := False, c_want_write := True, c_want_close := True\<rparr>)
   }"

definition try_one_request :: "u64 \<Rightarrow> addr \<Rightarrow> conn \<Rightarrow> store \<Rightarrow> (conn \<times> store \<times> bool) option" where
  "try_one_request now a c s =
     (if length (c_incoming c) < 4 then Some (c, s, False)
      else
        let len = unat (rd32 (take 4 (c_incoming c))) in
        if len > k_max_msg then do {
          c \<leftarrow> refuse (lit ''Message too long'') 4 c;
          Some (c, s, False)
        }
        else if 4 + len > length (c_incoming c) then Some (c, s, False)
        else
          (case parse_req (take len (drop 4 (c_incoming c))) of
             None \<Rightarrow> do {
               c \<leftarrow> refuse (lit ''Bad request'') (4 + len) c;
               Some (c, s, False)
             }
           | Some cmd \<Rightarrow> do {
               let (out, header_pos) = response_begin [];
               (s, db, out) \<leftarrow> do_request now a cmd out s (c_db c);
               out \<leftarrow> response_end out header_pos;
               rest \<leftarrow> buf_consume (c_incoming c) (4 + len);
               Some (c\<lparr>c_outgoing := out, c_db := db, c_incoming := rest\<rparr>, s, True)
             }))"

lemma try_one_request_shrinks:
  "try_one_request now a c s = Some (c', s', True) \<Longrightarrow> length (c_incoming c') < length (c_incoming c)"
  by (auto simp: try_one_request_def buf_consume_def Let_def split: if_splits option.splits bind_splits prod.splits)

text \<open>The loop \<open>while (try_one_request(conn))\<close>; the i-th request reads the clock as \<open>clock i\<close>.\<close>

function try_requests :: "(nat \<Rightarrow> u64) \<Rightarrow> nat \<Rightarrow> addr \<Rightarrow> conn \<Rightarrow> store \<Rightarrow> (conn \<times> store) option" where
  "try_requests clock i a c s =
     (case try_one_request (clock i) a c s of
        None \<Rightarrow> None
      | Some (c', s', go_on) \<Rightarrow> if go_on then try_requests clock (i + 1) a c' s' else Some (c', s'))"
  by pat_completeness auto
termination
  by (relation "measure (\<lambda>(clock, i, a, c, s). length (c_incoming c))") (auto dest: try_one_request_shrinks)

declare try_requests.simps [simp del]

text \<open>The result of \<open>read\<close>: an error, \<open>EAGAIN\<close>, or the bytes read, none at the end of the stream.\<close>

datatype read_result = ReadErr | ReadAgain | ReadBytes bytes

definition handle_read :: "(nat \<Rightarrow> u64) \<Rightarrow> read_result \<Rightarrow> addr \<Rightarrow> server \<Rightarrow> server option" where
  "handle_read clock rv a sv =
     (case rv of
        ReadAgain \<Rightarrow> Some sv
      | ReadErr \<Rightarrow> upd_conn a (\<lambda>c. c\<lparr>c_want_close := True\<rparr>) sv
      | ReadBytes buf \<Rightarrow>
          if buf = [] then upd_conn a (\<lambda>c. c\<lparr>c_want_close := True\<rparr>) sv
          else do {
            c \<leftarrow> sv_conn sv a;
            let c = c\<lparr>c_incoming := buf_append (c_incoming c) buf\<rparr>;
            (c, s) \<leftarrow> try_requests clock 0 a c (sv_store sv);
            let c = (if length (c_outgoing c) > 0 then c\<lparr>c_want_read := False, c_want_write := True\<rparr> else c);
            Some (sv\<lparr>sv_conn := (sv_conn sv)(a \<mapsto> c), sv_store := s\<rparr>)
          })"

section \<open>Replies\<close>

text \<open>
  The result of \<open>write\<close>. The list holds the results of the successive calls; when it is too
  short the loop has not ended, which is \<open>None\<close>. Claiming to have sent more than there is is
  \<open>None\<close> as well.
\<close>

datatype write_result = WriteErr | WriteAgain | WriteSent nat

fun handle_write :: "write_result list \<Rightarrow> conn \<Rightarrow> conn option" where
  "handle_write ws c =
     (if c_outgoing c = [] then Some (c\<lparr>c_want_write := False, c_want_read := True\<rparr>)
      else
        (case ws of
           [] \<Rightarrow> None
         | WriteAgain # ws \<Rightarrow> Some c
         | WriteErr # ws \<Rightarrow> Some (c\<lparr>c_want_close := True\<rparr>)
         | WriteSent n # ws \<Rightarrow>
             if n = 0 then Some (c\<lparr>c_want_close := True\<rparr>)
             else do {
               out \<leftarrow> buf_consume (c_outgoing c) n;
               handle_write ws (c\<lparr>c_outgoing := out\<rparr>)
             }))"

declare handle_write.simps [simp del]

section \<open>Timers\<close>

definition k_idle_timeout_ms :: u64 where
  "k_idle_timeout_ms = 60 * 1000"

text \<open>
  The conversion to \<open>int32_t\<close> and back to \<open>uint32_t\<close> keeps the low 32 bits. The branch on
  \<open>(uint64_t)-1\<close> tests for no timer at all.
\<close>

definition next_timer_ms :: "u64 \<Rightarrow> server \<Rightarrow> u32 option" where
  "next_timer_ms now_ms sv = do {
     empty \<leftarrow> dlist_empty (sv_idle sv) (Some idle_list);
     next_ms \<leftarrow> (if empty then Some (- 1)
                 else do {
                   p \<leftarrow> d_rd d_next (sv_idle sv) (Some idle_list);
                   a \<leftarrow> p;
                   c \<leftarrow> sv_conn sv a;
                   Some (c_last_active_ms c + k_idle_timeout_ms)
                 });
     let heap = fst (s_timers (sv_store sv));
     let next_ms = (if heap \<noteq> [] \<and> hi_val (heap ! 0) < next_ms then hi_val (heap ! 0) else next_ms);
     Some (if next_ms = - 1 then - 1 else if next_ms \<le> now_ms then 0 else ucast (next_ms - now_ms))
   }"

definition hnode_same :: "addr \<Rightarrow> addr \<Rightarrow> bool" where
  "hnode_same key node \<longleftrightarrow> node = key"

partial_function (option) idle_loop :: "u64 \<Rightarrow> server \<Rightarrow> server option" where
  "idle_loop now_ms sv = do {
     empty \<leftarrow> dlist_empty (sv_idle sv) (Some idle_list);
     if empty then Some sv
     else do {
       p \<leftarrow> d_rd d_next (sv_idle sv) (Some idle_list);
       a \<leftarrow> p;
       c \<leftarrow> sv_conn sv a;
       let next_ms = c_last_active_ms c + k_idle_timeout_ms;
       if next_ms \<ge> now_ms then Some sv
       else do {
         sv \<leftarrow> conn_destroy a (clear_fd (c_fd c) sv);
         idle_loop now_ms sv
       }
     }
   }"

definition k_max_works :: nat where
  "k_max_works = 2000"

text \<open>\<open>heap_delete(heap, 0)\<close> of an item that is stale.\<close>

definition drop_root :: "store \<Rightarrow> store option" where
  "drop_root s = do {
     h \<leftarrow> heap_delete (fst (s_timers s)) (snd (s_timers s)) 0;
     Some (s\<lparr>s_timers := h\<rparr>)
   }"

partial_function (option) ttl_loop :: "u64 \<Rightarrow> nat \<Rightarrow> server \<Rightarrow> server option" where
  "ttl_loop now_ms nworks sv =
     (let s = sv_store sv; heap = fst (s_timers s) in
      if heap = [] \<or> \<not> hi_val (heap ! 0) < now_ms then Some sv
      else do {
        stale \<leftarrow> (case hi_ref (heap ! 0) of
                   None \<Rightarrow> Some True
                 | Some r \<Rightarrow> do { i \<leftarrow> snd (s_timers s) r; Some (i = npos) });
        if stale then do {
          s \<leftarrow> drop_root s;
          ttl_loop now_ms nworks (sv\<lparr>sv_store := s\<rparr>)
        } else do {
          ent \<leftarrow> hi_ref (heap ! 0);
          e \<leftarrow> s_entry s ent;
          (case e_owner e of
             None \<Rightarrow> do {
               s \<leftarrow> drop_root s;
               ttl_loop now_ms nworks (sv\<lparr>sv_store := s\<rparr>)
             }
           | Some owner \<Rightarrow> do {
               c \<leftarrow> sv_conn sv owner;
               (db, node) \<leftarrow> hm_delete (c_db c) (e_hcode e) (hnode_same ent);
               guard (map_option hobj node = Some ent);
               s \<leftarrow> entry_del now_ms ent s;
               let sv = sv\<lparr>sv_conn := (sv_conn sv)(owner \<mapsto> c\<lparr>c_db := db\<rparr>), sv_store := s\<rparr>;
               if nworks \<ge> k_max_works then Some sv
               else ttl_loop now_ms (nworks + 1) sv
             })
        }
      })"

definition process_timers :: "u64 \<Rightarrow> server \<Rightarrow> server option" where
  "process_timers now_ms sv = do {
     sv \<leftarrow> idle_loop now_ms sv;
     ttl_loop now_ms 0 sv
   }"

declare idle_loop.simps [code] ttl_loop.simps [code]

section \<open>The loop of main\<close>

record pollfd =
  p_fd :: int
  p_in :: bool
  p_out :: bool

text \<open>The descriptors polled after the listening socket, with \<open>POLLERR\<close> always among the events.\<close>

fun poll_args :: "(addr \<rightharpoonup> conn) \<Rightarrow> ptr list \<Rightarrow> pollfd list option" where
  "poll_args conns [] = Some []"
| "poll_args conns (None # ps) = poll_args conns ps"
| "poll_args conns (Some a # ps) = do {
     c \<leftarrow> conns a;
     rest \<leftarrow> poll_args conns ps;
     Some (\<lparr>p_fd = c_fd c, p_in = c_want_read c, p_out = c_want_write c\<rparr> # rest)
   }"

text \<open>
  What \<open>poll\<close> reported for one descriptor (\<open>ev_other\<close> stands for any other bit of
  \<open>revents\<close>), and the answers of the system calls made while it is handled.
\<close>

record event =
  ev_in :: bool
  ev_out :: bool
  ev_err :: bool
  ev_other :: bool
  ev_now :: u64
  ev_clock :: "nat \<Rightarrow> u64"
  ev_read :: read_result
  ev_write :: "write_result list"

definition fd_lookup :: "int \<Rightarrow> server \<Rightarrow> ptr" where
  "fd_lookup fd sv = (if 0 \<le> fd \<and> nat fd < length (sv_fd2conn sv) then sv_fd2conn sv ! nat fd else None)"

definition touch :: "u64 \<Rightarrow> addr \<Rightarrow> server \<Rightarrow> server option" where
  "touch now a sv = do {
     sv \<leftarrow> upd_conn a (\<lambda>c. c\<lparr>c_last_active_ms := now\<rparr>) sv;
     m \<leftarrow> dlist_detach (sv_idle sv) (Some a);
     m \<leftarrow> dlist_insert_before m (Some idle_list) (Some a);
     Some (sv\<lparr>sv_idle := m\<rparr>)
   }"

definition handle_conn :: "int \<Rightarrow> event \<Rightarrow> server \<Rightarrow> server option" where
  "handle_conn fd ev sv =
     (if \<not> ev_in ev \<and> \<not> ev_out ev \<and> \<not> ev_err ev \<and> \<not> ev_other ev then Some sv
      else
        (case fd_lookup fd sv of
           None \<Rightarrow> Some sv
         | Some a \<Rightarrow> do {
             sv \<leftarrow> touch (ev_now ev) a sv;
             sv \<leftarrow> (if ev_in ev then handle_read (ev_clock ev) (ev_read ev) a sv else Some sv);
             sv \<leftarrow> (if ev_out ev then do {
                      c \<leftarrow> sv_conn sv a;
                      c \<leftarrow> handle_write (ev_write ev) c;
                      Some (sv\<lparr>sv_conn := (sv_conn sv)(a \<mapsto> c)\<rparr>)
                    } else Some sv);
             c \<leftarrow> sv_conn sv a;
             if ev_err ev \<or> c_want_close c then conn_destroy a sv else Some sv
           }))"

fun handle_conns :: "(int \<times> event) list \<Rightarrow> server \<Rightarrow> server option" where
  "handle_conns [] sv = Some sv"
| "handle_conns ((fd, ev) # evs) sv = do { sv \<leftarrow> handle_conn fd ev sv; handle_conns evs sv }"

text \<open>The listening socket is readable when \<open>accepted\<close> is given; it is the result of \<open>accept\<close> with the clock.\<close>

definition accept_conn :: "(u64 \<times> int) option \<Rightarrow> server \<Rightarrow> server option" where
  "accept_conn accepted sv =
     (case accepted of
        None \<Rightarrow> Some sv
      | Some (now, connfd) \<Rightarrow> do {
          (sv, p) \<leftarrow> handle_accept now connfd sv;
          (case p of
             None \<Rightarrow> Some sv
           | Some a \<Rightarrow> do {
               c \<leftarrow> sv_conn sv a;
               let fd = nat (c_fd c);
               let fds = sv_fd2conn sv;
               let fds = (if length fds \<le> fd then fds @ replicate (fd + 1 - length fds) None else fds);
               Some (sv\<lparr>sv_fd2conn := fds[fd := Some a]\<rparr>)
             })
        })"

text \<open>
  One iteration. \<open>poll\<close> is interrupted, or reports on the listening socket and, in their order,
  on the descriptors polled; any other failure ends the process.
\<close>

datatype poll_result = PollIntr | PollReady "(u64 \<times> int) option" "event list"

definition loop_once :: "u64 \<Rightarrow> poll_result \<Rightarrow> u64 \<Rightarrow> server \<Rightarrow> (int \<times> server) option" where
  "loop_once now polled timers_now sv = do {
     args \<leftarrow> poll_args (sv_conn sv) (sv_fd2conn sv);
     t \<leftarrow> next_timer_ms now sv;
     let timeout_ms = sint t;
     (case polled of
        PollIntr \<Rightarrow> Some (timeout_ms, sv)
      | PollReady accepted evs \<Rightarrow> do {
          sv \<leftarrow> accept_conn accepted sv;
          sv \<leftarrow> handle_conns (zip (map p_fd args) evs) sv;
          sv \<leftarrow> process_timers timers_now sv;
          Some (timeout_ms, sv)
        })
   }"

end
