(* ===== verification/Client.thy ===== *)
theory Client
  imports Proto
begin

text \<open>
  client.cpp: serialising a request, reading and checking a reply, and cutting an input line into
  arguments. The results of \<open>write\<close> and \<open>read\<close> are lists of answers of the system; \<open>None\<close> is an
  access outside a buffer, or a call that has not come back when the answers are used up. What
  is printed is a list of \<open>printed\<close> items; the formatting of numbers is not modelled.
\<close>

section \<open>Sockets\<close>

datatype sock_write = SendErr | Sent nat

text \<open>The result is the return value and the bytes that went out.\<close>

fun write_all :: "sock_write list \<Rightarrow> bytes \<Rightarrow> (int \<times> bytes) option" where
  "write_all ws buf =
     (if buf = [] then Some (0, [])
      else
        (case ws of
           [] \<Rightarrow> None
         | SendErr # ws \<Rightarrow> Some (- 1, [])
         | Sent n # ws \<Rightarrow>
             if n = 0 then Some (- 1, [])
             else do {
               guard (n \<le> length buf);
               (rv, out) \<leftarrow> write_all ws (drop n buf);
               Some (rv, take n buf @ out)
             }))"

declare write_all.simps [simp del]

datatype sock_read = RecvErr | RecvIntr | Recv bytes

text \<open>The result is the return value, the bytes put into the buffer, and the answers left.\<close>

fun read_full :: "sock_read list \<Rightarrow> nat \<Rightarrow> (int \<times> bytes \<times> sock_read list) option" where
  "read_full rs n =
     (if n = 0 then Some (0, [], rs)
      else
        (case rs of
           [] \<Rightarrow> None
         | RecvIntr # rs \<Rightarrow> read_full rs n
         | RecvErr # rs \<Rightarrow> Some (- 1, [], rs)
         | Recv data # rs \<Rightarrow>
             if data = [] then Some (0, [], rs)
             else do {
               guard (length data \<le> n);
               (rv, more, rs) \<leftarrow> read_full rs (n - length data);
               Some (rv, data @ more, rs)
             }))"

declare read_full.simps [simp del]

section \<open>Requests\<close>

text \<open>The sum is computed in 64 bits and stored in 32; an argument longer than \<open>2 ^ 32\<close> does not fit the message.\<close>

definition msg_len :: "bytes list \<Rightarrow> u32" where
  "msg_len cmd = foldl (\<lambda>n s. n + of_nat (4 + length s)) 4 cmd"

text \<open>A \<open>memcpy\<close> to position \<open>pos\<close> of the buffer.\<close>

definition put :: "bytes \<Rightarrow> nat \<Rightarrow> bytes \<Rightarrow> bytes option" where
  "put buf pos data = do {
     guard (pos + length data \<le> length buf);
     Some (patch pos data buf)
   }"

fun put_args :: "bytes list \<Rightarrow> bytes \<Rightarrow> nat \<Rightarrow> bytes option" where
  "put_args [] buf p = Some buf"
| "put_args (s # ss) buf p = do {
     buf \<leftarrow> put buf p (le32 (of_nat (length s)));
     let p = p + 4;
     buf \<leftarrow> put buf p s;
     put_args ss buf (p + length s)
   }"

definition send_request :: "sock_write list \<Rightarrow> bytes list \<Rightarrow> (int \<times> bytes) option" where
  "send_request ws cmd =
     (let num_args = of_nat (length cmd); len = msg_len cmd in
      if unat len > k_max_msg then Some (- 1, [])
      else do {
        let buf = replicate (4 + unat len) 0;
        buf \<leftarrow> put buf 0 (le32 len);
        buf \<leftarrow> put buf 4 (le32 num_args);
        buf \<leftarrow> put_args cmd buf 8;
        write_all ws buf
      })"

section \<open>Replies\<close>

datatype printed =
    PNil
  | PErr int bytes
  | PStr bytes
  | PInt u64
  | PDbl u64
  | PArr u32
  | PEnd

text \<open>
  The string that \<open>%.*s\<close> prints: up to the precision or the first NUL. A negative precision is
  no precision, and then the NUL has to lie inside the buffer.
\<close>

definition fmt_str :: "u32 \<Rightarrow> bytes \<Rightarrow> bytes option" where
  "fmt_str len data =
     (if sint len < 0 then do {
        guard (0 \<in> set data);
        Some (takeWhile (\<lambda>c. c \<noteq> 0) data)
      } else do {
        let s = takeWhile (\<lambda>c. c \<noteq> 0) (take (unat len) data);
        guard (length s < length data \<or> unat len \<le> length data);
        Some s
      })"

text \<open>
  The parameter \<open>size\<close> is the length of \<open>data\<close>. The sum \<open>9 + len\<close> is computed in 32 bits, and
  the return value is that sum as an \<open>int32_t\<close>.
\<close>

function (sequential) print_response :: "bytes \<Rightarrow> (int \<times> printed list) option"
  and print_items :: "nat \<Rightarrow> bytes \<Rightarrow> nat \<Rightarrow> (int \<times> printed list) option" where
  "print_response data =
     (let size = length data in
      if size < 1 then Some (- 1, [])
      else if data ! 0 = TAG_NIL then Some (1, [PNil])
      else if data ! 0 = TAG_ERR then
        if size < 9 then Some (- 1, [])
        else
          let code = sint (rd32 (take 4 (drop 1 data))); len = rd32 (take 4 (drop 5 data)) in
          if size < unat (9 + len) then Some (- 1, [])
          else do { s \<leftarrow> fmt_str len (drop 9 data); Some (sint (9 + len), [PErr code s]) }
      else if data ! 0 = TAG_STR then
        if size < 5 then Some (- 1, [])
        else
          let len = rd32 (take 4 (drop 1 data)) in
          if size < unat (5 + len) then Some (- 1, [])
          else do { s \<leftarrow> fmt_str len (drop 5 data); Some (sint (5 + len), [PStr s]) }
      else if data ! 0 = TAG_INT then
        if size < 9 then Some (- 1, []) else Some (9, [PInt (rd64 (take 8 (drop 1 data)))])
      else if data ! 0 = TAG_DBL then
        if size < 9 then Some (- 1, []) else Some (9, [PDbl (rd64 (take 8 (drop 1 data)))])
      else if data ! 0 = TAG_ARR then
        if size < 5 then Some (- 1, [])
        else do {
          let len = rd32 (take 4 (drop 1 data));
          (rv, out) \<leftarrow> print_items (unat len) (drop 5 data) 5;
          Some (rv, PArr len # out)
        }
      else Some (- 1, []))"
| "print_items 0 rest arr_bytes = Some (sint (of_nat arr_bytes :: u32), [PEnd])"
| "print_items (Suc n) rest arr_bytes = do {
     (rv, out) \<leftarrow> print_response rest;
     if rv < 0 then Some (rv, out)
     else do {
       guard (nat rv \<le> length rest);
       (rv', out') \<leftarrow> print_items n (drop (nat rv) rest) (arr_bytes + nat rv);
       Some (rv', out @ out')
     }
   }"
  by pat_completeness auto
termination
  by (relation "inv_image (less_than <*lex*> less_than)
        (\<lambda>x. case x of Inl data \<Rightarrow> (length data, 0) | Inr (n, rest, b) \<Rightarrow> (length rest, Suc n))")
    (auto simp: not_less)

declare print_response.simps [simp del] print_items.simps [simp del]

text \<open>The bytes received overwrite the front of a buffer of zeros.\<close>

definition fill :: "nat \<Rightarrow> bytes \<Rightarrow> bytes" where
  "fill n got = got @ replicate (n - length got) 0"

definition read_response :: "sock_read list \<Rightarrow> (int \<times> printed list) option" where
  "read_response rs = do {
     (rv, got, rs) \<leftarrow> read_full rs 4;
     if rv < 0 then Some (- 1, [])
     else
       let len = rd32 (fill 4 got) in
       if unat len > k_max_msg then Some (- 1, [])
       else do {
         (rv, got, rs) \<leftarrow> read_full rs (unat len);
         if rv < 0 then Some (- 1, [])
         else do {
           (rv, out) \<leftarrow> print_response (fill (unat len) got);
           if rv > 0 \<and> (of_int rv :: u32) \<noteq> len then Some (- 1, out) else Some (rv, out)
         }
       }
   }"

text \<open>Whether \<open>query\<close> returned or ended the process.\<close>

datatype query_end = Returned int | Exited

definition query :: "sock_write list \<Rightarrow> sock_read list \<Rightarrow> bytes list \<Rightarrow> (query_end \<times> bytes \<times> printed list) option" where
  "query ws rs cmd = do {
     (rv, sent) \<leftarrow> send_request ws cmd;
     if rv < 0 then Some (Returned (- 1), sent, [])
     else do {
       (rv, out) \<leftarrow> read_response rs;
       if length cmd = 1 \<and> cmd ! 0 = lit ''quit''
       then Some (if rv < 0 then Returned (- 1) else Exited, sent, out)
       else Some (Returned rv, sent, out)
     }
   }"

section \<open>The command line\<close>

text \<open>\<open>input.find(c, pos)\<close>, with \<open>npos\<close> for a character that is not found.\<close>

definition str_find :: "u8 \<Rightarrow> bytes \<Rightarrow> nat \<Rightarrow> nat" where
  "str_find c s pos =
     (let n = length (takeWhile (\<lambda>x. x \<noteq> c) (drop pos s)) in
      if pos + n < length s then pos + n else npos)"

definition substr :: "bytes \<Rightarrow> nat \<Rightarrow> nat \<Rightarrow> bytes option" where
  "substr s pos n = do { guard (pos \<le> length s); Some (take n (drop pos s)) }"

text \<open>The loop of \<open>main\<close> over one line. With \<open>npos\<close> the count of \<open>substr\<close> reaches past the end of the line.\<close>

partial_function (option) tokenize :: "bytes \<Rightarrow> nat \<Rightarrow> bytes list \<Rightarrow> bytes list option" where
  "tokenize input pos cmd =
     (if pos < length input then
        if input ! pos = 32 then tokenize input (pos + 1) cmd
        else if input ! pos = 34 then
          (let e = str_find 34 input (pos + 1) in
           if e = npos then tokenize input pos cmd
           else do {
             s \<leftarrow> substr input (pos + 1) (e - pos - 1);
             tokenize input (e + 1) (cmd @ [s])
           })
        else
          (let e = str_find 32 input pos in
           do {
             s \<leftarrow> substr input pos (e - pos);
             tokenize input e (cmd @ [s])
           })
      else Some cmd)"

declare tokenize.simps [code]

section \<open>What is sent\<close>

lemma put_run: "put (pre @ old @ rest) (length pre) data = Some (pre @ data @ rest)" if "length old = length data"
  using that by (simp add: put_def patch_def)

lemma put_args_run:
  "put_args ss (pre @ replicate (length (concat (map field ss))) 0) (length pre) = Some (pre @ concat (map field ss))"
proof (induction ss arbitrary: pre)
  case (Cons s ss)
  let ?n = "length (concat (map field ss))"
  have split: "replicate (length (concat (map field (s # ss)))) (0 :: u8) = replicate 4 0 @ replicate (length s) 0 @ replicate ?n 0"
    by (simp add: field_def replicate_add [symmetric])
  have 1: "put (pre @ replicate 4 0 @ replicate (length s) 0 @ replicate ?n 0) (length pre) (le32 (of_nat (length s))) =
      Some (pre @ le32 (of_nat (length s)) @ replicate (length s) 0 @ replicate ?n 0)"
    by (rule put_run) simp
  have 2: "put ((pre @ le32 (of_nat (length s))) @ replicate (length s) 0 @ replicate ?n 0) (length pre + 4) s =
      Some ((pre @ le32 (of_nat (length s))) @ s @ replicate ?n 0)"
    using put_run [of "replicate (length s) 0" s "pre @ le32 (of_nat (length s))" "replicate ?n 0"] by simp
  show ?case
    using 1 2 Cons.IH [of "pre @ field s"] unfolding split by (simp add: field_def [of s] Let_def add.assoc)
qed simp

lemma msg_len_foldl: "foldl (\<lambda>n s. n + of_nat (4 + length s)) (k :: u32) ss = k + of_nat (length (concat (map field ss)))"
  by (induction ss arbitrary: k) (simp_all add: field_def)

lemma msg_len_eq: "msg_len cmd = of_nat (length (req_body cmd))"
  unfolding msg_len_def msg_len_foldl req_body_def by simp

lemma write_all_prefix:
  "write_all ws buf = Some (rv, out) \<Longrightarrow> rv = 0 \<and> out = buf \<or> rv = - 1 \<and> (\<exists>rest. buf = out @ rest)"
proof (induction ws buf arbitrary: rv out rule: write_all.induct)
  case (1 ws buf)
  show ?case
  proof (cases "\<exists>n ws'. buf \<noteq> [] \<and> ws = Sent n # ws' \<and> n \<noteq> 0")
    case False
    then show ?thesis
      using "1.prems" by (subst (asm) write_all.simps) (auto split: if_splits list.splits sock_write.splits)
  next
    case True
    then obtain n ws' where w: "buf \<noteq> []" "ws = Sent n # ws'" "n \<noteq> 0"
      by blast
    then obtain out' where r: "write_all ws' (drop n buf) = Some (rv, out')" "out = take n buf @ out'" "n \<le> length buf"
      using "1.prems" by (subst (asm) write_all.simps) (auto split: bind_splits)
    from "1.IH" [OF w(1,2) refl w(3) _ r(1)] r(2,3) show ?thesis
      by (auto simp: append_assoc [symmetric] simp del: append_assoc) (metis append.assoc append_take_drop_id)+
  qed
qed

lemma send_request_run:
  assumes "length (req_body cmd) \<le> k_max_msg"
  shows "send_request ws cmd = write_all ws (frame (req_body cmd))"
proof -
  let ?n = "length (req_body cmd)"
  have n: "unat (msg_len cmd) = ?n"
    using assms by (simp add: msg_len_eq k_max_msg_def unat_of_nat_u32)
  have "replicate (4 + ?n) (0 :: u8) = [] @ replicate 4 0 @ replicate ?n 0"
    by (simp add: replicate_add [symmetric])
  moreover have "put ([] @ replicate 4 0 @ replicate ?n 0) (length ([] :: bytes)) (le32 (msg_len cmd)) = Some ([] @ le32 (msg_len cmd) @ replicate ?n 0)"
    by (rule put_run) simp
  ultimately have 1: "put (replicate (4 + ?n) 0) 0 (le32 (msg_len cmd)) = Some (le32 (msg_len cmd) @ replicate ?n 0)"
    by simp
  have len: "?n = 4 + length (concat (map field cmd))"
    by (simp add: req_body_def)
  have 2: "put (le32 (msg_len cmd) @ replicate 4 0 @ replicate (length (concat (map field cmd))) 0) 4 (le32 (of_nat (length cmd)))
      = Some (le32 (msg_len cmd) @ le32 (of_nat (length cmd)) @ replicate (length (concat (map field cmd))) 0)"
    using put_run [of "replicate 4 0" "le32 (of_nat (length cmd))" "le32 (msg_len cmd)"] by simp
  have 3: "put_args cmd ((le32 (msg_len cmd) @ le32 (of_nat (length cmd))) @ replicate (length (concat (map field cmd))) 0) 8 =
      Some ((le32 (msg_len cmd) @ le32 (of_nat (length cmd))) @ concat (map field cmd))"
    using put_args_run [of cmd "le32 (msg_len cmd) @ le32 (of_nat (length cmd))"] by simp
  have f: "frame (req_body cmd) = (le32 (msg_len cmd) @ le32 (of_nat (length cmd))) @ concat (map field cmd)"
    by (simp add: frame_def req_body_def msg_len_eq)
  show ?thesis
    using assms 1 2 3 unfolding f send_request_def Let_def n
    by (simp add: len replicate_add)
qed

section \<open>What is printed\<close>

text \<open>The output of a well-formed reply; a string is cut at its first NUL.\<close>

fun shown :: "reply \<Rightarrow> printed list" where
  "shown RNil = [PNil]"
| "shown (RErr code s) = [PErr (sint code) (takeWhile (\<lambda>c. c \<noteq> 0) s)]"
| "shown (RStr s) = [PStr (takeWhile (\<lambda>c. c \<noteq> 0) s)]"
| "shown (RInt x) = [PInt x]"
| "shown (RDbl x) = [PDbl x]"
| "shown (RArr rs) = PArr (of_nat (length rs)) # concat (map shown rs) @ [PEnd]"

lemma sint_small: "n < 2 ^ 31 \<Longrightarrow> sint (of_nat n :: u32) = int n"
  by (simp add: signed_of_nat signed_take_bit_int_eq_self)

lemma fmt_str_prefix:
  assumes "length s < 2 ^ 31"
  shows "fmt_str (of_nat (length s)) (s @ rest) = Some (takeWhile (\<lambda>c. c \<noteq> 0) s)"
  using assms by (simp add: fmt_str_def sint_small unat_of_nat_u32)

lemma sum_u32:
  fixes k :: nat
  assumes "k + n < 2 ^ 31"
  shows "unat (of_nat k + of_nat n :: u32) = k + n" "sint (of_nat k + of_nat n :: u32) = int (k + n)"
  using assms unat_of_nat_u32 [of "k + n"] sint_small [of "k + n"] by simp_all

lemma dec_after:
  "rd32 (take 4 (drop 1 (t # le32 x @ rest))) = x" "drop 5 (t # le32 x @ rest) = rest"
  "rd64 (take 8 (drop 1 (t # le64 y @ rest))) = y"
  using c32.dec_prefix [of x rest] c64.dec_prefix [of y rest] c32.drop_field [of x rest] by (simp_all add: numeral_eq_Suc)

lemma encode_items_length: "r \<in> set rs \<Longrightarrow> length (encode r) \<le> length (concat (map encode rs))"
  by (induction rs) auto

lemma encode_nonempty: "1 \<le> length (encode r)"
  by (cases r) auto

lemma items_count: "length rs \<le> length (concat (map encode rs))"
proof (induction rs)
  case (Cons r rs)
  then show ?case
    using encode_nonempty [of r] by simp
qed simp

lemma print_items_run:
  assumes "\<And>r rest. r \<in> set rs \<Longrightarrow> print_response (encode r @ rest) = Some (int (length (encode r)), shown r)"
    and "b + length (concat (map encode rs)) < 2 ^ 31"
  shows "print_items (length rs) (concat (map encode rs) @ rest) b =
    Some (int (b + length (concat (map encode rs))), concat (map shown rs) @ [PEnd])"
  using assms
proof (induction rs arbitrary: b)
  case Nil
  then show ?case
    by (simp add: print_items.simps sint_small)
next
  case (Cons r rs)
  have r: "print_response (encode r @ rest') = Some (int (length (encode r)), shown r)" for rest'
    by (rule Cons.prems(1)) simp
  have IH: "print_items (length rs) (concat (map encode rs) @ rest) (b + length (encode r)) =
      Some (int (b + length (encode r) + length (concat (map encode rs))), concat (map shown rs) @ [PEnd])"
    using Cons.prems by (intro Cons.IH) (auto simp: add.assoc)
  show ?case
    using IH r by (simp add: print_items.simps del: encode.simps)
qed

lemma print_response_run:
  "length (encode r) < 2 ^ 31 \<Longrightarrow> print_response (encode r @ rest) = Some (int (length (encode r)), shown r)"
proof (induction r arbitrary: rest rule: encode.induct)
  case 1
  then show ?case
    by (simp add: print_response.simps)
next
  case (2 code s)
  have len: "length s + 9 < 2 ^ 31"
    using 2 by (simp add: field_def)
  have d: "(TAG_ERR # le32 code @ field s) @ rest = TAG_ERR # le32 code @ le32 (of_nat (length s)) @ s @ rest"
    by (simp add: field_def)
  have drop5: "drop 5 (TAG_ERR # le32 code @ le32 (of_nat (length s)) @ s @ rest) = le32 (of_nat (length s)) @ s @ rest"
    "drop 9 (TAG_ERR # le32 code @ le32 (of_nat (length s)) @ s @ rest) = s @ rest"
    "rd32 (take 4 (le32 (of_nat (length s)) @ s @ rest)) = of_nat (length s)"
    using c32.drop_field c32.dec_prefix by (simp_all add: numeral_eq_Suc)
  show ?case
    using len sum_u32 [of 9 "length s"]
    by (simp add: d print_response.simps tag_defs [symmetric] drop5 dec_after fmt_str_prefix Let_def field_def) (simp add: tag_defs)
next
  case (3 s)
  have len: "length s + 5 < 2 ^ 31"
    using 3 by (simp add: field_def)
  have d: "(TAG_STR # field s) @ rest = TAG_STR # le32 (of_nat (length s)) @ s @ rest"
    by (simp add: field_def)
  show ?case
    using len sum_u32 [of 5 "length s"]
    by (simp add: d print_response.simps dec_after fmt_str_prefix Let_def field_def) (simp add: tag_defs)
next
  case (4 x)
  then show ?case
    by (simp add: print_response.simps dec_after Let_def) (simp add: tag_defs)
next
  case (5 x)
  then show ?case
    by (simp add: print_response.simps dec_after Let_def) (simp add: tag_defs)
next
  case (6 rs)
  let ?body = "concat (map encode rs)"
  have len: "5 + length ?body < 2 ^ 31"
    using "6.prems" by simp
  then have n: "unat (of_nat (length rs) :: u32) = length rs"
    using items_count [of rs] by (intro unat_of_nat_u32) simp
  have d: "encode (RArr rs) @ rest = TAG_ARR # le32 (of_nat (length rs)) @ ?body @ rest"
    by simp
  have IH: "print_response (encode r @ rest') = Some (int (length (encode r)), shown r)" if "r \<in> set rs" for r rest'
    using that "6.IH" len encode_items_length [OF that] by simp
  have items: "print_items (length rs) (?body @ rest) 5 = Some (int (5 + length ?body), concat (map shown rs) @ [PEnd])"
    by (rule print_items_run [OF IH len])
  show ?case
    unfolding d using items n
    by (subst print_response.simps) (simp add: dec_after Let_def, simp add: tag_defs)
qed

text \<open>However malformed the reply is, no more is consumed than there is.\<close>

lemma print_consumes:
  "print_response data = Some (rv, out) \<Longrightarrow> length data < 2 ^ 31 \<Longrightarrow> rv \<le> int (length data)"
  "print_items n rest b = Some (rv, out) \<Longrightarrow> b + length rest < 2 ^ 31 \<Longrightarrow> rv \<le> int (b + length rest)"
proof (induction data and n rest b arbitrary: rv out and rv out rule: print_response_print_items.induct)
  case (1 data)
  have sw: "sint w \<le> int (length data)" if "unat w \<le> length data" for w :: u32
  proof -
    have "sint w = sint (of_nat (unat w) :: u32)"
      by simp
    also have "\<dots> = int (unat w)"
      by (rule sint_small) (use that "1.prems"(2) in simp)
    finally have "sint w = int (unat w)" .
    then show ?thesis
      using that by linarith
  qed
  show ?case
  proof (cases "data \<noteq> [] \<and> data ! 0 = TAG_ARR \<and> 5 \<le> length data")
    case True
    then obtain out' where r: "print_items (unat (rd32 (take 4 (drop 1 data)))) (drop 5 data) 5 = Some (rv, out')"
      using "1.prems"(1)
      by (subst (asm) print_response.simps) (auto simp: tag_defs Let_def split: bind_splits)
    from True have "\<not> length data < 1" "data ! 0 \<noteq> TAG_NIL" "data ! 0 \<noteq> TAG_ERR" "data ! 0 \<noteq> TAG_STR"
      "data ! 0 \<noteq> TAG_INT" "data ! 0 \<noteq> TAG_DBL" "data ! 0 = TAG_ARR" "\<not> length data < 5"
      by (auto simp: tag_defs)
    from "1.IH" [OF refl this refl r] "1.prems"(2) True show ?thesis
      by simp
  next
    case False
    then show ?thesis
      using "1.prems"(1) sw
      by (subst (asm) print_response.simps) (auto simp: Let_def not_less Suc_le_eq split: bind_splits if_splits)
  qed
next
  case (2 rest b)
  then show ?case
    by (simp add: print_items.simps sint_small)
next
  case (3 n rest b)
  obtain rv1 out1 where r1: "print_response rest = Some (rv1, out1)"
    using "3.prems"(1) by (subst (asm) print_items.simps) (auto split: bind_splits)
  have le: "rv1 \<le> int (length rest)"
    using "3.IH"(1) [OF r1] "3.prems"(2) by simp
  show ?case
  proof (cases "rv1 < 0")
    case True
    then show ?thesis
      using "3.prems"(1) r1 by (simp add: print_items.simps)
  next
    case False
    then obtain out2 where r2: "print_items n (drop (nat rv1) rest) (b + nat rv1) = Some (rv, out2)"
      using "3.prems"(1) r1 le by (auto simp: print_items.simps split: bind_splits)
    then have "rv \<le> int (b + nat rv1 + length (drop (nat rv1) rest))"
      using "3.IH"(2) [OF r1 refl False _ r2] "3.prems"(2) le False by fastforce
    then show ?thesis
      using le False by simp
  qed
qed

lemma le32_bytes:
  "le32 x = [of_nat (unat x mod 256), of_nat (unat x div 256 mod 256), of_nat (unat x div 256 div 256 mod 256),
     of_nat (unat x div 256 div 256 div 256 mod 256)]"
proof -
  have "(4 :: nat) = Suc (Suc (Suc (Suc 0)))"
    by simp
  then show ?thesis
    by (simp only: le32_def nat_le.simps)
qed

text \<open>Bytes in pieces of the given sizes, none empty, with what remains as the last piece.\<close>

fun chop :: "nat list \<Rightarrow> bytes \<Rightarrow> bytes list" where
  "chop [] data = (if data = [] then [] else [data])"
| "chop (n # ns) data = (if n = 0 \<or> length data \<le> n then chop ns data else take n data # chop ns (drop n data))"

lemma chop_pieces: "concat (chop ns data) = data" "[] \<notin> set (chop ns data)"
  by (induction ns data rule: chop.induct) auto

lemma write_all_pieces: "[] \<notin> set ps \<Longrightarrow> write_all (map (\<lambda>p. Sent (length p)) ps) (concat ps) = Some (0, concat ps)"
  by (induction ps) (auto simp: write_all.simps [of "_ # _"] write_all.simps [of "[]"])

lemma read_full_pieces: "[] \<notin> set ps \<Longrightarrow> read_full (map Recv ps @ rs) (length (concat ps)) = Some (0, concat ps, rs)"
proof (induction ps)
  case (Cons p ps)
  then have "p \<noteq> []" "length (concat (p # ps)) = length p + length (concat ps)"
    by auto
  then show ?case
    using Cons by (auto simp: read_full.simps [of "_ # _"])
qed (simp add: read_full.simps)

lemma read_response_pieces:
  assumes "length (encode r) \<le> k_max_msg" "[] \<notin> set hs" "[] \<notin> set bs" "concat hs = le32 (of_nat (length (encode r)))" "concat bs = encode r"
  shows "read_response (map Recv hs @ map Recv bs) = Some (int (length (encode r)), shown r)"
proof -
  let ?e = "encode r"
  have n: "unat (of_nat (length ?e) :: u32) = length ?e" "length ?e < 2 ^ 31"
    using assms(1) unat_of_nat_u32 [of "length ?e"] by (auto simp: k_max_msg_def)
  have "read_full (map Recv hs @ map Recv bs) 4 = Some (0, le32 (of_nat (length ?e)), map Recv bs)"
    using read_full_pieces [OF assms(2), of "map Recv bs"] assms(4) by simp
  moreover have "read_full (map Recv bs) (length ?e) = Some (0, ?e, [])"
    using read_full_pieces [OF assms(3), of "[]"] assms(5) by simp
  moreover have "print_response ?e = Some (int (length ?e), shown r)"
    using print_response_run [OF n(2), of "[]"] by simp
  ultimately show ?thesis
    using assms(1) n by (simp add: read_response_def fill_def Let_def)
qed

section \<open>Lengths that wrap, replies that are cut off\<close>

text \<open>A length field that is added to in 32 bits: the sum wraps for the largest ones.\<close>

lemma wrap_sum:
  fixes len :: u32
  assumes "0 < k" "k < 2 ^ 16"
  shows "unat (of_nat k + len) = (if 2 ^ 32 - k \<le> unat len then k + unat len - 2 ^ 32 else k + unat len)"
proof -
  have k: "unat (of_nat k :: u32) = k"
    using assms(2) by (intro unat_of_nat_u32) simp
  note l = unat_lt_u32 [of len]
  have "unat (of_nat k + len) = (k + unat len) mod 2 ^ 32"
    by (simp add: unat_word_ariths k)
  also have "\<dots> = (if 2 ^ 32 - k \<le> unat len then k + unat len - 2 ^ 32 else k + unat len)"
  proof (cases "2 ^ 32 - k \<le> unat len")
    case True
    then have "4294967296 \<le> k + unat len"
      by simp
    moreover have "k + unat len - 4294967296 < 4294967296"
    proof -
      have "k < 65536"
        using assms(2) by simp
      then show ?thesis
        using l by linarith
    qed
    ultimately show ?thesis
      using True by (simp add: le_mod_geq)
  next
    case False
    then show ?thesis
      using assms(2) by simp
  qed
  finally show ?thesis .
qed

lemma sint_high: "2 ^ 31 \<le> unat len \<Longrightarrow> sint (len :: u32) < 0"
proof -
  assume "2 ^ 31 \<le> unat len"
  then have "int (2 ^ 31) \<le> int (unat len)"
    by (simp only: of_nat_le_iff)
  then have "2 ^ 31 \<le> uint len"
    by simp
  then have "signed_take_bit 31 (uint len) \<le> uint len - 2 ^ Suc 31"
    by (rule signed_take_bit_int_less_eq)
  moreover have "sint len = signed_take_bit 31 (uint len)"
    by (subst sint_uint) simp
  moreover have "uint len < 2 ^ Suc 31"
    using uint_bounded [of len] by simp
  ultimately show ?thesis
    by linarith
qed

lemma sint_low: "unat len < 2 ^ 31 \<Longrightarrow> sint (len :: u32) = int (unat len)"
  using sint_small [of "unat len"] by simp

lemma wrap_check:
  fixes len :: u32
  assumes "0 < k" "k < 2 ^ 16" "n \<le> k_max_msg"
  shows "k + n < unat (of_nat k + len) \<longleftrightarrow> \<not> 2 ^ 32 - k \<le> unat len \<and> n < unat len"
    "2 ^ 32 - k \<le> unat len \<Longrightarrow> sint len < 0"
    "unat len \<le> n \<Longrightarrow> sint len = int (unat len) \<and> sint (of_nat k + len) = int (k + unat len)"
proof -
  have n: "k + n < 2 ^ 31"
    using assms by (simp add: k_max_msg_def)
  note l = unat_lt_u32 [of len]
  show "k + n < unat (of_nat k + len) \<longleftrightarrow> \<not> 2 ^ 32 - k \<le> unat len \<and> n < unat len"
    using wrap_sum [OF assms(1,2), of len] n l by (auto split: if_splits; linarith)
  show "2 ^ 32 - k \<le> unat len \<Longrightarrow> sint len < 0"
    using assms(2) by (intro sint_high) simp
  show "unat len \<le> n \<Longrightarrow> sint len = int (unat len) \<and> sint (of_nat k + len) = int (k + unat len)"
    using wrap_sum [OF assms(1,2), of len] n assms(2) sint_low [of len] sint_low [of "of_nat k + len"] by auto
qed

lemma fmt_str_any:
  assumes "n = length rest" "n \<le> k_max_msg" 
  shows "sint len < 0 \<Longrightarrow> fmt_str len rest = (if 0 \<in> set rest then Some (takeWhile (\<lambda>c. c \<noteq> 0) rest) else None)"
    "0 \<le> sint len \<Longrightarrow> unat len \<le> n \<Longrightarrow> fmt_str len rest = Some (takeWhile (\<lambda>c. c \<noteq> 0) (take (unat len) rest))"
  using assms by (simp_all add: fmt_str_def)

lemma print_str:
  assumes "length rest \<le> k_max_msg"
  shows "print_response (TAG_STR # le32 len @ rest) =
      (if 2 ^ 32 - 5 \<le> unat len then
         if 0 \<in> set rest then Some (sint (5 + len), [PStr (takeWhile (\<lambda>c. c \<noteq> 0) rest)]) else None
       else if length rest < unat len then Some (- 1, [])
       else Some (int (5 + unat len), [PStr (takeWhile (\<lambda>c. c \<noteq> 0) (take (unat len) rest))]))"
proof -
  note w = wrap_check [of 5, OF _ _ assms, of len, simplified]
  have "print_response (TAG_STR # le32 len @ rest) =
     (if 5 + length rest < unat (5 + len) then Some (- 1, [])
      else do { s \<leftarrow> fmt_str len rest; Some (sint (5 + len), [PStr s]) })"
    by (simp add: print_response.simps dec_after Let_def) (simp add: tag_defs)
  then show ?thesis
    using w fmt_str_any [OF refl assms, of len] by (auto simp: not_less)
qed

lemma print_err:
  assumes "length rest \<le> k_max_msg"
  shows "print_response (TAG_ERR # le32 code @ le32 len @ rest) =
      (if 2 ^ 32 - 9 \<le> unat len then
         if 0 \<in> set rest then Some (sint (9 + len), [PErr (sint code) (takeWhile (\<lambda>c. c \<noteq> 0) rest)]) else None
       else if length rest < unat len then Some (- 1, [])
       else Some (int (9 + unat len), [PErr (sint code) (takeWhile (\<lambda>c. c \<noteq> 0) (take (unat len) rest))]))"
proof -
  note w = wrap_check [of 9, OF _ _ assms, of len, simplified]
  have drop9: "drop 9 (TAG_ERR # le32 code @ le32 len @ rest) = rest"
    "rd32 (take 4 (le32 len @ rest)) = len"
    using c32.drop_field [of len rest] c32.drop_field c32.dec_prefix by (simp_all add: numeral_eq_Suc)
  have "print_response (TAG_ERR # le32 code @ le32 len @ rest) =
     (if 9 + length rest < unat (9 + len) then Some (- 1, [])
      else do { s \<leftarrow> fmt_str len rest; Some (sint (9 + len), [PErr (sint code) s]) })"
    by (simp add: print_response.simps dec_after drop9 Let_def) (simp add: tag_defs)
  then show ?thesis
    using w fmt_str_any [OF refl assms, of len] by (auto simp: not_less)
qed

lemma read_full_eof: "[] \<notin> set ps \<Longrightarrow> length (concat ps) < n \<Longrightarrow> read_full (map Recv ps @ Recv [] # rs) n = Some (0, concat ps, rs)"
proof (induction ps arbitrary: n)
  case (Cons p ps)
  then show ?case
    using Cons.IH [of "n - length p"] by (auto simp: read_full.simps [of "_ # _"])
qed (simp add: read_full.simps)

lemma read_response_eof:
  assumes "length data < n" "n \<le> k_max_msg" "print_response (data @ replicate (n - length data) 0) = Some (int n, out)"
  shows "read_response (map Recv (chop hs (le32 (of_nat n))) @ map Recv (chop bs data) @ [Recv []]) = Some (int n, out)"
proof -
  have u: "unat (of_nat n :: u32) = n"
    using assms(2) by (intro unat_of_nat_u32) (simp add: k_max_msg_def)
  have "read_full (map Recv (chop hs (le32 (of_nat n))) @ map Recv (chop bs data) @ [Recv []]) 4 =
      Some (0, le32 (of_nat n), map Recv (chop bs data) @ [Recv []])"
    using read_full_pieces [OF chop_pieces(2), of hs "le32 (of_nat n)"] by (simp add: chop_pieces(1))
  moreover have "read_full (map Recv (chop bs data) @ [Recv []]) n = Some (0, data, [])"
    using read_full_eof [OF chop_pieces(2), of bs data n "[]"] assms(1) by (simp add: chop_pieces(1))
  ultimately show ?thesis
    using assms u by (simp add: read_response_def fill_def Let_def)
qed

lemma cut_off: "k < length s \<Longrightarrow> takeWhile (\<lambda>c. c \<noteq> 0) (take k s @ replicate (length s - k) (0 :: u8)) = takeWhile (\<lambda>c. c \<noteq> 0) (take k s)"
proof -
  have "takeWhile (\<lambda>c. c \<noteq> 0) (t @ 0 # u) = takeWhile (\<lambda>c. c \<noteq> 0) t" for t u :: bytes
    by (induction t) auto
  moreover assume "k < length s"
  then have "replicate (length s - k) (0 :: u8) = 0 # replicate (length s - k - 1) 0"
    by (cases "length s - k") auto
  ultimately show ?thesis
    by simp
qed

section \<open>Cutting a line\<close>

lemma str_find_run: "c \<notin> set s \<Longrightarrow> str_find c (pre @ s @ c # rest) (length pre) = length pre + length s"
proof -
  assume "c \<notin> set s"
  then have "takeWhile (\<lambda>x. x \<noteq> c) (s @ c # rest) = s"
    by (induction s) auto
  then show ?thesis
    by (simp add: str_find_def Let_def)
qed

lemma tokenize_stuck:
  "tokenize input pos cmd = Some res \<Longrightarrow>
    \<not> (pos < length input \<and> input ! pos = 34 \<and> str_find 34 input (pos + 1) = npos)"
proof (rule tokenize.raw_induct [where P = "\<lambda>input pos cmd res. \<not> (pos < length input \<and> input ! pos = 34 \<and> str_find 34 input (pos + 1) = npos)"])
  fix f :: "bytes \<Rightarrow> nat \<Rightarrow> bytes list \<Rightarrow> bytes list option" and input pos cmd res
  let ?stuck = "\<lambda>input pos. pos < length input \<and> input ! pos = 34 \<and> str_find 34 input (pos + 1) = npos"
  assume IH: "\<And>input pos cmd res. f input pos cmd = Some res \<Longrightarrow> \<not> ?stuck input pos"
    and run: "(if pos < length input then
        if input ! pos = 32 then f input (pos + 1) cmd
        else if input ! pos = 34 then
          (let e = str_find 34 input (pos + 1) in
           if e = npos then f input pos cmd
           else substr input (pos + 1) (e - pos - 1) \<bind> (\<lambda>s. f input (e + 1) (cmd @ [s])))
        else (let e = str_find 32 input pos in substr input pos (e - pos) \<bind> (\<lambda>s. f input e (cmd @ [s])))
      else Some cmd) = Some res"
  show "\<not> ?stuck input pos"
  proof
    assume "?stuck input pos"
    then show False
      using run IH [of input pos cmd res] by (simp add: Let_def)
  qed
qed

text \<open>
  What a line means: spaces separate, a quote begins an argument that ends at the next quote, and any
  other character begins one that ends before the next space. A line with a quote left open means nothing.
\<close>

function words :: "bytes \<Rightarrow> bytes list option" where
  "words [] = Some []"
| "words (c # s) =
     (if c = 32 then words s
      else if c = 34 then
        if 34 \<in> set s then do {
          ws \<leftarrow> words (tl (dropWhile (\<lambda>x. x \<noteq> 34) s));
          Some (takeWhile (\<lambda>x. x \<noteq> 34) s # ws)
        } else None
      else do {
        ws \<leftarrow> words (dropWhile (\<lambda>x. x \<noteq> 32) s);
        Some ((c # takeWhile (\<lambda>x. x \<noteq> 32) s) # ws)
      })"
  by pat_completeness auto
termination
  by (relation "measure length") (auto simp: less_Suc_eq_le length_dropWhile_le intro: le_trans [OF diff_le_self])

lemma str_find_none: "c \<notin> set (drop pos s) \<Longrightarrow> str_find c s pos = npos"
proof -
  have t: "c \<notin> set t \<Longrightarrow> takeWhile (\<lambda>x. x \<noteq> c) t = t" for t
    by (induction t) auto
  assume "c \<notin> set (drop pos s)"
  show ?thesis
    unfolding str_find_def t [OF \<open>c \<notin> set (drop pos s)\<close>] by (cases "pos < length s") (simp_all add: Let_def)
qed

lemma split_at: "c \<in> set s \<Longrightarrow> s = takeWhile (\<lambda>x. x \<noteq> c) s @ c # tl (dropWhile (\<lambda>x. x \<noteq> c) s)"
  by (induction s) auto

text \<open>The loop computes the meaning of every line; on a quote left open it does not return. A \<open>std::string\<close> is shorter than \<open>npos\<close>.\<close>

lemma tokenize_words:
  "length (pre @ s) < npos \<Longrightarrow> tokenize (pre @ s) (length pre) cmd = map_option (\<lambda>ws. cmd @ ws) (words s)"
proof (induction s arbitrary: pre cmd rule: words.induct)
  case 1
  then show ?case
    by (simp add: tokenize.simps)
next
  case (2 c s)
  let ?line = "pre @ c # s"
  show ?case
  proof (cases "c = 32")
    case True
    then show ?thesis
      using "2.IH"(1) [of "pre @ [c]" cmd] "2.prems" by (subst tokenize.simps) (simp add: nth_append)
  next
    case space: False
    show ?thesis
    proof (cases "c = 34")
      case True
      show ?thesis
      proof (cases "34 \<in> set s")
        case False
        then have "str_find 34 ?line (length pre + 1) = npos"
          by (intro str_find_none) simp
        then show ?thesis
          using tokenize_stuck [of ?line "length pre" cmd] True False by fastforce
      next
        case closed: True
        let ?w = "takeWhile (\<lambda>x. x \<noteq> 34) s" and ?r = "tl (dropWhile (\<lambda>x. x \<noteq> 34) s)"
        have s: "s = ?w @ 34 # ?r"
          by (rule split_at [OF closed])
        have w: "34 \<notin> set ?w"
          by (auto dest: set_takeWhileD)
        have line: "?line = (pre @ [34]) @ ?w @ 34 # ?r"
          using s True by simp
        have f: "str_find 34 ?line (length pre + 1) = length pre + 1 + length ?w"
          using str_find_run [OF w, of "pre @ [34]" ?r] unfolding line by simp
        have len: "length s = Suc (length ?w + length ?r)"
          using arg_cong [OF s, of length] by simp
        have sub: "substr ?line (length pre + 1) (length ?w) = Some ?w"
          using arg_cong [OF s, of "take (length ?w)"] by (simp add: substr_def)
        have "tokenize ?line (length pre) cmd = tokenize ?line (length pre + 1 + length ?w + 1) (cmd @ [?w])"
          using f sub "2.prems" len True by (subst tokenize.simps) (simp add: nth_append Let_def)
        also have "\<dots> = map_option (\<lambda>ws. (cmd @ [?w]) @ ws) (words ?r)"
          using "2.IH"(2) [OF space True closed, of "pre @ 34 # ?w @ [34]" "cmd @ [?w]"] "2.prems" len s True by simp
        finally show ?thesis
          using True closed by (cases "words ?r") simp_all
      qed
    next
      case quote: False
      let ?w = "takeWhile (\<lambda>x. x \<noteq> 32) s" and ?r = "dropWhile (\<lambda>x. x \<noteq> 32) s"
      have s: "s = ?w @ ?r"
        by simp
      have step: "tokenize ?line (length pre) cmd =
          (let e = str_find 32 ?line (length pre) in do { w \<leftarrow> substr ?line (length pre) (e - length pre); tokenize ?line e (cmd @ [w]) })"
        using space quote by (subst tokenize.simps) (simp add: nth_append)
      show ?thesis
      proof (cases "32 \<in> set s")
        case True
        have "?r = 32 # tl ?r"
          using split_at [OF True] by (metis append_eq_append_conv takeWhile_dropWhile_id)
        then have line: "?line = pre @ (c # ?w) @ 32 # tl ?r"
          using s by (metis append_Cons)
        have w: "32 \<notin> set (c # ?w)"
          using space by (auto dest: set_takeWhileD)
        have f: "str_find 32 ?line (length pre) = length pre + length (c # ?w)"
          using str_find_run [OF w, of pre "tl ?r"] unfolding line by simp
        have sub: "substr ?line (length pre) (length (c # ?w)) = Some (c # ?w)"
          by (simp add: substr_def takeWhile_eq_take [symmetric])
        have "tokenize ?line (length pre) cmd = tokenize ?line (length pre + length (c # ?w)) (cmd @ [c # ?w])"
          using step f sub by (simp add: Let_def)
        also have "\<dots> = map_option (\<lambda>ws. (cmd @ [c # ?w]) @ ws) (words ?r)"
          using "2.IH"(3) [OF space quote, of "pre @ c # ?w" "cmd @ [c # ?w]"] "2.prems" by simp
        finally show ?thesis
          using space quote by (cases "words ?r") simp_all
      next
        case False
        then have w: "?w = s" "?r = []"
          by auto
        have "str_find 32 ?line (length pre) = npos"
          using False space by (intro str_find_none) simp
        moreover have "substr ?line (length pre) (npos - length pre) = Some (c # s)"
          using "2.prems" by (simp add: substr_def)
        ultimately have "tokenize ?line (length pre) cmd = tokenize ?line npos (cmd @ [c # s])"
          using step by (simp add: Let_def)
        then show ?thesis
          unfolding words.simps if_not_P [OF space] if_not_P [OF quote] w using "2.prems" by (simp add: tokenize.simps [of ?line npos])
      qed
    qed
  qed
qed

section \<open>Properties\<close>

text \<open>C17: When \<open>send_request\<close> succeeds, what went out is one frame whose length word counts its body, and
  the server's \<open>parse_req\<close> reads the arguments back from that body; and it succeeds in whatever pieces
  \<open>write\<close> takes the frame.\<close>

theorem request_roundtrip:
  assumes "length (req_body cmd) \<le> k_max_msg" "length cmd \<le> k_max_args"
  shows "(send_request ws cmd = Some (0, out) \<longrightarrow> unat (rd32 (take 4 out)) = length (drop 4 out) \<and> parse_req (drop 4 out) = Some cmd)
    \<and> send_request (map (\<lambda>p. Sent (length p)) (chop ns (frame (req_body cmd)))) cmd = Some (0, frame (req_body cmd))"
proof
  let ?f = "frame (req_body cmd)"
  show "send_request (map (\<lambda>p. Sent (length p)) (chop ns ?f)) cmd = Some (0, ?f)"
    using write_all_pieces [OF chop_pieces(2), of ns ?f] by (simp add: send_request_run [OF assms(1)] chop_pieces(1))
  show "send_request ws cmd = Some (0, out) \<longrightarrow> unat (rd32 (take 4 out)) = length (drop 4 out) \<and> parse_req (drop 4 out) = Some cmd"
  proof
    assume "send_request ws cmd = Some (0, out)"
    then have out: "out = ?f"
      using write_all_prefix [of ws ?f 0 out] by (simp add: send_request_run [OF assms(1)])
    have "unat (of_nat (length (req_body cmd)) :: u32) = length (req_body cmd)"
      using assms(1) by (intro unat_of_nat_u32) (simp add: k_max_msg_def)
    moreover have "parse_req (req_body cmd) = Some cmd"
      by (rule parse_req_sent [OF assms])
    ultimately show "unat (rd32 (take 4 out)) = length (drop 4 out) \<and> parse_req (drop 4 out) = Some cmd"
      unfolding out frame_def c32.dec_prefix c32.drop_field by simp
  qed
qed

lemma request_roundtrip_witness:
  "send_request [Sent 5, Sent 15] [[103, 101, 116], [107]] = Some (0, frame (req_body [[103, 101, 116], [107]]))
   \<and> length (frame (req_body [[103, 101, 116], [107]])) = 20"
  using request_roundtrip [of "[[103, 101, 116], [107]]" _ _ "[5]"]
  by (simp add: frame_def req_body_def field_def k_max_msg_def k_max_args_def)

text \<open>C25: Whatever well-formed reply of at most 32 MB the server frames, and in whatever pieces its header and its
  body arrive, \<open>read_response\<close> prints exactly that reply (strings up to their first NUL) and returns its length.\<close>

theorem reply_printed:
  assumes "length (encode r) \<le> k_max_msg"
  shows "read_response (map Recv (chop hs (le32 (of_nat (length (encode r))))) @ map Recv (chop bs (encode r))) =
    Some (int (length (encode r)), shown r)"
  by (rule read_response_pieces [OF assms]) (simp_all add: chop_pieces)

lemma reply_printed_witness:
  "read_response [Recv [12], Recv [0, 0, 0], Recv (encode (RArr [RStr [97], RNil]))] = Some (12, [PArr 2, PStr [97], PNil, PEnd])"
proof -
  have "le32 12 = [12, 0, 0, 0]"
    by (simp add: le32_bytes)
  then show ?thesis
    using reply_printed [of "RArr [RStr [97], RNil]" "[1]" "[]"] by (simp add: k_max_msg_def field_def)
qed

text \<open>Whatever the bytes received, the length that \<open>print_response\<close> returns is never more than the size of the data
  it was given, so the loop over the items of an array does not run past the reply by its own count.\<close>

lemma print_response_bound:
  assumes "print_response data = Some (rv, out)" "length data \<le> k_max_msg"
  shows "rv \<le> int (length data)"
  using print_consumes(1) [OF assms(1)] assms(2) by (simp add: k_max_msg_def)

lemma print_response_bound_witness: "print_response [2, 1, 0, 0, 0, 97] = Some (6, [PStr [97]]) \<and> (6 :: int) \<le> int (length [2, 1, 0, 0, 0, 97 :: u8])"
proof -
  have "print_response [2, 1, 0, 0, 0, 97] = Some (6, [PStr [97]])"
    by (subst print_response.simps) (simp add: tag_defs rd32_def fmt_str_def Let_def)
  then show ?thesis
    using print_response_bound [of "[2, 1, 0, 0, 0, 97]" 6 "[PStr [97]]"] by (simp add: k_max_msg_def)
qed

text \<open>C38: The check of the length field of a string or an error is computed in 32 bits. For data of at most 32 MB (the most that
  \<open>read_response\<close> takes) and a length that is \<open>2 ^ 32 - 5\<close> or more
  (\<open>2 ^ 32 - 9\<close> for an error) the sum wraps, the check passes whatever follows, and the text is read up to its first NUL:
  when the data has none, past the end of the buffer. For every smaller length the check is exact: the text is
  refused when it is not all there, and printed from inside the buffer when it is.\<close>

theorem print_response_overreads:
  assumes "length rest \<le> k_max_msg"
  shows "print_response (TAG_STR # le32 len @ rest) =
      (if 2 ^ 32 - 5 \<le> unat len then
         if 0 \<in> set rest then Some (sint (5 + len), [PStr (takeWhile (\<lambda>c. c \<noteq> 0) rest)]) else None
       else if length rest < unat len then Some (- 1, [])
       else Some (int (5 + unat len), [PStr (takeWhile (\<lambda>c. c \<noteq> 0) (take (unat len) rest))]))
    \<and> print_response (TAG_ERR # le32 code @ le32 len @ rest) =
      (if 2 ^ 32 - 9 \<le> unat len then
         if 0 \<in> set rest then Some (sint (9 + len), [PErr (sint code) (takeWhile (\<lambda>c. c \<noteq> 0) rest)]) else None
       else if length rest < unat len then Some (- 1, [])
       else Some (int (9 + unat len), [PErr (sint code) (takeWhile (\<lambda>c. c \<noteq> 0) (take (unat len) rest))]))"
  using print_str [OF assms] print_err [OF assms] by blast

lemma print_response_overreads_witness:
  "print_response (TAG_STR # le32 4294967291 @ []) = None \<and> print_response (TAG_ERR # le32 1 @ le32 4294967290 @ [97, 98]) = None
    \<and> print_response (TAG_STR # le32 2 @ [97, 98]) = Some (7, [PStr [97, 98]])"
  using print_response_overreads [of "[]" 4294967291] print_response_overreads [of "[97, 98]" 4294967290 1]
    print_response_overreads [of "[97, 98]" 2]
  by (simp add: k_max_msg_def)

text \<open>C39: \<open>read_full\<close> reports success at the end of the stream, and the missing bytes are zeros. So every string reply of at most 32 MB that is cut off
  anywhere inside its text is accepted, with the return value of the complete reply, and what did arrive is printed
  as if it were all; and every integer cut off inside its eight bytes is accepted and printed with zeros for the rest.\<close>

theorem truncated_reply_accepted:
  assumes "length (encode (RStr s)) \<le> k_max_msg" "k < length s" "j < 8"
  shows "read_response (map Recv (chop hs (le32 (of_nat (length (encode (RStr s)))))) @ map Recv (chop bs (take (5 + k) (encode (RStr s)))) @ [Recv []])
      = Some (int (length (encode (RStr s))), [PStr (takeWhile (\<lambda>c. c \<noteq> 0) (take k s))])
    \<and> read_response (map Recv (chop hs (le32 9)) @ map Recv (chop bs (take (1 + j) (encode (RInt x)))) @ [Recv []])
      = Some (9, [PInt (rd64 (take j (le64 x) @ replicate (8 - j) 0))])"
proof
  let ?e = "encode (RStr s)"
  have len: "length s \<le> k_max_msg" "length s < 2 ^ 32" "unat (of_nat (length s) :: u32) = length s"
    using assms(1) unat_of_nat_u32 [of "length s"] by (simp_all add: field_def k_max_msg_def)
  let ?t = "take k s @ replicate (length s - k) 0"
  have t: "length ?t = length s" "takeWhile (\<lambda>c. c \<noteq> 0) ?t = takeWhile (\<lambda>c. c \<noteq> 0) (take k s)"
    using assms(2) by (simp_all add: cut_off)
  have "print_response (TAG_STR # le32 (of_nat (length s)) @ ?t) = Some (int (5 + length s), [PStr (takeWhile (\<lambda>c. c \<noteq> 0) (take k s))])"
    using print_str [of ?t "of_nat (length s)"] t len assms(2) by (simp add: k_max_msg_def min_absorb2)
  moreover have "take (5 + k) ?e @ replicate (length ?e - length (take (5 + k) ?e)) 0 = TAG_STR # le32 (of_nat (length s)) @ ?t"
    using assms(2) by (simp add: field_def numeral_eq_Suc)
  ultimately show "read_response (map Recv (chop hs (le32 (of_nat (length ?e)))) @ map Recv (chop bs (take (5 + k) ?e)) @ [Recv []])
      = Some (int (length ?e), [PStr (takeWhile (\<lambda>c. c \<noteq> 0) (take k s))])"
    using read_response_eof [where n = "length ?e" and data = "take (5 + k) ?e" and hs = hs and bs = bs] assms(1,2) by (simp add: field_def)
next
  have "print_response (TAG_INT # take j (le64 x) @ replicate (8 - j) 0) = Some (9, [PInt (rd64 (take j (le64 x) @ replicate (8 - j) 0))])"
    using assms(3) by (simp add: print_response.simps tag_defs Let_def)
  then show "read_response (map Recv (chop hs (le32 9)) @ map Recv (chop bs (take (1 + j) (encode (RInt x)))) @ [Recv []])
      = Some (9, [PInt (rd64 (take j (le64 x) @ replicate (8 - j) 0))])"
    using read_response_eof [where n = 9 and data = "take (1 + j) (encode (RInt x))" and hs = hs and bs = bs] assms(3) by (simp add: k_max_msg_def)
qed

lemma truncated_reply_accepted_witness:
  "read_response [Recv (le32 8), Recv (take 6 (encode (RStr [97, 98, 99]))), Recv []] = Some (8, [PStr [97]])"
  using truncated_reply_accepted [of "[97, 98, 99]" 1 0 "[]" "[]"] by (simp add: k_max_msg_def field_def)

text \<open>C40: A quote that is never closed makes the loop over the line run forever: the error branch does not advance.\<close>

theorem tokenize_unmatched_quote_loops:
  assumes "34 \<notin> set rest"
  shows "tokenize (pre @ 34 # rest) (length pre) cmd = None"
proof -
  have "str_find 34 (pre @ 34 # rest) (length pre + 1) = npos"
  proof -
    have "length (takeWhile (\<lambda>x. x \<noteq> 34) rest) = length rest"
      using assms by (induction rest) auto
    then show ?thesis
      by (simp add: str_find_def Let_def)
  qed
  then show ?thesis
    using tokenize_stuck [of "pre @ 34 # rest" "length pre" cmd] by fastforce
qed

lemma tokenize_unmatched_quote_loops_witness: "tokenize [34, 97] 0 [] = None"
  using tokenize_unmatched_quote_loops [of "[97]" "[]" "[]"] by simp

end
