(* ===== verification/Process.thy ===== *)
theory Process
  imports EventLoop Client "HOL-Library.State_Monad" "HOL-Library.Signed_Division"
begin

text \<open>
  The two processes around the loops: the clock, the start of the server up to its event loop, and
  \<open>main\<close> of the client. The system is a function \<open>os\<close> from calls to their results; a process threads
  the list of the calls it made, and \<open>die\<close> ends it. Messages to the terminal other than the replies of
  the client are not modelled.
\<close>

section \<open>Time\<close>

text \<open>\<open>tv_sec\<close> and \<open>tv_nsec\<close> of the \<open>timespec\<close>; the quotients are those of C.\<close>

definition get_monotonic_msec :: "u64 \<Rightarrow> int \<Rightarrow> u64" where
  "get_monotonic_msec tv_sec tv_nsec = tv_sec * 1000 + of_int ((tv_nsec sdiv 1000) sdiv 1000)"

section \<open>Calls of the system\<close>

type_synonym u16 = "16 word"

text \<open>A socket address is the port and the address in network order.\<close>

datatype call =
    Socket
  | Setsockopt int
  | Bind int u16 u32
  | GetFlags int
  | SetFlags int u32
  | Listen int
  | InetPton
  | ConnectTo int u16 u32
  | Getsockname int
  | Getpeername int

datatype 'a outcome = Died string | Went 'a

type_synonym 'a proc = "(call list, 'a outcome) state"

definition sys :: "(call \<Rightarrow> int) \<Rightarrow> call \<Rightarrow> int proc" where
  "sys os c = State (\<lambda>trace. (Went (os c), trace @ [c]))"

definition die :: "string \<Rightarrow> 'a proc" where
  "die msg = State_Monad.return (Died msg)"

definition went :: "'a \<Rightarrow> 'a proc" where
  "went x = State_Monad.return (Went x)"

definition andthen :: "'a proc \<Rightarrow> ('a \<Rightarrow> 'b proc) \<Rightarrow> 'b proc" where
  "andthen p f = do { r \<leftarrow> p; (case r of Died msg \<Rightarrow> State_Monad.return (Died msg) | Went x \<Rightarrow> f x) }"

lemma run_state_andthen:
  "run_state (andthen p f) trace =
     (case run_state p trace of (Died msg, trace) \<Rightarrow> (Died msg, trace) | (Went x, trace) \<Rightarrow> run_state (f x) trace)"
  by (auto simp: andthen_def split: prod.split outcome.split)

lemma proc_simps [run_simps]:
  "run_state (sys os c) trace = (Went (os c), trace @ [c])"
  "run_state (die msg) trace = (Died msg, trace)"
  "run_state (went x) trace = (Went x, trace)"
  by (auto simp: sys_def die_def went_def)

declare run_state_andthen [run_simps]

section \<open>The start of the server\<close>

definition O_NONBLOCK :: u32 where
  "O_NONBLOCK = 2048"

definition PORT :: u16 where
  "PORT = 8080"

definition htons :: "u16 \<Rightarrow> u16" where
  "htons x = push_bit 8 x OR drop_bit 8 x"

text \<open>The int \<open>flags\<close> is passed to the second \<open>fcntl\<close> as 32 bits.\<close>

definition fd_set_nb :: "(call \<Rightarrow> int) \<Rightarrow> int \<Rightarrow> unit proc" where
  "fd_set_nb os fd =
     andthen (sys os (GetFlags fd)) (\<lambda>flags.
       if flags < 0 then die ''fcntl(F_GETFL) failed''
       else andthen (sys os (SetFlags fd (of_int flags OR O_NONBLOCK))) (\<lambda>rv.
         if rv < 0 then die ''fcntl(F_SETFL) failed'' else went ()))"

text \<open>\<open>main\<close> up to the loop; \<open>INADDR_ANY\<close> is 0.\<close>

definition server_socket :: "(call \<Rightarrow> int) \<Rightarrow> int proc" where
  "server_socket os =
     andthen (sys os Socket) (\<lambda>fd.
       if fd < 0 then die ''socket() failed''
       else andthen (sys os (Setsockopt fd)) (\<lambda>_.
         andthen (sys os (Bind fd (htons PORT) 0)) (\<lambda>rv.
           if rv < 0 then die ''bind() failed''
           else andthen (fd_set_nb os fd) (\<lambda>_.
             andthen (sys os (Listen fd)) (\<lambda>rv.
               if rv < 0 then die ''listen() failed'' else went fd)))))"

definition server_start :: "(call \<Rightarrow> int) \<Rightarrow> ((int \<times> server \<times> addr pool) outcome \<times> call list) option" where
  "server_start os = do {
     sv \<leftarrow> server0;
     pool \<leftarrow> thread_pool_init 4;
     Some (run_state (andthen (server_socket os) (\<lambda>fd. went (fd, sv, pool))) [])
   }"

section \<open>The client\<close>

definition localhost :: u32 where
  "localhost = 0x0100007f"

text \<open>The socket is bound to a port of the system's choice; the last two calls are for the debug output.\<close>

definition client_socket :: "(call \<Rightarrow> int) \<Rightarrow> int proc" where
  "client_socket os =
     andthen (sys os Socket) (\<lambda>client_fd.
       if client_fd < 0 then die ''socket failed''
       else andthen (sys os (Bind client_fd (htons 0) localhost)) (\<lambda>rv.
         if rv < 0 then die ''bind failed''
         else andthen (sys os InetPton) (\<lambda>rv.
           if rv \<le> 0 then die ''Invalid address/ Address not supported''
           else andthen (sys os (ConnectTo client_fd (htons PORT) localhost)) (\<lambda>rv.
             if rv < 0 then die ''connect failed''
             else andthen (sys os (Getsockname client_fd)) (\<lambda>_.
               andthen (sys os (Getpeername client_fd)) (\<lambda>_. went client_fd))))))"

text \<open>
  The interactive loop: every line of the input comes with the answers that \<open>write\<close> and \<open>read\<close> give to
  its query. The result is what was sent and what was printed for each line, and whether the loop was
  left by \<open>quit\<close> rather than by the end of the input.
\<close>

fun client_loop :: "(bytes \<times> sock_write list \<times> sock_read list) list \<Rightarrow> (bytes list \<times> printed list list \<times> bool) option" where
  "client_loop [] = Some ([], [], False)"
| "client_loop ((input, ws, rs) # lines) = do {
     cmd \<leftarrow> tokenize input 0 [];
     (rv, sent, out) \<leftarrow> query ws rs cmd;
     (case rv of
        Exited \<Rightarrow> Some ([sent], [out], True)
      | Returned _ \<Rightarrow> do {
          (sents, outs, quit) \<leftarrow> client_loop lines;
          Some (sent # sents, out # outs, quit)
        })
   }"

text \<open>With arguments the client sends them as one command.\<close>

definition client_main ::
  "(call \<Rightarrow> int) \<Rightarrow> bytes list \<Rightarrow> sock_write list \<Rightarrow> sock_read list \<Rightarrow> (bytes \<times> sock_write list \<times> sock_read list) list \<Rightarrow>
    (bytes list \<times> printed list list \<times> bool) outcome option" where
  "client_main os args ws rs lines =
     (case fst (run_state (client_socket os) []) of
        Died msg \<Rightarrow> Some (Died msg)
      | Went client_fd \<Rightarrow>
          if args \<noteq> [] then do {
            (rv, sent, out) \<leftarrow> query ws rs args;
            Some (Went ([sent], [out], rv = Exited))
          } else do {
            r \<leftarrow> client_loop lines;
            Some (Went r)
          })"

section \<open>Properties\<close>

text \<open>The calls of the start, in order, and the message of the ones that are checked.\<close>

definition start_calls :: "(call \<Rightarrow> int) \<Rightarrow> call list" where
  "start_calls os =
     (let fd = os Socket in
      [Socket, Setsockopt fd, Bind fd (htons PORT) 0, GetFlags fd, SetFlags fd (of_int (os (GetFlags fd)) OR O_NONBLOCK), Listen fd])"

fun start_error :: "call \<Rightarrow> string option" where
  "start_error Socket = Some ''socket() failed''"
| "start_error (Bind fd port ip) = Some ''bind() failed''"
| "start_error (GetFlags fd) = Some ''fcntl(F_GETFL) failed''"
| "start_error (SetFlags fd flags) = Some ''fcntl(F_SETFL) failed''"
| "start_error (Listen fd) = Some ''listen() failed''"
| "start_error c = None"

lemma server_socket_run:
  "run_state (server_socket os) [] =
    (case find (\<lambda>c. start_error c \<noteq> None \<and> os c < 0) (start_calls os) of
       None \<Rightarrow> (Went (os Socket), start_calls os)
     | Some c \<Rightarrow> (Died (the (start_error c)), takeWhile (\<lambda>d. d \<noteq> c) (start_calls os) @ [c]))"
  by (simp add: server_socket_def fd_set_nb_def start_calls_def Let_def run_simps)

lemma server_start_run:
  "\<exists>sv pool. server0 = Some sv \<and> thread_pool_init 4 = Some pool \<and> server_start os =
    Some (case find (\<lambda>c. start_error c \<noteq> None \<and> os c < 0) (start_calls os) of
            None \<Rightarrow> (Went (os Socket, sv, pool), start_calls os)
          | Some c \<Rightarrow> (Died (the (start_error c)), takeWhile (\<lambda>d. d \<noteq> c) (start_calls os) @ [c]))"
proof -
  obtain sv where sv: "server0 = Some sv"
    by (auto simp: server0_def dlist_init_def d_simps idle_list_def)
  obtain pool :: "addr pool" where pool: "thread_pool_init 4 = Some pool"
    by (auto simp: thread_pool_init_def)
  have "server_start os = Some (run_state (andthen (server_socket os) (\<lambda>fd. went (fd, sv, pool))) [])"
    unfolding server_start_def sv pool by simp
  then have "server_start os =
    Some (case find (\<lambda>c. start_error c \<noteq> None \<and> os c < 0) (start_calls os) of
            None \<Rightarrow> (Went (os Socket, sv, pool), start_calls os)
          | Some c \<Rightarrow> (Died (the (start_error c)), takeWhile (\<lambda>d. d \<noteq> c) (start_calls os) @ [c]))"
    by (cases "find (\<lambda>c. start_error c \<noteq> None \<and> os c < 0) (start_calls os)")
      (simp_all only: run_state_andthen server_socket_run option.case outcome.case prod.case proc_simps)
  then show ?thesis
    using sv pool by blast
qed

text \<open>C36: The start of the server either makes its six calls in order and reaches the event loop with the descriptor of the
  socket, an empty server and four idle workers, or it dies at the first failing one of the five checked calls with
  the message of that call and makes no further one. The socket is made non-blocking before it listens.\<close>

theorem server_start_exact:
  "\<exists>sv pool. server0 = Some sv \<and> thread_pool_init 4 = Some pool \<and> server_start os =
    Some (case find (\<lambda>c. start_error c \<noteq> None \<and> os c < 0) (start_calls os) of
            None \<Rightarrow> (Went (os Socket, sv, pool), start_calls os)
          | Some c \<Rightarrow> (Died (the (start_error c)), takeWhile (\<lambda>d. d \<noteq> c) (start_calls os) @ [c]))"
  by (rule server_start_run)

lemma msec_value:
  assumes "unat s < 2 ^ 54" "0 \<le> n" "n < 10 ^ 9"
  shows "uint (get_monotonic_msec s n) = uint s * 1000 + n div 1000000"
proof -
  have c: "a sdiv 1000 = a div 1000" if "0 \<le> a" for a :: int
    using that by (cases "a = 0") (simp_all add: signed_divide_int_def)
  have d: "(n sdiv 1000) sdiv 1000 = n div 1000000"
    using zdiv_zmult2_eq [of 1000 n 1000] assms(2) c [of n] c [of "n div 1000"] by simp
  have s: "uint s < 2 ^ 54"
  proof -
    have "int (unat s) < int (2 ^ 54)"
      using assms(1) by (simp only: of_nat_less_iff)
    then show ?thesis
      by simp
  qed
  have q: "0 \<le> n div 1000000" "n div 1000000 < 1000"
    using assms(2,3) by auto
  have "get_monotonic_msec s n = word_of_int (uint s * 1000 + n div 1000000)"
    by (simp add: get_monotonic_msec_def d)
  moreover have "uint (word_of_int (uint s * 1000 + n div 1000000) :: u64) = uint s * 1000 + n div 1000000"
    unfolding uint_word_of_int using s q by (intro mod_pos_pos_trivial) auto
  ultimately show ?thesis
    by simp
qed

text \<open>C37: The clock is exact and never runs backwards: for times below \<open>2 ^ 54\<close> seconds \<open>get_monotonic_msec\<close> is the number of
  whole milliseconds, without a wrap-around, and a later time never gives a smaller number.\<close>

theorem msec_exact:
  assumes "unat s1 < 2 ^ 54" "unat s2 < 2 ^ 54" "0 \<le> n1" "n1 < 10 ^ 9" "0 \<le> n2" "n2 < 10 ^ 9"
    and "s1 < s2 \<or> s1 = s2 \<and> n1 \<le> n2"
  shows "uint (get_monotonic_msec s1 n1) = uint s1 * 1000 + n1 div 1000000 \<and> get_monotonic_msec s1 n1 \<le> get_monotonic_msec s2 n2"
proof -
  have "uint s1 * 1000 + n1 div 1000000 \<le> uint s2 * 1000 + n2 div 1000000"
    using assms(7)
  proof
    assume "s1 < s2"
    then have "uint s1 + 1 \<le> uint s2"
      by (simp add: word_less_def)
    moreover have "n1 div 1000000 < 1000" "0 \<le> n2 div 1000000"
      using assms(4,5) by auto
    ultimately show ?thesis
      by linarith
  qed (simp add: zdiv_mono1)
  then show ?thesis
    using msec_value [OF assms(1,3,4)] msec_value [OF assms(2,5,6)] by (simp add: word_le_def)
qed

theorem msec_exact_witness:
  "uint (get_monotonic_msec 5 999999999) = 5 * 1000 + 999999999 div 1000000 \<and>
    get_monotonic_msec 5 999999999 \<le> get_monotonic_msec 6 0"
  using msec_exact [of 5 6 999999999 0] by simp

end
