(* ===== verification/ZsetProps.thy ===== *)
theory ZsetProps
  imports ZsetOk
begin

text \<open>
  What the sorted set of zset.cpp promises, as theorems on whole histories: a sequence of
  insertions and removals computes the finite map from names to scores, the order queries read
  off the nodes sorted by (score, name), clearing frees exactly the nodes of the set, and
  removing the last member leaves \<open>zset->root\<close> pointing to a freed node.
\<close>

section \<open>Histories\<close>

text \<open>
  The two calls that change a set in server.cpp: ZADD is \<open>zset_insert\<close>, ZREM is \<open>zset_lookup\<close>
  followed by \<open>zset_delete\<close> of the node found.
\<close>

datatype zop = ZAdd bytes u64 | ZRem bytes

definition zset_remove :: "zmem \<Rightarrow> zset \<Rightarrow> bytes \<Rightarrow> (zmem \<times> zset \<times> bool) option" where
  "zset_remove m zs name = do {
     (zs, znode) \<leftarrow> zset_lookup m zs name;
     (m, zs) \<leftarrow> (if znode \<noteq> None then zset_delete m zs znode else Some (m, zs));
     Some (m, zs, znode \<noteq> None)
   }"

fun zset_run :: "zop list \<Rightarrow> zmem \<Rightarrow> zset \<Rightarrow> (zmem \<times> zset) option" where
  "zset_run [] m zs = Some (m, zs)"
| "zset_run (ZAdd name s # ops) m zs = do {
     (m, zs, added) \<leftarrow> zset_insert m zs name s;
     zset_run ops m zs
   }"
| "zset_run (ZRem name # ops) m zs = do {
     (m, zs, found) \<leftarrow> zset_remove m zs name;
     zset_run ops m zs
   }"

text \<open>The abstract set: a finite map from names to scores. An equal score leaves the old bits (of \<open>-0.0\<close> and \<open>0.0\<close>).\<close>

definition score_after :: "u64 option \<Rightarrow> u64 \<Rightarrow> u64" where
  "score_after old s = (case old of Some s0 \<Rightarrow> if dbl_eq s0 s then s0 else s | None \<Rightarrow> s)"

fun zop_spec :: "zop \<Rightarrow> (bytes \<rightharpoonup> u64) \<Rightarrow> (bytes \<rightharpoonup> u64)" where
  "zop_spec (ZAdd name s) f = f(name \<mapsto> score_after (f name) s)"
| "zop_spec (ZRem name) f = f(name := None)"

text \<open>No score is a NaN, and no removal takes the last member.\<close>

fun tame :: "zop list \<Rightarrow> (bytes \<rightharpoonup> u64) \<Rightarrow> bool" where
  "tame [] f \<longleftrightarrow> True"
| "tame (ZAdd name s # ops) f \<longleftrightarrow> \<not> isnan s \<and> tame ops (zop_spec (ZAdd name s) f)"
| "tame (ZRem name # ops) f \<longleftrightarrow> (f name = None \<or> dom f \<noteq> {name}) \<and> tame ops (zop_spec (ZRem name) f)"

definition zmem0 :: zmem where
  "zmem0 = \<lparr>z_avl = Map.empty, z_node = Map.empty, z_next = 0\<rparr>"

lemma unused_zmem0 [simp]: "unused zmem0"
  by (simp add: unused_def zmem0_def)

lemma content_dom: "zset_inv m zs t \<Longrightarrow> dom (content m t) = zname m ` set (nodes t)"
  using content_Some [of m zs t] by (auto simp: dom_def image_def)

lemma zset_names_distinct: "zset_inv m zs t \<Longrightarrow> inj_on (zname m) (set (nodes t))"
  using zset_names_inj [of m zs t] by (auto intro: inj_onI)

lemma card_content: "zset_inv m zs t \<Longrightarrow> card (dom (content m t)) = size t"
  using content_dom [of m zs t] zset_names_distinct [of m zs t] zset_inv_distinct [of m zs t]
  by (simp add: card_image distinct_card)

lemma zset_add_step:
  assumes "zset_inv m zs t" "unused m" "hle K t" "K + height_cost t < 2 ^ 32" "\<not> isnan s"
  shows "\<exists>m' zs' t'. zset_insert m zs name s = Some (m', zs', content m t name = None) \<and> zset_step K m t m' zs' t'
    \<and> content m' t' = zop_spec (ZAdd name s) (content m t)"
  using zset_insert_ok [OF assms(1,2,5,3,4), of name] by (auto simp: score_after_def)

lemma zset_step_refl:
  assumes "zset_inv m zs t" "unused m" "hle K t"
  shows "zset_step K m t m zs t"
  using assms hle_mono [OF assms(3), of "K + height_cost t"] by (auto simp: zset_step_def)

lemma zset_remove_step:
  assumes "zset_inv m zs t" "unused m" "hle K t" "K + height_cost t < 2 ^ 32"
    and "content m t name = None \<or> dom (content m t) \<noteq> {name}"
  shows "\<exists>m' zs' t'. zset_remove m zs name = Some (m', zs', content m t name \<noteq> None) \<and> zset_step K m t m' zs' t'
    \<and> content m' t' = zop_spec (ZRem name) (content m t)"
proof -
  obtain zs1 p where l: "zset_lookup m zs name = Some (zs1, p)" "zset_inv m zs1 t"
    "case p of None \<Rightarrow> content m t name = None
     | Some a \<Rightarrow> a \<in> set (nodes t) \<and> zname m a = name \<and> content m t name = Some (zscore m a)"
    using zset_lookup_ok [OF assms(1)] by blast
  show ?thesis
  proof (cases p)
    case None
    then have "zset_remove m zs name = Some (m, zs1, content m t name \<noteq> None)" "(content m t)(name := None) = content m t"
      using l by (simp_all add: zset_remove_def fun_upd_idem)
    then show ?thesis
      using zset_step_refl [OF l(2) assms(2,3)] by (intro exI [of _ m] exI [of _ zs1] exI [of _ t]) simp
  next
    case (Some a)
    then have a: "a \<in> set (nodes t)" "zname m a = name" "content m t name \<noteq> None"
      using l(3) by simp_all
    have "size t \<noteq> 1"
    proof
      assume "size t = 1"
      then have "dom (content m t) = {name}"
        using card_content [OF assms(1)] a(3) domIff [of name "content m t"] card_1_singletonE [of "dom (content m t)"]
        by (metis One_nat_def singletonD)
      then show False
        using assms(5) a(3) by blast
    qed
    moreover have "size t \<noteq> 0"
      using a(1) by (cases t) auto
    ultimately have sz: "1 < size t"
      by linarith
    obtain m' zs' t' where d: "zset_delete m zs1 (Some a) = Some (m', zs')" "zset_step K m t m' zs' t'"
      "content m' t' = (content m t)(zname m a := None)"
      using zset_delete_step [OF l(2) assms(2) a(1) assms(3,4)] sz by metis
    then have "zset_remove m zs name = Some (m', zs', content m t name \<noteq> None)"
      using l(1) Some a(3) by (simp add: zset_remove_def)
    then show ?thesis
      using d a(2) by (intro exI [of _ m'] exI [of _ zs'] exI [of _ t']) simp
  qed
qed

text \<open>
  The heights that earlier deletions left behind are bounded by the budget \<open>4 n\<^sup>2\<close> after \<open>n\<close>
  operations, which stays below \<open>2 ^ 32\<close> for 30000 of them.
\<close>

definition budget :: "nat \<Rightarrow> zmem \<Rightarrow> zset \<Rightarrow> addr atree \<Rightarrow> bool" where
  "budget n m zs t \<longleftrightarrow> zset_inv m zs t \<and> unused m \<and> size t \<le> n \<and> hle (4 * n * n) t"

lemma budget_step:
  assumes "budget n m zs t" "zset_step (4 * n * n) m t m' zs' t'"
  shows "budget (Suc n) m' zs' t'"
proof -
  have "4 * n * n + height_cost t \<le> 4 * Suc n * Suc n"
    using assms(1) by (simp add: budget_def height_cost_def algebra_simps)
  then have "hle (4 * Suc n * Suc n) t'"
    using assms(2) hle_mono unfolding zset_step_def by blast
  then show ?thesis
    using assms by (simp add: budget_def zset_step_def)
qed

lemma budget_room:
  assumes "budget n m zs t" "n < 30000"
  shows "4 * n * n + height_cost t < 2 ^ 32"
proof -
  have "n * n \<le> 29999 * 29999"
    using assms(2) by (intro mult_le_mono) auto
  then show ?thesis
    using assms by (simp add: budget_def height_cost_def)
qed

lemma zset_run_ok:
  assumes "budget n m zs t" "n + length ops \<le> 30000" "tame ops (content m t)"
  shows "\<exists>m' zs' t'. zset_run ops m zs = Some (m', zs') \<and> budget (n + length ops) m' zs' t'
    \<and> content m' t' = fold zop_spec ops (content m t)"
  using assms
proof (induction ops arbitrary: n m zs t)
  case Nil
  then show ?case
    by auto
next
  case (Cons op ops)
  note b = Cons.prems(1) [unfolded budget_def]
  have room: "4 * n * n + height_cost t < 2 ^ 32"
    using budget_room [OF Cons.prems(1)] Cons.prems(2) by simp
  obtain m' zs' t' where s: "zset_run (op # ops) m zs = zset_run ops m' zs'"
    "zset_step (4 * n * n) m t m' zs' t'" "content m' t' = zop_spec op (content m t)"
  proof (cases op)
    case (ZAdd name s)
    then show thesis
      using zset_add_step [of m zs t "4 * n * n" s name] b room Cons.prems(3) that by auto
  next
    case (ZRem name)
    then show thesis
      using zset_remove_step [of m zs t "4 * n * n" name] b room Cons.prems(3) that by fastforce
  qed
  have "tame ops (content m' t')"
    using Cons.prems(3) s(3) by (cases op) auto
  then show ?case
    using Cons.IH [OF budget_step [OF Cons.prems(1) s(2)]] Cons.prems(2) s(1,3) by simp
qed


section \<open>Properties\<close>

text \<open>C9: Started from the empty set, a history of at most 30000 ZADD and ZREM calls in which no score is a NaN and no
  call removes the last member runs to its end, leaves a well-formed set (both indexes hold the same nodes, the tree is
  sorted by score and name), and its members and scores are those of the finite map obtained by
  the same updates.\<close>

theorem zset_history_refines_map:
  assumes "length ops \<le> 30000" "tame ops Map.empty"
  shows "\<exists>m zs t. zset_run ops zmem0 empty_zset = Some (m, zs) \<and> zset_inv m zs t
    \<and> content m t = fold zop_spec ops Map.empty"
proof -
  have e: "content zmem0 Leaf = Map.empty" "budget 0 zmem0 empty_zset Leaf"
    by (simp_all add: content_def budget_def)
  show ?thesis
    using zset_run_ok [OF e(2), of ops] assms e(1) by (auto simp: budget_def)
qed

lemma zset_history_refines_map_witness:
  "\<exists>m zs t. zset_run [ZAdd [97] 1, ZAdd [98] 2, ZAdd [97] 3, ZRem [98]] zmem0 empty_zset = Some (m, zs)
    \<and> zset_inv m zs t \<and> content m t = [[97] \<mapsto> 3]"
proof -
  have "tame [ZAdd [97] 1, ZAdd [98] 2, ZAdd [97] 3, ZRem [98]] Map.empty"
    by (auto simp: score_after_def isnan_def dbl_abs_def dbl_inf_def dbl_eq_def dord_def)
  then show ?thesis
    using zset_history_refines_map [of "[ZAdd [97] 1, ZAdd [98] 2, ZAdd [97] 3, ZRem [98]]"]
    by (simp add: score_after_def isnan_def dbl_abs_def dbl_inf_def dbl_eq_def dord_def fun_upd_twist)
qed

text \<open>C24: In a well-formed set whose tree was built by insertions (so that its counts are right), \<open>zset_seekge\<close>
  followed by \<open>znode_offset\<close>, as \<open>do_zquery\<close> calls them, returns the member at the rank of the key plus the
  offset in the order by score and then name, or null when that position is outside the set.\<close>

theorem zset_range_query:
  assumes "zset_inv m zs t" "avl t" "size t + 1 < 2 ^ 32" "\<not> isnan s"
  shows "\<exists>p. zset_seekge m zs s name = Some p \<and> znode_offset m p offset =
    Some (if rank m t (dord s, name) < size t \<and> 0 \<le> int (rank m t (dord s, name)) + offset
             \<and> int (rank m t (dord s, name)) + offset < int (size t)
          then Some (nodes t ! nat (int (rank m t (dord s, name)) + offset)) else None)"
proof (cases "rank m t (dord s, name) < size t")
  case True
  then show ?thesis
    using zset_seekge_rank [OF assms(1,4)] znode_offset_ok [OF assms(1) _ assms(3) True] avl_counted [OF assms(2)] by simp
next
  case False
  then show ?thesis
    using zset_seekge_rank [OF assms(1,4)] by (simp add: znode_offset_def)
qed

text \<open>C30: \<open>zset_clear\<close> frees the nodes of the set, all of them and nothing else, and leaves the set empty.\<close>

theorem zset_clear_frees_all:
  assumes "zset_inv m zs t"
  shows "\<exists>m'. zset_clear m zs = Some (m', empty_zset)
    \<and> z_avl m' = z_avl m |` (- set (nodes t)) \<and> z_node m' = z_node m |` (- set (nodes t))"
  using zset_clear_ok [OF assms] by blast

text \<open>The set \<open>{a: 1}\<close>, built by the code, for the witnesses.\<close>

lemma one_member:
  "\<exists>m zs t. zset_insert zmem0 empty_zset [97] 1 = Some (m, zs, True) \<and> zset_inv m zs t \<and> unused m \<and> avl t
    \<and> size t = 1 \<and> hle 4 t \<and> content m t = [[97] \<mapsto> 1] \<and> dom (z_node m) = set (nodes t)"
proof -
  have e: "content zmem0 Leaf = Map.empty" "\<not> isnan 1" "height_cost Leaf = 4"
    by (simp_all add: content_def isnan_def dbl_abs_def dbl_inf_def height_cost_def)
  obtain m zs t where r: "zset_insert zmem0 empty_zset [97] 1 = Some (m, zs, True)" "zset_step 0 zmem0 Leaf m zs t"
    "content m t = [[97] \<mapsto> 1]" "avl t"
    using zset_insert_ok [of zmem0 empty_zset Leaf 1 0 "[97]"] e by auto
  then have sz: "size t = 1"
    using card_content [of m zs t] by (simp add: zset_step_def)
  then obtain a where a: "nodes t = [a]"
    by (metis length_0_conv length_Suc_conv length_nodes One_nat_def)
  have "dom (z_node m) = set (nodes t)"
    using r(2) by (auto simp: a zset_step_def zset_inv_def live_node_def same_memory_def zmem0_def split: option.splits)
  then show ?thesis
    using r sz e(3) by (intro exI [of _ m] exI [of _ zs] exI [of _ t]) (simp add: zset_step_def)
qed

lemma one_member_nodes:
  assumes "zset_inv m zs t" "size t = 1" "content m t = [name \<mapsto> s]"
  shows "\<exists>a. nodes t = [a] \<and> zname m a = name \<and> zscore m a = s"
proof -
  obtain a where "nodes t = [a]"
    using assms(2) by (metis length_0_conv length_Suc_conv length_nodes One_nat_def)
  then show ?thesis
    using content_Some [OF assms(1), of name s] assms(3) by simp
qed

lemma zset_range_query_witness:
  "\<exists>m zs t p a. zset_insert zmem0 empty_zset [97] 1 = Some (m, zs, True) \<and> zset_seekge m zs 0 [] = Some p
    \<and> znode_offset m p 0 = Some (Some a) \<and> zname m a = [97] \<and> znode_offset m p 1 = Some None"
proof -
  obtain m zs t where z: "zset_insert zmem0 empty_zset [97] 1 = Some (m, zs, True)" "zset_inv m zs t" "avl t" "size t = 1"
    "content m t = [[97] \<mapsto> 1]"
    using one_member by blast
  then obtain a where a: "nodes t = [a]" "zname m a = [97]" "zscore m a = 1"
    using one_member_nodes by blast
  have nan: "\<not> isnan 0"
    by (simp add: isnan_def dbl_abs_def dbl_inf_def)
  have "live_node m a"
    using z(2) a(1) by (simp add: zset_inv_def)
  then have "zkey m a = (1, [97])"
    using zkey_eq [of m a] a by (simp add: dord_def dbl_abs_def)
  then have "rank m t (dord 0, []) = 0"
    by (simp add: rank_def a(1) dord_def dbl_abs_def)
  then show ?thesis
    using zset_range_query [OF z(2,3) _ nan, of "[]" 0] zset_range_query [OF z(2,3) _ nan, of "[]" 1] z a
    by (intro exI [of _ m] exI [of _ zs] exI [of _ t]) auto
qed

lemma zset_clear_frees_all_witness:
  "\<exists>m zs m'. zset_insert zmem0 empty_zset [97] 1 = Some (m, zs, True) \<and> zset_clear m zs = Some (m', empty_zset)
    \<and> card (dom (z_node m)) = 1 \<and> z_node m' = Map.empty"
proof -
  obtain m zs t where z: "zset_insert zmem0 empty_zset [97] 1 = Some (m, zs, True)" "zset_inv m zs t" "size t = 1"
    "dom (z_node m) = set (nodes t)"
    using one_member by blast
  then have c: "card (dom (z_node m)) = 1" "z_node m |` (- set (nodes t)) = Map.empty"
    using zset_inv_distinct [OF z(2)]
    by (auto simp: distinct_card restrict_map_def fun_eq_iff)
  then show ?thesis
    using zset_clear_frees_all [OF z(2)] z(1) by (metis (no_types))
qed

lemma zset_delete_next: "zset_delete m zs p = Some (m', zs') \<Longrightarrow> z_next m' = z_next m"
  by (auto simp: zset_delete_def znode_del_def Let_def split: option.splits if_splits bind_splits)

text \<open>C33: \<open>zset_delete\<close> of the last member frees its node but does not reset \<open>zset->root\<close>, because \<open>avl_del\<close> returns
  null and the code takes that for a failure; every later insertion, order query or clearing of the set
  reads the freed node, which is undefined behaviour.\<close>

theorem zset_delete_last_dangles:
  assumes "zset_inv m zs t" "unused m" "nodes t = [a]" "hle K t" "K + 8 < 2 ^ 32"
  shows "\<exists>m' zs'. zset_delete m zs (Some a) = Some (m', zs') \<and> zs_root zs' = Some a \<and> z_node m' a = None
    \<and> zset_seekge m' zs' s name = None \<and> zset_insert m' zs' name s = None \<and> zset_clear m' zs' = None"
proof -
  have sz: "size t = 1"
    using assms(3) length_nodes [of t] by simp
  then have rt: "root t = Some a"
    using root_in_nodes [of t] assms(3) by (cases "root t") auto
  have live: "live_node m a"
    using assms(1,3) by (simp add: zset_inv_def)
  obtain m' zs' where d: "zset_delete m zs (Some a) = Some (m', zs')" "zs_root zs' = Some a"
    "z_node m' = (z_node m)(a := None)" "z_avl m' a = None" "hm_ok (zs_hmap zs')"
    "hm_nodes (zs_hmap zs') = hm_nodes (zs_hmap zs) - {#\<lparr>hcode = str_hash (zname m a), hobj = a\<rparr>#}"
    using zset_delete_step [OF assms(1,2) _ assms(4), of a] assms(1,3,5) sz rt
    by (auto simp: height_cost_def zset_inv_def)
  have "image_mset hobj (hm_nodes (zs_hmap zs)) = {#a#}" "keyed hcode hobj (zname m) (hm_nodes (zs_hmap zs))"
    using assms(1,3) by (simp_all add: zset_inv_def)
  then have "hm_nodes (zs_hmap zs) = {#\<lparr>hcode = str_hash (zname m a), hobj = a\<rparr>#}"
    by (auto simp: keyed_def dest!: msed_map_invR)
  then have empty: "hm_nodes (zs_hmap zs') = {#}"
    using d(6) by simp
  have dead: "zn_rd zn_score m' (Some a) = None" "rd n_left (z_avl m') (Some a) = None"
    using d(3,4) by (simp_all add: zn_rd_def mem_simps)
  have fresh: "z_next m' \<noteq> a"
    using zset_delete_next [OF d(1)] live assms(2) by (auto simp: unused_def live_node_def)
  have seek: "zset_seekge m' zs' s name = None"
    using dead by (simp add: zset_seekge_def d(2) seek_loop.simps zless_key_def)
  have clear: "zset_clear m' zs' = None"
    using dead by (simp add: zset_clear_def d(2) tree_dispose.simps Let_def)
  have "zset_insert m' zs' name s = None"
  proof -
    obtain h where h: "hm_lookup (zs_hmap zs') (str_hash name) (hcmp m' name) = Some (h, None)" "hm_ok h"
      using hm.find_law [OF d(5), of "str_hash name" "hcmp m' name"] empty by (auto split: option.splits)
    have slot: "tree_slot m1 (Some b) (Some a) p fs = None" if "z_node m1 a = None" for m1 b p fs
      using that by (subst tree_slot.simps) (simp add: zless_def zn_rd_def)
    show ?thesis
      using h(1) fresh d(3) slot
      by (auto simp: zset_insert_def zset_lookup_def d(2) znode_new_def tree_insert_def Let_def split: option.splits bind_splits)
  qed
  then show ?thesis
    using d seek clear by auto
qed

lemma zset_delete_last_dangles_witness:
  "\<exists>m zs a m' zs'. zset_insert zmem0 empty_zset [97] 1 = Some (m, zs, True) \<and> zset_delete m zs (Some a) = Some (m', zs')
    \<and> zset_seekge m' zs' 0 [] = None \<and> zset_insert m' zs' [] 0 = None \<and> zset_clear m' zs' = None"
proof -
  obtain m zs t where z: "zset_insert zmem0 empty_zset [97] 1 = Some (m, zs, True)" "zset_inv m zs t" "unused m" "hle 4 t"
    "size t = 1" "content m t = [[97] \<mapsto> 1]"
    using one_member by blast
  obtain a where "nodes t = [a]"
    using one_member_nodes [OF z(2,5,6)] by blast
  then show ?thesis
    using zset_delete_last_dangles [OF z(2,3) _ z(4), of a 0 "[]"] z(1) by fastforce
qed

text \<open>Removing a member that is not the last one frees exactly its node, and afterwards the set is well-formed and
  maps every other name to its old score.\<close>

lemma zset_delete_removes:
  assumes "zset_inv m zs t" "unused m" "a \<in> set (nodes t)" "1 < size t" "hle K t" "K + height_cost t < 2 ^ 32"
  shows "\<exists>m' zs' t'. zset_delete m zs (Some a) = Some (m', zs') \<and> zset_inv m' zs' t'
    \<and> nodes t' = filter (\<lambda>b. b \<noteq> a) (nodes t) \<and> content m' t' = (content m t)(zname m a := None)
    \<and> z_node m' = (z_node m)(a := None)"
proof -
  obtain m' zs' t' where d: "zset_delete m zs (Some a) = Some (m', zs')" "zset_step K m t m' zs' t'"
    "nodes t' = filter (\<lambda>b. b \<noteq> a) (nodes t)" "content m' t' = (content m t)(zname m a := None)"
    "z_node m' = (z_node m)(a := None)"
    using zset_delete_step [OF assms(1-3,5,6)] assms(4) by metis
  then show ?thesis
    by (intro exI [of _ m'] exI [of _ zs'] exI [of _ t']) (simp add: zset_step_def)
qed

lemma zset_delete_removes_witness:
  "\<exists>m zs a m' zs' t'. zset_run [ZAdd [97] 1, ZAdd [98] 2] zmem0 empty_zset = Some (m, zs) \<and> zname m a = [97]
    \<and> zset_delete m zs (Some a) = Some (m', zs') \<and> content m' t' = [[98] \<mapsto> 2]"
proof -
  let ?ops = "[ZAdd [97] 1, ZAdd [98] 2]"
  have e: "content zmem0 Leaf = Map.empty" "budget 0 zmem0 empty_zset Leaf"
    by (simp_all add: content_def budget_def)
  have "tame ?ops Map.empty"
    by (simp add: isnan_def dbl_abs_def dbl_inf_def score_after_def)
  then obtain m zs t where r: "zset_run ?ops zmem0 empty_zset = Some (m, zs)" "budget 2 m zs t"
    "content m t = [[97] \<mapsto> 1, [98] \<mapsto> 2]"
    using zset_run_ok [OF e(2), of ?ops] e(1) by (auto simp: score_after_def numeral_2_eq_2)
  then have z: "zset_inv m zs t" "unused m" "hle 16 t" "16 + height_cost t < 2 ^ 32"
    by (simp_all add: budget_def height_cost_def)
  have "card (dom (content m t)) = 2"
    by (simp add: r(3))
  then have sz: "1 < size t"
    using card_content [OF z(1)] by simp
  obtain a where a: "a \<in> set (nodes t)" "zname m a = [97]"
    using content_Some [OF z(1), of "[97]" 1] r(3) by auto
  obtain m' zs' t' where d: "zset_delete m zs (Some a) = Some (m', zs')" "content m' t' = (content m t)(zname m a := None)"
    using zset_delete_removes [OF z(1,2) a(1) sz z(3,4)] by blast
  moreover have "content m' t' = [[98] \<mapsto> 2]"
    unfolding d(2) r(3) a(2) by (auto simp: fun_eq_iff)
  ultimately show ?thesis
    using r(1) a(2) by blast
qed

end
