(* ===== verification/ServerOk.thy ===== *)
theory ServerOk
  imports Server ZsetProps
begin

text \<open>
  What the commands of server.cpp do to the store, seen as a map from keys to values and
  deadlines: the invariant of the store and of a connection's hashtable, the abstract
  specification of each command, and the proof that \<open>do_request\<close> computes it.
\<close>

section \<open>A hashtable read as a map\<close>

definition index_map :: "(addr \<Rightarrow> bytes) \<Rightarrow> (addr \<Rightarrow> 'v) \<Rightarrow> addr hmap \<Rightarrow> bytes \<rightharpoonup> 'v" where
  "index_map key f h = map_of (map (\<lambda>n. (key (hobj n), f (hobj n))) (hm_list h))"

lemma index_map_Some:
  assumes "keyed hcode hobj key (hm_nodes h)"
  shows "index_map key f h k = Some v \<longleftrightarrow> (\<exists>x. binds hobj key (hm_nodes h) k x \<and> f x = v)"
proof -
  have nodes: "set (hm_list h) = set_mset (hm_nodes h)"
    by (metis mset_hm_list set_mset_mset)
  show ?thesis
  proof
    assume "index_map key f h k = Some v"
    then show "\<exists>x. binds hobj key (hm_nodes h) k x \<and> f x = v"
      using nodes unfolding index_map_def binds_def by (auto dest!: map_of_SomeD) (metis imageI)
  next
    assume "\<exists>x. binds hobj key (hm_nodes h) k x \<and> f x = v"
    then obtain n where n: "n \<in># hm_nodes h" "key (hobj n) = k" "f (hobj n) = v"
      by (auto simp: binds_def)
    have same: "f (hobj n') = v" if "n' \<in># hm_nodes h" "key (hobj n') = k" for n'
      using keyed_unique [OF assms that(1) n(1)] that n by auto
    have "k \<in> fst ` set (map (\<lambda>n. (key (hobj n), f (hobj n))) (hm_list h))"
      using n nodes by (force simp: image_image)
    then have "map_of (map (\<lambda>n. (key (hobj n), f (hobj n))) (hm_list h)) k \<noteq> None"
      by (simp only: map_of_eq_None_iff not_not)
    then obtain v' where v': "map_of (map (\<lambda>n. (key (hobj n), f (hobj n))) (hm_list h)) k = Some v'"
      by blast
    then show "index_map key f h k = Some v"
      using same nodes by (auto simp: index_map_def dest!: map_of_SomeD)
  qed
qed

lemma index_map_binds:
  assumes "keyed hcode hobj key (hm_nodes h)" "binds hobj key (hm_nodes h) k x"
  shows "index_map key f h k = Some (f x)"
  unfolding index_map_Some [OF assms(1)] by (rule exI [of _ x]) (simp add: assms(2))

lemma index_map_None:
  "keyed hcode hobj key (hm_nodes h) \<Longrightarrow> index_map key f h k = None \<longleftrightarrow> (\<forall>x. \<not> binds hobj key (hm_nodes h) k x)"
  using index_map_Some [of key h f k] by (metis not_None_eq)

section \<open>Values, keys and the view of a connection\<close>

definition ekey :: "store \<Rightarrow> addr \<Rightarrow> bytes" where
  "ekey s a = (case s_entry s a of None \<Rightarrow> [] | Some e \<Rightarrow> e_key e)"

definition members :: "zset \<Rightarrow> addr set" where
  "members zs = hobj ` set_mset (hm_nodes (zs_hmap zs))"

definition zcontent :: "zmem \<Rightarrow> zset \<Rightarrow> bytes \<rightharpoonup> u64" where
  "zcontent m zs = index_map (zname m) (zscore m) (zs_hmap zs)"

datatype val = VStr bytes | VSet "bytes \<rightharpoonup> u64"

definition value_of :: "store \<Rightarrow> addr \<Rightarrow> val" where
  "value_of s a =
     (case s_entry s a of
        None \<Rightarrow> VStr []
      | Some e \<Rightarrow> if e_type e = T_ZSET then VSet (zcontent (s_zmem s) (e_zset e)) else VStr (e_str e))"

definition item :: "store \<Rightarrow> addr \<Rightarrow> val \<times> u64 option" where
  "item s a = (value_of s a, deadline (s_timers s) a)"

definition view :: "store \<Rightarrow> db \<Rightarrow> bytes \<rightharpoonup> val \<times> u64 option" where
  "view s db = index_map (ekey s) (item s) db"

definition objs :: "db \<Rightarrow> addr set" where
  "objs db = hobj ` set_mset (hm_nodes db)"

definition db_inv :: "store \<Rightarrow> db \<Rightarrow> bool" where
  "db_inv s db \<longleftrightarrow> hm_ok db \<and> keyed hcode hobj (ekey s) (hm_nodes db) \<and> objs db \<subseteq> dom (s_entry s)"

definition entry_ok :: "nat \<Rightarrow> zmem \<Rightarrow> entry \<Rightarrow> bool" where
  "entry_ok n m e \<longleftrightarrow> (\<exists>t. budget n m (e_zset e) t) \<and> e_type e \<noteq> T_INIT \<and> (e_type e = T_STR \<longrightarrow> e_zset e = empty_zset)"

text \<open>After at most \<open>n\<close> commands: timers and entries agree, and the sorted sets are well formed and disjoint.\<close>

definition store_inv :: "nat \<Rightarrow> store \<Rightarrow> bool" where
  "store_inv n s \<longleftrightarrow>
     timers_ok (s_timers s) \<and> length (fst (s_timers s)) \<le> n \<and> dom (snd (s_timers s)) = dom (s_entry s)
     \<and> (\<forall>a \<ge> s_next s. s_entry s a = None) \<and> unused (s_zmem s)
     \<and> (\<forall>a e. s_entry s a = Some e \<longrightarrow> entry_ok n (s_zmem s) e)
     \<and> (\<forall>a b ea eb. s_entry s a = Some ea \<longrightarrow> s_entry s b = Some eb \<longrightarrow> a \<noteq> b \<longrightarrow>
          members (e_zset ea) \<inter> members (e_zset eb) = {})"

lemma members_nodes: "zset_inv m zs t \<Longrightarrow> members zs = set (nodes t)"
  unfolding members_def zset_inv_def by (metis set_image_mset set_mset_mset)

lemma members_empty [simp]: "members empty_zset = {}"
  by (simp add: members_def empty_zset_def)

lemma zcontent_content:
  assumes "zset_inv m zs t"
  shows "zcontent m zs = content m t"
proof
  fix k
  have "keyed hcode hobj (zname m) (hm_nodes (zs_hmap zs))"
    using assms by (simp add: zset_inv_def)
  then have "zcontent m zs k = Some v \<longleftrightarrow> content m t k = Some v" for v
    unfolding zcontent_def using index_map_Some binds_nodes [OF assms] content_Some [OF assms] by metis
  then show "zcontent m zs k = content m t k"
    by (rule option_eqI)
qed

lemma budget_mono: "budget n m zs t \<Longrightarrow> n \<le> n' \<Longrightarrow> budget n' m zs t"
proof -
  assume b: "budget n m zs t" and "n \<le> n'"
  then have "4 * n * n \<le> 4 * n' * n'"
    by (intro mult_le_mono) auto
  then show "budget n' m zs t"
    using b \<open>n \<le> n'\<close> hle_mono [of "4 * n * n" t "4 * n' * n'"] by (simp add: budget_def)
qed

lemma entry_ok_mono: "entry_ok n m e \<Longrightarrow> n \<le> n' \<Longrightarrow> entry_ok n' m e"
  unfolding entry_ok_def using budget_mono by blast

lemma store_inv_mono: "store_inv n s \<Longrightarrow> n \<le> n' \<Longrightarrow> store_inv n' s"
  unfolding store_inv_def using entry_ok_mono by (meson le_trans)

lemma option_ext: "(\<And>v. x = Some v \<longleftrightarrow> y = Some v) \<Longrightarrow> x = y"
  by (metis not_None_eq)

section \<open>Framing\<close>

text \<open>Outside \<open>A\<close> the entries live as before, under their old keys, with their old values and deadlines.\<close>

definition keeps :: "store \<Rightarrow> store \<Rightarrow> addr set \<Rightarrow> bool" where
  "keeps s s' A \<longleftrightarrow> (\<forall>a. a \<notin> A \<longrightarrow> (s_entry s' a = None) = (s_entry s a = None) \<and> ekey s' a = ekey s a \<and> item s' a = item s a)"

lemma keeps_refl [simp]: "keeps s s A"
  by (simp add: keeps_def)

lemma keeps_mono: "keeps s s' A \<Longrightarrow> A \<subseteq> B \<Longrightarrow> keeps s s' B"
  by (auto simp: keeps_def)

lemma keeps_trans: "keeps s s1 A \<Longrightarrow> keeps s1 s2 A \<Longrightarrow> keeps s s2 A"
  by (simp add: keeps_def)

lemma db_inv_keep:
  assumes "db_inv s db" "keeps s s' A" "\<And>a. a \<in> A \<Longrightarrow> a \<in> objs db \<Longrightarrow> s_entry s' a \<noteq> None \<and> ekey s' a = ekey s a"
  shows "db_inv s' db"
proof -
  have same: "s_entry s' a \<noteq> None \<and> ekey s' a = ekey s a" if "a \<in> objs db" for a
    using assms that by (cases "a \<in> A") (auto simp: db_inv_def keeps_def)
  then have "keyed hcode hobj (ekey s') (hm_nodes db) = keyed hcode hobj (ekey s) (hm_nodes db)"
    by (intro keyed_cong) (auto simp: objs_def)
  then show ?thesis
    using assms(1) same by (auto simp: db_inv_def)
qed

lemma view_Some:
  "db_inv s db \<Longrightarrow> view s db k = Some v \<longleftrightarrow> (\<exists>a. binds hobj (ekey s) (hm_nodes db) k a \<and> item s a = v)"
  by (simp add: view_def db_inv_def index_map_Some)

lemma view_None: "db_inv s db \<Longrightarrow> view s db k = None \<longleftrightarrow> (\<forall>a. \<not> binds hobj (ekey s) (hm_nodes db) k a)"
  by (simp add: view_def db_inv_def index_map_None)

lemma binds_objs: "binds hobj key (hm_nodes db) k a \<Longrightarrow> a \<in> objs db \<and> key a = k"
  by (auto simp: binds_def objs_def)

lemma binds_iff: "binds hobj key (hm_nodes db) k a \<longleftrightarrow> a \<in> objs db \<and> key a = k"
  by (auto simp: binds_def objs_def)

lemma view_keep:
  assumes "db_inv s db" "keeps s s' {a}" "s_entry s' a \<noteq> None" "ekey s' a = ekey s a" "binds hobj (ekey s) (hm_nodes db) k a"
  shows "view s' db = (view s db)(k \<mapsto> item s' a)"
proof
  fix q
  have inv': "db_inv s' db"
    using db_inv_keep [OF assms(1,2)] assms(3,4) by blast
  have k: "ekey s' x = ekey s x" "x \<noteq> a \<Longrightarrow> item s' x = item s x" for x
    using assms(2,4) by (auto simp: keeps_def)
  have a: "binds hobj (ekey s') (hm_nodes db) k a" "ekey s a = k"
    using assms(4,5) by (auto simp: binds_iff)
  show "view s' db q = ((view s db)(k \<mapsto> item s' a)) q"
  proof (cases "q = k")
    case True
    then show ?thesis
      using view_Some [OF inv', of k "item s' a"] a(1) by auto
  next
    case False
    have "item s' x = item s x" if "ekey s x = q" for x
      using k(2) [of x] a(2) False that by blast
    then have "view s' db q = Some v \<longleftrightarrow> view s db q = Some v" for v
      unfolding view_Some [OF inv'] view_Some [OF assms(1)] binds_iff k(1) by metis
    then have "view s' db q = view s db q"
      by (rule option_ext)
    then show ?thesis
      using False by simp
  qed
qed

lemma view_same:
  assumes "db_inv s db" "keeps s s' A" "A \<inter> objs db = {}"
  shows "view s' db = view s db" "db_inv s' db"
proof -
  show inv': "db_inv s' db"
    using db_inv_keep [OF assms(1,2)] assms(3) by blast
  have "x \<in> objs db \<Longrightarrow> ekey s' x = ekey s x \<and> item s' x = item s x" for x
    using assms(2,3) by (auto simp: keeps_def)
  then have "view s' db q = Some v \<longleftrightarrow> view s db q = Some v" for q v
    unfolding view_Some [OF inv'] view_Some [OF assms(1)] by (auto simp: binds_iff)
  then show "view s' db = view s db"
    by (intro ext option_ext)
qed


section \<open>Looking up a key\<close>

lemma entry_eq_key: "s_entry s a \<noteq> None \<Longrightarrow> entry_eq s key a \<longleftrightarrow> ekey s a = key"
  by (auto simp: entry_eq_def ekey_def)

lemma entry_eq_cong:
  assumes "db_inv s db"
  shows "hm_lookup db hc (entry_eq s key) = hm_lookup db hc (\<lambda>a. ekey s a = key)"
    and "hm_delete db hc (entry_eq s key) = hm_delete db hc (\<lambda>a. ekey s a = key)"
proof -
  have "entry_eq s key (hobj n) = (ekey s (hobj n) = key)" if "n \<in># hm_nodes db" for n
    using assms that by (intro entry_eq_key) (auto simp: db_inv_def objs_def)
  then show "hm_lookup db hc (entry_eq s key) = hm_lookup db hc (\<lambda>a. ekey s a = key)"
    "hm_delete db hc (entry_eq s key) = hm_delete db hc (\<lambda>a. ekey s a = key)"
    using hm_op_cong [of db "entry_eq s key" "\<lambda>a. ekey s a = key" hc] assms by (simp_all add: db_inv_def)
qed

lemma db_inv_nodes: "db_inv s db \<Longrightarrow> hm_ok db' \<Longrightarrow> hm_nodes db' = hm_nodes db \<Longrightarrow> db_inv s db'"
  by (simp add: db_inv_def objs_def)

lemma view_nodes:
  assumes "db_inv s db" "hm_ok db'" "hm_nodes db' = hm_nodes db"
  shows "view s db' = view s db"
proof -
  have "view s db' k = Some v \<longleftrightarrow> view s db k = Some v" for k v
    unfolding view_Some [OF assms(1)] view_Some [OF db_inv_nodes [OF assms]] assms(3) ..
  then show ?thesis
    by (intro ext option_ext)
qed

definition found :: "store \<Rightarrow> db \<Rightarrow> bytes \<Rightarrow> ptr \<Rightarrow> bool" where
  "found s db key p \<longleftrightarrow>
     (case p of
        None \<Rightarrow> view s db key = None \<and> (\<forall>a. \<not> binds hobj (ekey s) (hm_nodes db) key a)
      | Some a \<Rightarrow> binds hobj (ekey s) (hm_nodes db) key a \<and> view s db key = Some (item s a) \<and> s_entry s a \<noteq> None)"

lemma db_lookup_ok:
  assumes "db_inv s db"
  shows "\<exists>db' p. db_lookup s db key = Some (db', p) \<and> db_inv s db' \<and> view s db' = view s db \<and> objs db' = objs db
    \<and> found s db' key p"
proof -
  have d: "hm_ok db" "keyed hcode hobj (ekey s) (hm_nodes db)"
    using assms by (simp_all add: db_inv_def)
  obtain db' r where l: "hm_lookup db (str_hash key) (\<lambda>a. ekey s a = key) = Some (db', r)" "hm_ok db'" "hm_nodes db' = hm_nodes db"
    "\<forall>x. (\<exists>n. r = Some n \<and> hobj n = x) \<longleftrightarrow> binds hobj (ekey s) (hm_nodes db) key x"
    using hm.find_key [of db "ekey s" key, OF d] by (elim exE conjE) (rule that; assumption)
  note i = db_inv_nodes [OF assms l(2,3)]
  note v = view_nodes [OF assms l(2,3)]
  have "found s db' key (map_option hobj r)"
  proof (cases r)
    case None
    then have "\<forall>a. \<not> binds hobj (ekey s) (hm_nodes db) key a"
      using l(4) by simp
    then show ?thesis
      using None view_Some [OF assms, of key] l(3) v by (cases "view s db key") (auto simp: found_def)
  next
    case (Some n)
    then have b: "binds hobj (ekey s) (hm_nodes db) key (hobj n)"
      using l(4) by auto
    then have "view s db key = Some (item s (hobj n))"
      using view_Some [OF assms, of key "item s (hobj n)"] by blast
    moreover have "s_entry s (hobj n) \<noteq> None"
      using binds_objs [OF b] assms by (auto simp: db_inv_def)
    ultimately show ?thesis
      using Some b l(3) v by (simp add: found_def)
  qed
  then show ?thesis
    using i v l(1,3) entry_eq_cong(1) [OF assms] by (simp add: db_lookup_def objs_def)
qed

section \<open>Changes of the store\<close>

lemma keepsI:
  assumes "\<And>x. x \<notin> A \<Longrightarrow> s_entry s' x = s_entry s x" "\<And>x. x \<notin> A \<Longrightarrow> deadline (s_timers s') x = deadline (s_timers s) x"
    and "\<And>x e. x \<notin> A \<Longrightarrow> s_entry s x = Some e \<Longrightarrow> zcontent (s_zmem s') (e_zset e) = zcontent (s_zmem s) (e_zset e)"
  shows "keeps s s' A"
  unfolding keeps_def
proof (intro allI impI)
  fix x
  assume x: "x \<notin> A"
  have "value_of s' x = value_of s x"
    using assms(1,3) [OF x] by (simp add: value_of_def split: option.splits)
  then show "(s_entry s' x = None) = (s_entry s x = None) \<and> ekey s' x = ekey s x \<and> item s' x = item s x"
    using assms(1,2) [OF x] by (simp add: ekey_def item_def)
qed

text \<open>What a command makes of the store and the hashtable of its connection.\<close>

definition moves :: "nat \<Rightarrow> store \<Rightarrow> db \<Rightarrow> store \<Rightarrow> db \<Rightarrow> (bytes \<rightharpoonup> val \<times> u64 option) \<Rightarrow> bool" where
  "moves n s db s' db' f \<longleftrightarrow>
     store_inv (Suc n) s' \<and> db_inv s' db' \<and> view s' db' = f \<and> keeps s s' (objs db \<union> {s_next s ..})
     \<and> objs db' \<subseteq> objs db \<union> {s_next s ..< s_next s'} \<and> s_next s \<le> s_next s'"

lemma moves_same:
  assumes "store_inv n s" "db_inv s db'" "objs db' = objs db"
  shows "moves n s db s db' (view s db')"
  using assms store_inv_mono [of n s "Suc n"] by (simp add: moves_def)

text \<open>A change of one entry of the connection that keeps its key.\<close>

lemma moves_one:
  assumes "store_inv (Suc n) s'" "db_inv s db'" "objs db' = objs db" "binds hobj (ekey s) (hm_nodes db') key a"
    and "keeps s s' {a}" "s_entry s' a \<noteq> None" "ekey s' a = ekey s a" "s_next s' = s_next s"
  shows "moves n s db s' db' ((view s db')(key \<mapsto> item s' a))"
proof -
  have a: "a \<in> objs db"
    using binds_objs [OF assms(4)] assms(3) by simp
  have "db_inv s' db'"
    using db_inv_keep [OF assms(2,5)] assms(6,7) by blast
  moreover have "view s' db' = (view s db')(key \<mapsto> item s' a)"
    by (rule view_keep [OF assms(2,5,6,7,4)])
  moreover have "keeps s s' (objs db \<union> {s_next s ..})"
    using a by (intro keeps_mono [OF assms(5)]) auto
  ultimately show ?thesis
    using assms by (simp add: moves_def)
qed

lemma budget_empty [simp]: "unused m \<Longrightarrow> budget n m empty_zset Leaf"
  by (simp add: budget_def)

lemma store_inv_upd:
  assumes "store_inv n s" "s_entry s a = Some e" "e_zset e' = e_zset e" "e_type e' = e_type e"
  shows "store_inv n (s\<lparr>s_entry := (s_entry s)(a \<mapsto> e')\<rparr>)"
proof -
  have "entry_ok n m e' = entry_ok n m e" for m
    using assms(3,4) by (simp add: entry_ok_def)
  moreover have "insert a (dom (s_entry s)) = dom (s_entry s)" "a < s_next s"
    using assms(1,2) by (auto simp: store_inv_def not_le [symmetric])
  ultimately show ?thesis
    using assms unfolding store_inv_def by simp
qed

lemma upd_str_ok:
  assumes "store_inv n s" "s_entry s a = Some e" "e_type e = T_STR"
  shows "\<exists>s'. upd_entry a (\<lambda>e. e\<lparr>e_str := v\<rparr>) s = Some s' \<and> store_inv n s' \<and> keeps s s' {a} \<and> s_entry s' a \<noteq> None
    \<and> ekey s' a = ekey s a \<and> s_next s' = s_next s \<and> item s' a = (VStr v, deadline (s_timers s) a)"
proof -
  let ?s = "s\<lparr>s_entry := (s_entry s)(a \<mapsto> e\<lparr>e_str := v\<rparr>)\<rparr>"
  have "store_inv n ?s"
    by (rule store_inv_upd [OF assms(1,2)]) simp_all
  moreover have "keeps s ?s {a}"
    by (rule keepsI) simp_all
  ultimately show ?thesis
    using assms by (simp add: upd_entry_def ekey_def item_def value_of_def)
qed

lemma set_ttl_ok:
  assumes "store_inv n s" "s_entry s a \<noteq> None" "n + 1 < npos"
  shows "\<exists>s'. set_ttl now a ttl s = Some s' \<and> store_inv (if ttl < 0 then n else Suc n) s' \<and> keeps s s' {a}
    \<and> s_entry s' = s_entry s \<and> s_next s' = s_next s \<and> s_zmem s' = s_zmem s \<and> s_jobs s' = s_jobs s
    \<and> deadline (s_timers s') = (deadline (s_timers s))(a := if ttl < 0 then None else Some (now + of_int ttl))"
proof -
  let ?d = "deadline (s_timers s)"
  let ?d' = "?d(a := if ttl < 0 then None else Some (now + of_int ttl))"
  have t: "timers_ok (s_timers s)" "length (fst (s_timers s)) \<le> n" "dom (snd (s_timers s)) = dom (s_entry s)"
    using assms(1) by (simp_all add: store_inv_def)
  then have a: "a \<in> dom (snd (s_timers s))" and len: "length (fst (s_timers s)) + 1 < npos"
    using assms(2,3) by auto
  obtain h' where h': "entry_set_ttl now a ttl (s_timers s) = Some h'" "timers_ok h'" "dom (snd h') = dom (snd (s_timers s))"
    "deadline h' = ?d'"
  proof (cases "ttl < 0")
    case True
    then show thesis
      using entry_set_ttl_remove_ok [OF t(1) a True, of now] that by auto
  next
    case False
    then show thesis
      using entry_set_ttl_arm_ok [OF t(1) a _ len, of ttl now] that by auto
  qed
  have fin: "finite (dom ?d)"
    by (rule ttl.finite_due [OF t(1)])
  have len': "length (fst h') \<le> (if ttl < 0 then n else Suc n)"
    using timers_length [OF h'(2)] timers_length [OF t(1)] t(2) fin
    unfolding h'(4) by (auto simp: card_insert_if dest: card_mono [OF fin Diff_subset [of "dom ?d" "{a}"], THEN order_trans])
  let ?s = "s\<lparr>s_timers := h'\<rparr>"
  have "store_inv (if ttl < 0 then n else Suc n) ?s"
  proof -
    have "store_inv (if ttl < 0 then n else Suc n) s"
      using assms(1) store_inv_mono by auto
    then show ?thesis
      using h'(2,3) len' unfolding store_inv_def by simp
  qed
  moreover have "keeps s ?s {a}"
    by (rule keepsI) (simp_all add: h'(4))
  ultimately show ?thesis
    using h'(1,4) by (simp add: set_ttl_def)
qed

text \<open>A new entry under a fresh address.\<close>

lemma timers_fresh:
  assumes "timers_ok h" "snd h a = None"
  shows "timers_ok (fst h, (snd h)(a \<mapsto> npos)) \<and> deadline (fst h, (snd h)(a \<mapsto> npos)) = deadline h"
proof -
  obtain xs idx where h: "h = (xs, idx)" by (cases h)
  have t: "idx_ok xs idx" "idx a = None" "length xs < npos" "heap_ord xs" "\<forall>x \<in> set xs. hi_ref x \<noteq> None"
    "\<forall>r i. idx r = Some i \<and> r \<notin> refs xs \<longrightarrow> i = npos"
    using assms by (auto simp: timers_ok_def h)
  have "hi_ref (xs ! i) \<noteq> Some a" if "i < length xs" for i
    using t(1,2) that by (auto simp: idx_ok_def)
  then have "idx_ok xs (idx(a \<mapsto> npos))" "a \<notin> refs xs"
    using t(1) by (auto simp: idx_ok_def notin_refs_iff)
  moreover have "deadline (xs, idx(a \<mapsto> npos)) = deadline (xs, idx)"
    using t(2,3) by (auto simp: deadline_def fun_eq_iff)
  ultimately show ?thesis
    using t(3-6) by (auto simp: timers_ok_def h)
qed

lemma entry_new_ok:
  assumes "store_inv n s" "e_zset e = empty_zset" "e_type e \<noteq> T_INIT"
  defines "a \<equiv> s_next s"
  defines "s' \<equiv> s\<lparr>s_next := a + 1, s_entry := (s_entry s)(a \<mapsto> e),
      s_timers := (fst (s_timers s), (snd (s_timers s))(a \<mapsto> npos))\<rparr>"
  shows "store_inv n s'" "keeps s s' {a}" "item s' a = (value_of s' a, None)"
proof -
  have i: "timers_ok (s_timers s)" "length (fst (s_timers s)) \<le> n" "dom (snd (s_timers s)) = dom (s_entry s)"
    "\<forall>b \<ge> a. s_entry s b = None" "unused (s_zmem s)" "\<forall>b eb. s_entry s b = Some eb \<longrightarrow> entry_ok n (s_zmem s) eb"
    "\<forall>b c eb ec. s_entry s b = Some eb \<longrightarrow> s_entry s c = Some ec \<longrightarrow> b \<noteq> c \<longrightarrow> members (e_zset eb) \<inter> members (e_zset ec) = {}"
    using assms(1) by (simp_all add: store_inv_def a_def)
  have fresh: "snd (s_timers s) a = None"
    using i(3,4) by (metis domIff le_refl)
  note t = timers_fresh [OF i(1) fresh]
  have "entry_ok n (s_zmem s) e"
    using assms(2,3) budget_empty [OF i(5)] unfolding entry_ok_def by auto
  then show "store_inv n s'"
    using i t assms(2) unfolding store_inv_def s'_def by simp
  show "keeps s s' {a}"
    using t by (intro keepsI) (simp_all add: s'_def)
  have "deadline (s_timers s) a = None"
    using fresh by (simp add: deadline_def split_beta)
  then show "item s' a = (value_of s' a, None)"
    using t by (simp add: item_def s'_def)
qed

text \<open>Creating a key: the new entry goes into the hashtable of the connection.\<close>

lemma db_insert_ok:
  assumes "db_inv s db" "view s db key = None" "keeps s s' {a}" "a \<notin> objs db" "s_entry s' a \<noteq> None" "ekey s' a = key"
  shows "\<exists>db'. hm_insert db \<lparr>hcode = str_hash key, hobj = a\<rparr> = Some db' \<and> db_inv s' db' \<and> objs db' = insert a (objs db)
    \<and> view s' db' = (view s db)(key \<mapsto> item s' a) \<and> binds hobj (ekey s') (hm_nodes db') key a"
proof -
  note sm = view_same [OF assms(1,3)]
  have inv': "db_inv s' db" and v: "view s' db = view s db"
    using sm assms(4) by auto
  have k: "hm_ok db" "keyed hcode hobj (ekey s') (hm_nodes db)"
    using inv' by (simp_all add: db_inv_def)
  have none: "\<not> binds hobj (ekey s') (hm_nodes db) key x" for x
    using view_None [OF inv', of key] v assms(2) by auto
  obtain db' where i: "hm_insert db \<lparr>hcode = str_hash key, hobj = a\<rparr> = Some db'" "hm_ok db'"
    "hm_nodes db' = add_mset \<lparr>hcode = str_hash key, hobj = a\<rparr> (hm_nodes db)"
    using hm.ins_law [OF k(1)] by blast
  have "keyed hcode hobj (ekey s') (hm_nodes db')"
    unfolding i(3) by (rule keyed_add [OF k(2)]) (simp_all add: assms(6) none)
  then have inv2: "db_inv s' db'"
    using i(2,3) inv' assms(5) by (auto simp: db_inv_def objs_def)
  have b: "binds hobj (ekey s') (hm_nodes db') q x \<longleftrightarrow> binds hobj (ekey s') (hm_nodes db) q x \<or> (x = a \<and> q = key)" for q x
    unfolding i(3) using assms(6) by (auto simp: binds_def)
  have "view s' db' q = ((view s db)(key \<mapsto> item s' a)) q" for q
  proof (cases "q = key")
    case True
    then show ?thesis
      using view_Some [OF inv2, of key "item s' a"] b by auto
  next
    case False
    have "view s' db' q = view s' db q"
      by (rule option_ext) (use False in \<open>simp add: view_Some [OF inv2] view_Some [OF inv'] b\<close>)
    then show ?thesis
      using False v by simp
  qed
  moreover have "objs db' = insert a (objs db)"
    by (simp add: objs_def i(3))
  ultimately show ?thesis
    using i(1) inv2 b by blast
qed

text \<open>Removing a node from the hashtable of the connection, and the node found under a key.\<close>

lemma db_remove_ok:
  assumes "db_inv s db" "hm_ok db'" "hm_nodes db = add_mset n (hm_nodes db')"
  shows "db_inv s db'" "view s db' = (view s db)(ekey s (hobj n) := None)" "objs db' = objs db - {hobj n}"
proof -
  have d: "keyed hcode hobj (ekey s) (add_mset n (hm_nodes db'))"
    using assms(1,3) by (simp add: db_inv_def)
  note k' = keyed_remove [OF d] and b' = keyed_remove_binds [OF d]
  show inv': "db_inv s db'"
    using assms k' by (auto simp: db_inv_def objs_def)
  have "view s db' q = ((view s db)(ekey s (hobj n) := None)) q" for q
    by (rule option_ext) (auto simp: view_Some [OF inv'] view_Some [OF assms(1)] b' assms(3))
  then show "view s db' = (view s db)(ekey s (hobj n) := None)" ..
  have "hobj n \<notin> objs db'"
    using b' [of "ekey s (hobj n)" "hobj n"] by (auto simp: binds_iff)
  then show "objs db' = objs db - {hobj n}"
    using assms(3) by (auto simp: objs_def)
qed

lemma db_delete_ok:
  assumes "db_inv s db"
  shows "\<exists>db' p. hm_delete db (str_hash key) (entry_eq s key) = Some (db', p) \<and> db_inv s db' \<and> objs db' \<subseteq> objs db
    \<and> view s db' = (view s db)(key := None) \<and> found s db key (map_option hobj p)
    \<and> (\<forall>n. p = Some n \<longrightarrow> hobj n \<notin> objs db')"
proof -
  have d: "hm_ok db" "keyed hcode hobj (ekey s) (hm_nodes db)"
    using assms by (simp_all add: db_inv_def)
  obtain db' p where l: "hm_delete db (str_hash key) (\<lambda>a. ekey s a = key) = Some (db', p)" "hm_ok db'"
    "case p of None \<Rightarrow> hm_nodes db' = hm_nodes db \<and> (\<forall>n \<in># hm_nodes db. \<not> (hcode n = str_hash key \<and> ekey s (hobj n) = key))
     | Some n \<Rightarrow> hm_nodes db = add_mset n (hm_nodes db') \<and> hcode n = str_hash key \<and> ekey s (hobj n) = key"
    using hm.del_law [OF d(1), of "str_hash key" "\<lambda>a. ekey s a = key"] by (elim exE conjE) (rule that; assumption)
  show ?thesis
  proof (cases p)
    case None
    then have "\<not> binds hobj (ekey s) (hm_nodes db) key a" for a
      using l(3) d(2) by (auto simp: binds_def keyed_def)
    then have v: "view s db key = None" "found s db key None"
      using view_None [OF assms] by (auto simp: found_def)
    have n: "hm_nodes db' = hm_nodes db"
      using l(3) None by simp
    have "(view s db)(key := None) = view s db"
      using v(1) by (simp add: fun_upd_idem)
    then show ?thesis
      using l(1) None v(2) db_inv_nodes [OF assms l(2) n] view_nodes [OF assms l(2) n] entry_eq_cong(2) [OF assms] n
      by (simp add: objs_def)
  next
    case (Some n)
    then have n: "hm_nodes db = add_mset n (hm_nodes db')" "ekey s (hobj n) = key"
      using l(3) by simp_all
    note rm = db_remove_ok [OF assms l(2) n(1)]
    have b: "binds hobj (ekey s) (hm_nodes db) key (hobj n)"
      using n by (auto simp: binds_def)
    have "found s db key (Some (hobj n))"
      using b view_Some [OF assms, of key "item s (hobj n)"] binds_objs [OF b] assms by (auto simp: found_def db_inv_def)
    then show ?thesis
      using l(1) Some rm n(2) entry_eq_cong(2) [OF assms] by auto
  qed
qed

section \<open>Changing one sorted set\<close>

lemma budget_frame:
  assumes "budget n m zs t" "same_memory m m' A" "members zs \<inter> A = {}" "unused m'"
  shows "budget n m' zs t" "zcontent m' zs = zcontent m zs"
proof -
  have z: "zset_inv m zs t" "set (nodes t) \<inter> A = {}"
    using assms(1,3) members_nodes [of m zs t] by (auto simp: budget_def)
  note z' = zset_inv_frame [OF z(1) assms(2) z(2)]
  show "budget n m' zs t"
    using z' assms(1,4) by (simp add: budget_def)
  show "zcontent m' zs = zcontent m zs"
    using content_frame [OF assms(2) z(2)] zcontent_content [OF z(1)] zcontent_content [OF z'] by simp
qed

lemma entry_ok_frame:
  assumes "entry_ok n m e" "same_memory m m' A" "members (e_zset e) \<inter> A = {}" "unused m'"
  shows "entry_ok n m' e" "zcontent m' (e_zset e) = zcontent m (e_zset e)"
  using assms budget_frame [OF _ assms(2-4)] unfolding entry_ok_def by blast+

text \<open>The memory changes inside \<open>A\<close>, which only the entry \<open>a\<close> uses, and that entry becomes \<open>x\<close>.\<close>

lemma store_set_ok:
  assumes inv: "store_inv n s" "n \<le> N" "s_entry s a \<noteq> None"
    and m: "same_memory (s_zmem s) m' A" "unused m'"
      "\<And>b e. b \<noteq> a \<Longrightarrow> s_entry s b = Some e \<Longrightarrow> members (e_zset e) \<inter> A = {}"
    and x: "\<And>e. x = Some e \<Longrightarrow> entry_ok N m' e \<and> members (e_zset e) \<subseteq> A"
    and h: "timers_ok h" "length (fst h) \<le> N" "dom (snd h) = dom ((s_entry s)(a := x))"
      "\<And>b. b \<noteq> a \<Longrightarrow> deadline h b = deadline (s_timers s) b"
  shows "store_inv N (s\<lparr>s_zmem := m', s_entry := (s_entry s)(a := x), s_timers := h\<rparr>)"
    "keeps s (s\<lparr>s_zmem := m', s_entry := (s_entry s)(a := x), s_timers := h\<rparr>) {a}"
proof -
  let ?s = "s\<lparr>s_zmem := m', s_entry := (s_entry s)(a := x), s_timers := h\<rparr>"
  have i: "\<forall>b \<ge> s_next s. s_entry s b = None" "\<And>b e. s_entry s b = Some e \<Longrightarrow> entry_ok n (s_zmem s) e"
    "\<And>b c eb ec. s_entry s b = Some eb \<Longrightarrow> s_entry s c = Some ec \<Longrightarrow> b \<noteq> c \<Longrightarrow> members (e_zset eb) \<inter> members (e_zset ec) = {}"
    using inv(1) by (simp_all add: store_inv_def)
  have a: "a < s_next s"
    using i(1) inv(3) by (auto simp: not_le [symmetric])
  have other: "entry_ok n m' e \<and> zcontent m' (e_zset e) = zcontent (s_zmem s) (e_zset e)" if "b \<noteq> a" "s_entry s b = Some e" for b e
    using entry_ok_frame [OF i(2) [OF that(2)] m(1) m(3) [OF that] m(2)] by blast
  have "entry_ok N m' e" if "((s_entry s)(a := x)) b = Some e" for b e
    using that other [of b e] x [of e] entry_ok_mono [OF _ inv(2)] by (auto split: if_splits)
  moreover have "members (e_zset eb) \<inter> members (e_zset ec) = {}"
    if "((s_entry s)(a := x)) b = Some eb" "((s_entry s)(a := x)) c = Some ec" "b \<noteq> c" for b c eb ec
    using that x [of eb] x [of ec] m(3) [of b eb] m(3) [of c ec] i(3) [of b eb c ec]
    by (cases "b = a"; cases "c = a") (auto split: if_splits)
  ultimately show "store_inv N ?s"
    using a h(1-3) m(2) i(1) by (simp add: store_inv_def)
  show "keeps s ?s {a}"
    using other h(4) by (intro keepsI) auto
qed

section \<open>Freeing an entry\<close>

lemma timers_drop:
  assumes "timers_ok h" "deadline h a = None"
  shows "timers_ok (fst h, (snd h)(a := None)) \<and> (\<forall>b. deadline (fst h, (snd h)(a := None)) b = deadline h b)"
proof -
  obtain xs idx where h: "h = (xs, idx)" by (cases h)
  have t: "idx_ok xs idx" "length xs < npos" "heap_ord xs" "\<forall>x \<in> set xs. hi_ref x \<noteq> None"
    "\<forall>r i. idx r = Some i \<and> r \<notin> refs xs \<longrightarrow> i = npos"
    using assms(1) by (auto simp: timers_ok_def h)
  have "a \<notin> refs xs"
    using assms deadline_None_iff [of xs idx a] by (simp add: h)
  then have "idx_ok xs (idx(a := None))"
    using t(1) by (auto simp: idx_ok_def notin_refs_iff)
  moreover have "deadline (xs, idx(a := None)) b = deadline (xs, idx) b" for b
    using assms(2) by (simp add: h deadline_def)
  ultimately show ?thesis
    using t by (auto simp: timers_ok_def h)
qed

lemma zset_clear_memory:
  assumes "zset_inv m zs t" "unused m"
  shows "\<exists>m'. zset_clear m zs = Some (m', empty_zset) \<and> same_memory m m' (members zs) \<and> unused m'"
  using zset_clear_ok [OF assms(1)] assms(2) members_nodes [OF assms(1)]
  by (auto simp: same_memory_def unused_def restrict_map_def)

lemma entry_del_sync_ok:
  assumes "store_inv n s" "s_entry s a = Some e" "deadline (s_timers s) a = None"
  shows "\<exists>s'. entry_del_sync a s = Some s' \<and> store_inv n s' \<and> keeps s s' {a} \<and> s_entry s' = (s_entry s)(a := None)
    \<and> s_next s' = s_next s \<and> s_jobs s' = s_jobs s"
proof -
  have i: "timers_ok (s_timers s)" "length (fst (s_timers s)) \<le> n" "dom (snd (s_timers s)) = dom (s_entry s)" "unused (s_zmem s)"
    "entry_ok n (s_zmem s) e"
    "\<And>b eb. b \<noteq> a \<Longrightarrow> s_entry s b = Some eb \<Longrightarrow> members (e_zset eb) \<inter> members (e_zset e) = {}"
    using assms(1,2) unfolding store_inv_def by blast+
  note t = timers_drop [OF i(1) assms(3)]
  obtain tr where tr: "zset_inv (s_zmem s) (e_zset e) tr"
    using i(5) by (auto simp: entry_ok_def budget_def)
  obtain m' where m': "zset_clear (s_zmem s) (e_zset e) = Some (m', empty_zset)"
    "same_memory (s_zmem s) m' (members (e_zset e))" "unused m'"
    using zset_clear_memory [OF tr i(4)] by blast
  let ?m = "if e_type e = T_ZSET then m' else s_zmem s"
  let ?s = "s\<lparr>s_zmem := ?m, s_entry := (s_entry s)(a := None), s_timers := (fst (s_timers s), (snd (s_timers s))(a := None))\<rparr>"
  have m: "same_memory (s_zmem s) ?m (members (e_zset e))" "unused ?m"
    using m' i(4) by auto
  have "store_inv n ?s" "keeps s ?s {a}"
    by (rule store_set_ok [OF assms(1) _ _ m i(6)]; use assms(2) i(2,3) t in auto)+
  moreover have "entry_del_sync a s = Some ?s"
    using assms(2) m'(1) by (simp add: entry_del_sync_def upd_entry_def)
  ultimately show ?thesis
    by (intro exI [of _ ?s]) simp
qed

lemma entry_del_ok:
  assumes "store_inv n s" "s_entry s a = Some e" "n + 1 < npos"
  shows "\<exists>s'. entry_del now a s = Some s' \<and> store_inv n s' \<and> keeps s s' {a} \<and> s_next s' = s_next s
    \<and> (if e_type e = T_ZSET \<and> hm_size (zs_hmap (e_zset e)) > k_large_container_size
       then s_entry s' = s_entry s \<and> s_jobs s' = s_jobs s @ [a]
       else s_entry s' = (s_entry s)(a := None) \<and> s_jobs s' = s_jobs s)"
proof -
  obtain s1 where s1: "set_ttl now a (- 1) s = Some s1" "store_inv n s1" "keeps s s1 {a}" "s_entry s1 = s_entry s"
    "s_next s1 = s_next s" "s_jobs s1 = s_jobs s" "deadline (s_timers s1) a = None"
    using set_ttl_ok [OF assms(1) _ assms(3), of a now "- 1"] assms(2) by auto
  obtain s2 where s2: "entry_del_sync a s1 = Some s2" "store_inv n s2" "keeps s1 s2 {a}" "s_entry s2 = (s_entry s)(a := None)"
    "s_next s2 = s_next s" "s_jobs s2 = s_jobs s"
    using entry_del_sync_ok [OF s1(2) _ s1(7), of e] assms(2) s1(4-6) by auto
  let ?big = "e_type e = T_ZSET \<and> hm_size (zs_hmap (e_zset e)) > k_large_container_size"
  let ?q = "s1\<lparr>s_jobs := s_jobs s @ [a]\<rparr>"
  have big: "(if e_type e = T_ZSET then hm_size (zs_hmap (e_zset e)) else 0) > k_large_container_size \<longleftrightarrow> ?big"
    by simp
  have "store_inv n ?q" "keeps s1 ?q {a}"
    using s1(2) by (auto simp: store_inv_def intro: keepsI)
  then show ?thesis
    using s1 s2 assms(2) keeps_trans [OF s1(3)] big
    by (cases ?big) (auto simp: entry_del_def thread_pool_queue_def queue_push_def Let_def)
qed

section \<open>Running a sorted set operation on an entry\<close>

lemma run_zset_ok:
  assumes "store_inv n s" "s_entry s a = Some e" "e_type e = T_ZSET" "budget n (s_zmem s) (e_zset e) t"
    and f: "f (s_zmem s) (e_zset e) = Some (m', zs', r)" "zset_step (4 * n * n) (s_zmem s) t m' zs' t'"
  shows "\<exists>s'. run_zset a f s = Some (s', r) \<and> store_inv (Suc n) s' \<and> keeps s s' {a} \<and> s_entry s' a \<noteq> None
    \<and> ekey s' a = ekey s a \<and> s_next s' = s_next s \<and> s_zmem s' = m'
    \<and> item s' a = (VSet (content m' t'), deadline (s_timers s) a)"
proof -
  let ?m = "s_zmem s"
  let ?A = "insert (z_next ?m) (set (nodes t))"
  let ?s = "s\<lparr>s_zmem := m', s_entry := (s_entry s)(a := Some (e\<lparr>e_zset := zs'\<rparr>)), s_timers := s_timers s\<rparr>"
  have i: "timers_ok (s_timers s)" "length (fst (s_timers s)) \<le> n" "dom (snd (s_timers s)) = dom (s_entry s)" "unused ?m"
    "\<And>b eb. s_entry s b = Some eb \<Longrightarrow> entry_ok n ?m eb"
    "\<And>b eb. b \<noteq> a \<Longrightarrow> s_entry s b = Some eb \<Longrightarrow> members (e_zset eb) \<inter> members (e_zset e) = {}"
    using assms(1,2) unfolding store_inv_def by blast+
  have mem: "members (e_zset e) = set (nodes t)"
    using members_nodes assms(4) by (auto simp: budget_def)
  have disj: "members (e_zset eb) \<inter> ?A = {}" if b: "b \<noteq> a" "s_entry s b = Some eb" for b eb
  proof -
    obtain tb where tb: "zset_inv ?m (e_zset eb) tb"
      using i(5) [OF b(2)] by (auto simp: entry_ok_def budget_def)
    have "z_next ?m \<notin> set (nodes tb)"
      using tb i(4) by (auto simp: zset_inv_def live_node_def unused_def)
    then show ?thesis
      using i(6) [OF b] members_nodes [OF tb] mem by auto
  qed
  have st: "same_memory ?m m' ?A" "unused m'" "zset_inv m' zs' t'" "set (nodes t') \<subseteq> ?A"
    using f(2) by (auto simp: zset_step_def)
  have b': "budget (Suc n) m' zs' t'"
    by (rule budget_step [OF assms(4) f(2)])
  have x: "entry_ok (Suc n) m' (e\<lparr>e_zset := zs'\<rparr>)" "members zs' \<subseteq> ?A"
    using b' assms(3) st(4) members_nodes [OF st(3)] by (auto simp: entry_ok_def)
  have "insert a (dom (s_entry s)) = dom (s_entry s)"
    using assms(2) by blast
  then have "store_inv (Suc n) ?s" "keeps s ?s {a}"
    by (intro store_set_ok [OF assms(1), where N = "Suc n", OF _ _ st(1,2) disj]; use assms(2) i(1-3) x in auto)+
  moreover have "run_zset a f s = Some (?s, r)"
    using assms(2) f(1) by (simp add: run_zset_def)
  moreover have "ekey ?s a = ekey s a" "item ?s a = (VSet (content m' t'), deadline (s_timers s) a)"
    using assms(2,3) zcontent_content [OF st(3)] by (simp_all add: ekey_def item_def value_of_def)
  ultimately show ?thesis
    by (intro exI [of _ ?s]) simp
qed

end
