(* ===== verification/ServerProps.thy ===== *)
theory ServerProps
  imports ServerOk
begin

text \<open>
  The specification of the commands on the map of a connection: a function for the effect, and the
  reply that goes with it. The theorem is that \<open>do_request\<close> of server.cpp computes them.
\<close>

section \<open>Specification\<close>

type_synonym kv = "bytes \<rightharpoonup> val \<times> u64 option"

definition spec_get :: "bytes \<Rightarrow> kv \<Rightarrow> kv \<times> reply" where
  "spec_get key f =
     (f, case f key of
           None \<Rightarrow> RNil
         | Some (VStr v, d) \<Rightarrow> RStr v
         | Some (VSet z, d) \<Rightarrow> RErr ERR_BAD_TYP (lit ''not a string value''))"

text \<open>SET on an existing string keeps its deadline.\<close>

definition spec_set :: "bytes \<Rightarrow> bytes \<Rightarrow> kv \<Rightarrow> kv \<times> reply" where
  "spec_set key v f =
     (case f key of
        None \<Rightarrow> (f(key \<mapsto> (VStr v, None)), RStr (lit ''1''))
      | Some (VStr w, d) \<Rightarrow> (f(key \<mapsto> (VStr v, d)), RStr (lit ''1''))
      | Some (VSet z, d) \<Rightarrow> (f, RErr ERR_BAD_TYP (lit ''a non-string value exists'')))"

definition spec_del :: "bytes \<Rightarrow> kv \<Rightarrow> kv \<times> reply" where
  "spec_del key f = (f(key := None), RStr (if f key = None then lit ''0'' else lit ''1''))"

definition spec_expire :: "u64 \<Rightarrow> bytes \<Rightarrow> bytes \<Rightarrow> kv \<Rightarrow> kv \<times> reply" where
  "spec_expire now key ttl f =
     (case str2int ttl of
        None \<Rightarrow> (f, RErr ERR_BAD_ARG (lit ''expect int64''))
      | Some t \<Rightarrow>
          (case f key of
             None \<Rightarrow> (f, RInt 0)
           | Some (v, d) \<Rightarrow> (f(key \<mapsto> (v, if t < 0 then None else Some (now + of_int t))), RInt 1)))"

definition spec_ttl :: "u64 \<Rightarrow> bytes \<Rightarrow> kv \<Rightarrow> kv \<times> reply" where
  "spec_ttl now key f =
     (f, case f key of
           None \<Rightarrow> RInt (- 2)
         | Some (v, None) \<Rightarrow> RInt (- 1)
         | Some (v, Some d) \<Rightarrow> RInt (if d > now then d - now else 0))"

definition spec_zadd :: "bytes \<Rightarrow> bytes \<Rightarrow> bytes \<Rightarrow> kv \<Rightarrow> kv \<times> reply" where
  "spec_zadd key score name f =
     (case str2dbl score of
        None \<Rightarrow> (f, RErr ERR_BAD_ARG (lit ''expect float''))
      | Some x \<Rightarrow>
          (case f key of
             None \<Rightarrow> (f(key \<mapsto> (VSet [name \<mapsto> x], None)), RInt 1)
           | Some (VStr v, d) \<Rightarrow> (f, RErr ERR_BAD_TYP (lit ''expect zset''))
           | Some (VSet z, d) \<Rightarrow>
               (f(key \<mapsto> (VSet (zop_spec (ZAdd name x) z), d)), RInt (if z name = None then 1 else 0))))"

definition spec_zrem :: "bytes \<Rightarrow> bytes \<Rightarrow> kv \<Rightarrow> kv \<times> reply" where
  "spec_zrem key name f =
     (case f key of
        None \<Rightarrow> (f, RInt 0)
      | Some (VStr v, d) \<Rightarrow> (f, RErr ERR_BAD_TYP (lit ''expect zset''))
      | Some (VSet z, d) \<Rightarrow> (f(key \<mapsto> (VSet (z(name := None)), d)), RInt (if z name = None then 0 else 1)))"

definition spec_zscore :: "bytes \<Rightarrow> bytes \<Rightarrow> kv \<Rightarrow> kv \<times> reply" where
  "spec_zscore key name f =
     (f, case f key of
           None \<Rightarrow> RNil
         | Some (VStr v, d) \<Rightarrow> RErr ERR_BAD_TYP (lit ''expect zset'')
         | Some (VSet z, d) \<Rightarrow> (case z name of None \<Rightarrow> RNil | Some x \<Rightarrow> RDbl x))"

text \<open>The case of \<open>zset_delete\<close> that leaves a dangling root.\<close>

definition removes_last :: "bytes \<Rightarrow> bytes \<Rightarrow> kv \<Rightarrow> bool" where
  "removes_last key name f \<longleftrightarrow> (\<exists>z d. f key = Some (VSet z, d) \<and> dom z = {name})"

text \<open>The replies of ZQUERY that need no walk along the tree: errors and empty arrays.\<close>

definition spec_zquery :: "bytes \<Rightarrow> bytes \<Rightarrow> bytes \<Rightarrow> bytes \<Rightarrow> kv \<Rightarrow> kv \<times> reply" where
  "spec_zquery key score offset limit f =
     (f, if str2dbl score = None then RErr ERR_BAD_ARG (lit ''expect fp number'')
         else if str2int offset = None \<or> str2int limit = None then RErr ERR_BAD_ARG (lit ''expect int'')
         else (case f key of
                 Some (VStr v, d) \<Rightarrow> RErr ERR_BAD_TYP (lit ''expect zset'')
               | _ \<Rightarrow> RArr []))"

definition walks :: "bytes \<Rightarrow> bytes \<Rightarrow> bytes \<Rightarrow> bytes \<Rightarrow> kv \<Rightarrow> bool" where
  "walks key score offset limit f \<longleftrightarrow> str2dbl score \<noteq> None \<and> str2int offset \<noteq> None
     \<and> (\<exists>l. str2int limit = Some l \<and> 0 < l) \<and> (\<exists>z d. f key = Some (VSet z, d))"

text \<open>The effect of every command, with the reply of all but KEYS.\<close>

definition spec :: "u64 \<Rightarrow> bytes list \<Rightarrow> kv \<Rightarrow> kv \<times> reply" where
  "spec now cmd f =
     (if is_cmd cmd 2 ''get'' then spec_get (cmd ! 1) f
      else if is_cmd cmd 3 ''set'' then spec_set (cmd ! 1) (cmd ! 2) f
      else if is_cmd cmd 2 ''del'' then spec_del (cmd ! 1) f
      else if is_cmd cmd 3 ''pexpire'' then spec_expire now (cmd ! 1) (cmd ! 2) f
      else if is_cmd cmd 2 ''pttl'' then spec_ttl now (cmd ! 1) f
      else if is_cmd cmd 4 ''zadd'' then spec_zadd (cmd ! 1) (cmd ! 2) (cmd ! 3) f
      else if is_cmd cmd 3 ''zrem'' then spec_zrem (cmd ! 1) (cmd ! 2) f
      else if is_cmd cmd 3 ''zscore'' then spec_zscore (cmd ! 1) (cmd ! 2) f
      else if is_cmd cmd 6 ''zquery'' then spec_zquery (cmd ! 1) (cmd ! 2) (cmd ! 4) (cmd ! 5) f
      else if is_cmd cmd 1 ''quit'' then (f, RStr (lit ''BYE''))
      else (f, RErr ERR_UNKNOWN (lit ''Unknown command.'')))"

definition in_spec :: "bytes list \<Rightarrow> kv \<Rightarrow> bool" where
  "in_spec cmd f \<longleftrightarrow> \<not> (is_cmd cmd 6 ''zquery'' \<and> walks (cmd ! 1) (cmd ! 2) (cmd ! 4) (cmd ! 5) f)
     \<and> \<not> (is_cmd cmd 3 ''zrem'' \<and> removes_last (cmd ! 1) (cmd ! 2) f)"

text \<open>The keys come in an order that the map does not have, each once.\<close>

fun key_list :: "kv \<Rightarrow> reply \<Rightarrow> bool" where
  "key_list f (RArr rs) \<longleftrightarrow> (\<exists>ks. rs = map RStr ks \<and> distinct ks \<and> set ks = dom f)"
| "key_list f r \<longleftrightarrow> False"

lemma key_list_single: "key_list [k \<mapsto> x] r \<longleftrightarrow> r = RArr [RStr k]"
proof (cases r)
  case (RArr rs)
  have "(distinct ks \<and> set ks = {k}) = (ks = [k])" for ks
    by (cases ks) (auto simp: subset_singleton_iff)
  then show ?thesis
    by (auto simp: RArr)
qed simp_all

definition effect :: "u64 \<Rightarrow> bytes list \<Rightarrow> kv \<Rightarrow> kv" where
  "effect now cmd f = (if is_cmd cmd 1 ''keys'' then f else fst (spec now cmd f))"

definition answer :: "u64 \<Rightarrow> bytes list \<Rightarrow> kv \<Rightarrow> reply \<Rightarrow> bool" where
  "answer now cmd f r \<longleftrightarrow> (if is_cmd cmd 1 ''keys'' then key_list f r else r = snd (spec now cmd f))"

section \<open>Each command\<close>

text \<open>A command run on a good state makes the move of the specification and appends its reply.\<close>

definition obeys :: "nat \<Rightarrow> store \<Rightarrow> db \<Rightarrow> bytes \<Rightarrow> (store \<times> db \<times> bytes) option \<Rightarrow> kv \<times> reply \<Rightarrow> bool" where
  "obeys n s db out run sp \<longleftrightarrow>
     (\<exists>s' db'. run = Some (s', db', out @ encode (snd sp)) \<and> moves n s db s' db' (fst sp))"

lemma obeysI:
  "run = Some (s', db', out') \<Longrightarrow> out' = out @ encode (snd sp) \<Longrightarrow> moves n s db s' db' (fst sp) \<Longrightarrow> obeys n s db out run sp"
  by (auto simp: obeys_def)

lemma arg_simp: "i < length cmd \<Longrightarrow> arg cmd i = Some (cmd ! i)"
  by (simp add: arg_def)

lemma value_cases:
  assumes "store_inv n s" "s_entry s a = Some e"
  obtains "e_type e = T_STR" "item s a = (VStr (e_str e), deadline (s_timers s) a)"
  | "e_type e = T_ZSET" "item s a = (VSet (zcontent (s_zmem s) (e_zset e)), deadline (s_timers s) a)"
proof -
  have "e_type e = T_STR \<or> e_type e = T_ZSET"
    using assms by (cases "e_type e") (auto simp: store_inv_def entry_ok_def)
  then show thesis
    using that assms(2) by (auto simp: item_def value_of_def)
qed

text \<open>The lookup that starts a command: the key is absent, holds a string, or holds a sorted set.\<close>

lemma lookup_cases [consumes 2, case_names Absent Str Set]:
  assumes "store_inv n s" "db_inv s db"
  obtains
    db' where "db_lookup s db key = Some (db', None)" "db_inv s db'" "view s db' = view s db" "objs db' = objs db"
      "moves n s db s db' (view s db)" "view s db key = None"
  | db' a e where "db_lookup s db key = Some (db', Some a)" "db_inv s db'" "view s db' = view s db" "objs db' = objs db"
      "moves n s db s db' (view s db)" "s_entry s a = Some e" "e_type e = T_STR" "binds hobj (ekey s) (hm_nodes db') key a"
      "item s a = (VStr (e_str e), deadline (s_timers s) a)" "view s db key = Some (VStr (e_str e), deadline (s_timers s) a)"
  | db' a e t where "db_lookup s db key = Some (db', Some a)" "db_inv s db'" "view s db' = view s db" "objs db' = objs db"
      "moves n s db s db' (view s db)" "s_entry s a = Some e" "e_type e = T_ZSET" "binds hobj (ekey s) (hm_nodes db') key a"
      "item s a = (VSet (content (s_zmem s) t), deadline (s_timers s) a)" "budget n (s_zmem s) (e_zset e) t"
      "view s db key = Some (VSet (content (s_zmem s) t), deadline (s_timers s) a)"
proof -
  obtain db' p where l: "db_lookup s db key = Some (db', p)" "db_inv s db'" "view s db' = view s db" "objs db' = objs db"
    "found s db' key p"
    using db_lookup_ok [OF assms(2)] by blast
  have mv: "moves n s db s db' (view s db)"
    using moves_same [OF assms(1) l(2,4)] l(3) by simp
  show thesis
  proof (cases p)
    case None
    then show thesis
      using l mv that(1) by (simp add: found_def)
  next
    case (Some a)
    then obtain e where e: "s_entry s a = Some e" "view s db key = Some (item s a)" "binds hobj (ekey s) (hm_nodes db') key a"
      using l(3,5) by (auto simp: found_def)
    obtain t where t: "budget n (s_zmem s) (e_zset e) t"
      using assms(1) e(1) unfolding store_inv_def entry_ok_def by blast
    then have "zcontent (s_zmem s) (e_zset e) = content (s_zmem s) t"
      using zcontent_content by (auto simp: budget_def)
    note z = this
    from assms(1) e(1) show thesis
    proof (cases rule: value_cases)
      case 1
      show thesis
        by (rule that(2) [of db' a e]) (use l(1-4) mv Some e 1 in simp_all)
    next
      case 2
      show thesis
        by (rule that(3) [of db' a e t]) (use l(1-4) mv Some e 2 t z in simp_all)
    qed
  qed
qed

lemma do_get_ok:
  assumes inv: "store_inv n s" "db_inv s db" and len: "1 < length cmd"
  shows "obeys n s db out (do_get cmd out s db) (spec_get (cmd ! 1) (view s db))"
  using inv len
  by (cases rule: lookup_cases [where key = "cmd ! 1"]; intro obeysI)
    (auto simp: do_get_def arg_simp spec_get_def out_encode)

definition blank_entry :: "entry_type \<Rightarrow> addr \<Rightarrow> entry" where
  "blank_entry ty conn = \<lparr>e_hcode = 0, e_key = [], e_type = ty, e_str = [], e_val = [], e_zset = empty_zset, e_owner = Some conn\<rparr>"

definition with_entry :: "store \<Rightarrow> entry \<Rightarrow> store" where
  "with_entry s e = s\<lparr>s_next := s_next s + 1, s_entry := (s_entry s)(s_next s \<mapsto> e),
     s_timers := (fst (s_timers s), (snd (s_timers s))(s_next s \<mapsto> npos))\<rparr>"

lemma entry_new_run:
  "\<exists>s1. entry_new s ty conn = (s1, s_next s)
    \<and> (\<forall>g. upd_entry (s_next s) g s1 = Some (with_entry s (g (blank_entry ty conn))))"
  by (simp add: entry_new_def upd_entry_def with_entry_def blank_entry_def Let_def)

lemma create_ok:
  assumes inv: "store_inv n s" "db_inv s db" and none: "view s db key = None"
    and e: "e_key e = key" "e_zset e = empty_zset" "e_type e \<noteq> T_INIT"
  shows "\<exists>db'. hm_insert db \<lparr>hcode = str_hash key, hobj = s_next s\<rparr> = Some db' \<and> store_inv n (with_entry s e) \<and> db_inv (with_entry s e) db'
    \<and> objs db' = insert (s_next s) (objs db) \<and> binds hobj (ekey (with_entry s e)) (hm_nodes db') key (s_next s)
    \<and> view (with_entry s e) db' = (view s db)(key \<mapsto> (value_of (with_entry s e) (s_next s), None))
    \<and> keeps s (with_entry s e) {s_next s}"
proof -
  let ?a = "s_next s" and ?s = "with_entry s e"
  note nw = entry_new_ok [OF inv(1) e(2,3), folded with_entry_def]
  have "?a \<notin> objs db"
    using inv by (auto simp: db_inv_def store_inv_def)
  moreover have "s_entry ?s ?a \<noteq> None" "ekey ?s ?a = key"
    using e(1) by (simp_all add: with_entry_def ekey_def)
  ultimately show ?thesis
    using db_insert_ok [OF inv(2) none nw(2)] nw by auto
qed

lemma create_moves:
  assumes "store_inv n s" "db_inv s db'" "objs db' = objs db" "view s db' key = None"
    and "e_key e = key" "e_zset e = empty_zset" "e_type e \<noteq> T_INIT"
  shows "\<exists>db2. hm_insert db' \<lparr>hcode = str_hash key, hobj = s_next s\<rparr> = Some db2
    \<and> moves n s db (with_entry s e) db2 ((view s db')(key \<mapsto> (value_of (with_entry s e) (s_next s), None)))"
proof -
  let ?s = "with_entry s e"
  obtain db2 where c: "hm_insert db' \<lparr>hcode = str_hash key, hobj = s_next s\<rparr> = Some db2" "store_inv n ?s" "db_inv ?s db2"
    "objs db2 = insert (s_next s) (objs db')" "view ?s db2 = (view s db')(key \<mapsto> (value_of ?s (s_next s), None))"
    "keeps s ?s {s_next s}"
    using create_ok [OF assms(1,2,4-7)] by blast
  have "keeps s ?s (objs db \<union> {s_next s ..})"
    by (rule keeps_mono [OF c(6)]) simp
  moreover have "s_next ?s = Suc (s_next s)"
    by (simp add: with_entry_def)
  ultimately show ?thesis
    using c(1,3-5) assms(3) store_inv_mono [OF c(2)] by (auto simp: moves_def)
qed

lemma do_set_ok:
  assumes inv: "store_inv n s" "db_inv s db" and len: "2 < length cmd"
  shows "obeys n s db out (do_set conn cmd out s db) (spec_set (cmd ! 1) (cmd ! 2) (view s db))"
  using inv
proof (cases rule: lookup_cases [where key = "cmd ! 1"])
  case (Absent db')
  let ?e = "(blank_entry T_STR conn)\<lparr>e_key := cmd ! 1, e_hcode := str_hash (cmd ! 1), e_type := T_STR, e_str := cmd ! 2\<rparr>"
  let ?s = "with_entry s ?e"
  have none: "view s db' (cmd ! 1) = None"
    using Absent by simp
  obtain db2 where c: "hm_insert db' \<lparr>hcode = str_hash (cmd ! 1), hobj = s_next s\<rparr> = Some db2"
    "moves n s db ?s db2 ((view s db)(cmd ! 1 \<mapsto> (value_of ?s (s_next s), None)))"
    using create_moves [OF inv(1) Absent(2,4) none, of ?e] Absent(3) by (auto simp: blank_entry_def)
  have "value_of ?s (s_next s) = VStr (cmd ! 2)"
    by (simp add: value_of_def with_entry_def)
  moreover have "do_set conn cmd out s db = Some (?s, db2, out_str out (lit ''1''))"
    using Absent(1) len c(1) entry_new_run [of s T_STR conn] by (auto simp: do_set_def arg_simp Let_def)
  ultimately show ?thesis
    using Absent(6) c(2) by (intro obeysI) (auto simp: spec_set_def out_encode)
next
  case (Str db' a e)
  obtain s' where s': "upd_entry a (\<lambda>e. e\<lparr>e_str := cmd ! 2\<rparr>) s = Some s'" "store_inv n s'" "keeps s s' {a}" "s_entry s' a \<noteq> None"
    "ekey s' a = ekey s a" "s_next s' = s_next s" "item s' a = (VStr (cmd ! 2), deadline (s_timers s) a)"
    using upd_str_ok [OF inv(1) Str(6,7)] by blast
  have "moves n s db s' db' ((view s db)(cmd ! 1 \<mapsto> item s' a))"
    using moves_one [OF store_inv_mono [OF s'(2)] Str(2,4,8) s'(3-6)] Str(3) by simp
  then show ?thesis
    using Str s'(1,7) len by (intro obeysI) (auto simp: do_set_def arg_simp spec_set_def out_encode)
next
  case (Set db' a e t)
  then show ?thesis
    using len by (intro obeysI) (auto simp: do_set_def arg_simp spec_set_def out_encode)
qed

lemma do_del_ok:
  assumes inv: "store_inv n s" "db_inv s db" and len: "1 < length cmd" and n: "n + 1 < npos"
  shows "obeys n s db out (do_del now cmd out s db) (spec_del (cmd ! 1) (view s db))"
proof -
  obtain db' p where l: "hm_delete db (str_hash (cmd ! 1)) (entry_eq s (cmd ! 1)) = Some (db', p)" "db_inv s db'"
    "objs db' \<subseteq> objs db" "view s db' = (view s db)(cmd ! 1 := None)" "found s db (cmd ! 1) (map_option hobj p)"
    "\<forall>n. p = Some n \<longrightarrow> hobj n \<notin> objs db'"
    using db_delete_ok [OF inv(2)] by blast
  show ?thesis
  proof (cases p)
    case None
    have "moves n s db s db' (view s db')"
      using l(2,3) store_inv_mono [OF inv(1)] by (auto simp: moves_def)
    then show ?thesis
      using l None len by (intro obeysI) (auto simp: do_del_def arg_simp spec_del_def out_encode found_def)
  next
    case (Some nd)
    let ?a = "hobj nd"
    obtain e where e: "s_entry s ?a = Some e" "view s db (cmd ! 1) \<noteq> None" "?a \<in> objs db"
      using l(5) Some by (auto simp: found_def binds_iff)
    obtain s' where s': "entry_del now ?a s = Some s'" "store_inv n s'" "keeps s s' {?a}" "s_next s' = s_next s"
      using entry_del_ok [OF inv(1) e(1) n] by blast
    have "db_inv s' db'" "view s' db' = view s db'"
      using view_same [OF l(2) s'(3)] l(6) Some by auto
    moreover have "keeps s s' (objs db \<union> {s_next s ..})"
      using e(3) by (intro keeps_mono [OF s'(3)]) auto
    ultimately have "moves n s db s' db' (view s db')"
      using l(3) s'(4) store_inv_mono [OF s'(2)] by (auto simp: moves_def)
    then show ?thesis
      using l s'(1) e Some len by (intro obeysI) (auto simp: do_del_def arg_simp spec_del_def out_encode)
  qed
qed

lemma do_expire_ok:
  assumes inv: "store_inv n s" "db_inv s db" and len: "2 < length cmd" and n: "n + 1 < npos"
  shows "obeys n s db out (do_expire now cmd out s db) (spec_expire now (cmd ! 1) (cmd ! 2) (view s db))"
proof (cases "str2int (cmd ! 2)")
  case None
  then show ?thesis
    using moves_same [OF inv refl] len by (intro obeysI) (auto simp: do_expire_def arg_simp spec_expire_def out_encode)
next
  case (Some ttl)
  let ?d = "if ttl < 0 then None else Some (now + of_int ttl)"
  have present: ?thesis
    if l: "db_lookup s db (cmd ! 1) = Some (db', Some a)" "db_inv s db'" "view s db' = view s db" "objs db' = objs db"
      "s_entry s a = Some e" "binds hobj (ekey s) (hm_nodes db') (cmd ! 1) a" "item s a = (v, d)" "view s db (cmd ! 1) = Some (v, d)"
    for db' a e v d
  proof -
    obtain s' where s': "set_ttl now a ttl s = Some s'" "store_inv (if ttl < 0 then n else Suc n) s'" "keeps s s' {a}"
      "s_entry s' = s_entry s" "s_next s' = s_next s" "s_zmem s' = s_zmem s"
      "deadline (s_timers s') = (deadline (s_timers s))(a := ?d)"
      using set_ttl_ok [OF inv(1) _ n, of a now ttl] l(5) by auto
    have "item s' a = (v, ?d)" "ekey s' a = ekey s a" "s_entry s' a \<noteq> None"
      using l(5,7) s'(4,6,7) by (auto simp: item_def value_of_def ekey_def)
    moreover have "store_inv (Suc n) s'"
      using s'(2) store_inv_mono by (auto split: if_splits)
    ultimately have "moves n s db s' db' ((view s db)(cmd ! 1 \<mapsto> (v, ?d)))"
      using moves_one [of n s' s db' db "cmd ! 1" a] l(2-4,6) s'(3,5) by simp
    then show ?thesis
      using l(1,8) s'(1) Some len
      by (intro obeysI) (auto simp: do_expire_def arg_simp spec_expire_def out_encode)
  qed
  from inv show ?thesis
  proof (cases rule: lookup_cases [where key = "cmd ! 1"])
    case (Absent db')
    then show ?thesis
      using Some len by (intro obeysI) (auto simp: do_expire_def arg_simp spec_expire_def out_encode)
  next
    case (Str db' a e)
    then show ?thesis
      by (intro present)
  next
    case (Set db' a e t)
    then show ?thesis
      by (intro present)
  qed
qed


lemma heap_idx_deadline:
  assumes "store_inv n s" "s_entry s a \<noteq> None"
  shows "\<exists>i. snd (s_timers s) a = Some i \<and> (i = npos \<longleftrightarrow> deadline (s_timers s) a = None)
    \<and> (i \<noteq> npos \<longrightarrow> i < length (fst (s_timers s)) \<and> deadline (s_timers s) a = Some (hi_val (fst (s_timers s) ! i)))"
proof -
  obtain xs idx where h: "s_timers s = (xs, idx)"
    by (cases "s_timers s")
  have t: "timers_ok (xs, idx)" "dom idx = dom (s_entry s)"
    using assms(1) by (simp_all add: store_inv_def h)
  then obtain i where i: "idx a = Some i"
    using assms(2) by blast
  have "i \<noteq> npos \<longrightarrow> i < length xs"
    using timers_npos_iff [OF t(1) i] npos_bound [OF t(1) _ i] by blast
  moreover have "i = npos \<longrightarrow> \<not> i < length xs"
    using t(1) by (simp add: timers_ok_def)
  ultimately show ?thesis
    using i by (auto simp: h deadline_def)
qed

lemma do_ttl_ok:
  assumes inv: "store_inv n s" "db_inv s db" and len: "1 < length cmd"
  shows "obeys n s db out (do_ttl now cmd out s db) (spec_ttl now (cmd ! 1) (view s db))"
proof -
  have present: ?thesis
    if l: "db_lookup s db (cmd ! 1) = Some (db', Some a)" "moves n s db s db' (view s db)"
      "s_entry s a = Some e" "view s db (cmd ! 1) = Some (v, deadline (s_timers s) a)"
    for db' a e v
    using heap_idx_deadline [OF inv(1), of a] l len
    by (intro obeysI) (auto simp: do_ttl_def arg_simp spec_ttl_def out_encode Let_def)
  from inv show ?thesis
  proof (cases rule: lookup_cases [where key = "cmd ! 1"])
    case (Absent db')
    then show ?thesis
      using len by (intro obeysI) (auto simp: do_ttl_def arg_simp spec_ttl_def out_encode)
  next
    case (Str db' a e)
    show ?thesis
      by (rule present [OF Str(1,5,6,10)])
  next
    case (Set db' a e t)
    show ?thesis
      by (rule present [OF Set(1,5,6,11)])
  qed
qed

section \<open>Commands on sorted sets\<close>

text \<open>An operation on the sorted set of an entry found under \<open>key\<close>.\<close>

lemma zset_moves:
  assumes "store_inv n s" "db_inv s db'" "objs db' = objs db" "binds hobj (ekey s) (hm_nodes db') key a"
    and "s_entry s a = Some e" "e_type e = T_ZSET" "budget n (s_zmem s) (e_zset e) t"
    and "f (s_zmem s) (e_zset e) = Some (m', zs', r)" "zset_step (4 * n * n) (s_zmem s) t m' zs' t'"
  shows "\<exists>s'. run_zset a f s = Some (s', r) \<and> s_zmem s' = m'
    \<and> moves n s db s' db' ((view s db')(key \<mapsto> (VSet (content m' t'), deadline (s_timers s) a)))"
proof -
  obtain s' where s': "run_zset a f s = Some (s', r)" "store_inv (Suc n) s'" "keeps s s' {a}" "s_entry s' a \<noteq> None"
    "ekey s' a = ekey s a" "s_next s' = s_next s" "s_zmem s' = m'"
    "item s' a = (VSet (content m' t'), deadline (s_timers s) a)"
    using run_zset_ok [where f = f, OF assms(1,5-9)] by blast
  then show ?thesis
    using moves_one [OF s'(2) assms(2,3,4) s'(3-6)] by simp
qed

text \<open>A change of the entry just created.\<close>

lemma moves_created:
  assumes "moves n s1 db2 s' db2 f" "keeps s s1 {s_next s}" "objs db2 = insert (s_next s) (objs db)" "s_next s1 = Suc (s_next s)"
  shows "moves n s db s' db2 f"
proof -
  have "keeps s s1 (objs db \<union> {s_next s ..})"
    by (rule keeps_mono [OF assms(2)]) simp
  moreover have "keeps s1 s' (objs db \<union> {s_next s ..})"
  proof (rule keeps_mono)
    show "keeps s1 s' (objs db2 \<union> {s_next s1 ..})"
      using assms(1) by (simp add: moves_def)
    show "objs db2 \<union> {s_next s1 ..} \<subseteq> objs db \<union> {s_next s ..}"
      using assms(3,4) by auto
  qed
  ultimately have "keeps s s' (objs db \<union> {s_next s ..})"
    by (rule keeps_trans)
  then show ?thesis
    using assms(1,3,4) by (auto simp: moves_def)
qed

text \<open>The room that the budget leaves to the next operation.\<close>

lemma budget_facts:
  assumes "budget n m zs t" "n < 30000"
  shows "zset_inv m zs t" "unused m" "hle (4 * n * n) t" "4 * n * n + height_cost t < 2 ^ 32"
  using assms budget_room [OF assms] by (simp_all add: budget_def)

lemma str2dbl_not_nan: "str2dbl s = Some x \<Longrightarrow> \<not> isnan x"
  by (auto simp: str2dbl_def split: prod.splits if_splits)

lemma do_zadd_ok:
  assumes inv: "store_inv n s" "db_inv s db" and len: "3 < length cmd" and n: "n < 30000"
  shows "obeys n s db out (do_zadd conn cmd out s db) (spec_zadd (cmd ! 1) (cmd ! 2) (cmd ! 3) (view s db))"
proof (cases "str2dbl (cmd ! 2)")
  case None
  then show ?thesis
    using moves_same [OF inv refl] len by (intro obeysI) (auto simp: do_zadd_def arg_simp spec_zadd_def out_encode)
next
  case (Some x)
  note nan = str2dbl_not_nan [OF Some]
  let ?f = "\<lambda>m zs. zset_insert m zs (cmd ! 3) x"
  from inv show ?thesis
  proof (cases rule: lookup_cases [where key = "cmd ! 1"])
    case (Absent db')
    let ?e = "(blank_entry T_ZSET conn)\<lparr>e_key := cmd ! 1, e_hcode := str_hash (cmd ! 1)\<rparr>"
    let ?s = "with_entry s ?e"
    have none: "view s db' (cmd ! 1) = None"
      using Absent by simp
    obtain db2 where c: "hm_insert db' \<lparr>hcode = str_hash (cmd ! 1), hobj = s_next s\<rparr> = Some db2" "store_inv n ?s" "db_inv ?s db2"
      "objs db2 = insert (s_next s) (objs db')" "view ?s db2 = (view s db')(cmd ! 1 \<mapsto> (value_of ?s (s_next s), None))"
      "keeps s ?s {s_next s}" "binds hobj (ekey ?s) (hm_nodes db2) (cmd ! 1) (s_next s)"
      using create_ok [OF inv(1) Absent(2) none, of ?e] by (auto simp: blank_entry_def)
    have e: "s_entry ?s (s_next s) = Some ?e" "e_type ?e = T_ZSET" "e_zset ?e = empty_zset" "s_next ?s = Suc (s_next s)"
      by (simp_all add: with_entry_def blank_entry_def)
    have b: "budget n (s_zmem ?s) (e_zset ?e) Leaf"
      using c(2) unfolding e(3) by (intro budget_empty) (simp add: store_inv_def)
    note bf = budget_facts [OF b n]
    obtain m' zs' t' where z: "?f (s_zmem ?s) (e_zset ?e) = Some (m', zs', True)"
      "zset_step (4 * n * n) (s_zmem ?s) Leaf m' zs' t'" "content m' t' = [cmd ! 3 \<mapsto> x]"
      using zset_add_step [OF bf nan, of "cmd ! 3"] by (auto simp: content_def score_after_def)
    obtain s' where s': "run_zset (s_next s) ?f ?s = Some (s', True)"
      "moves n ?s db2 s' db2 ((view ?s db2)(cmd ! 1 \<mapsto> (VSet [cmd ! 3 \<mapsto> x], deadline (s_timers ?s) (s_next s))))"
      using zset_moves [where f = ?f, OF c(2,3) refl c(7) e(1,2) b z(1,2)] z(3) by auto
    have d: "deadline (s_timers ?s) (s_next s) = None"
      using entry_new_ok(3) [OF inv(1), of ?e] e(2,3) by (simp add: item_def with_entry_def)
    have "do_zadd conn cmd out s db = Some (s', db2, out_int out 1)"
      using Absent(1) Some len c(1) s'(1) e(1,2) entry_new_run [of s T_ZSET conn] by (auto simp: do_zadd_def arg_simp Let_def)
    moreover have "moves n s db s' db2 (fst (spec_zadd (cmd ! 1) (cmd ! 2) (cmd ! 3) (view s db)))"
      using moves_created [OF s'(2) c(6) _ e(4)] c(4,5) Absent(3,4,6) Some d by (simp add: spec_zadd_def)
    ultimately show ?thesis
      using Absent(6) Some by (intro obeysI) (auto simp: spec_zadd_def out_encode)
  next
    case (Str db' a e)
    then show ?thesis
      using Some len by (intro obeysI) (auto simp: do_zadd_def arg_simp spec_zadd_def out_encode)
  next
    case (Set db' a e t)
    note bf = budget_facts [OF Set(10) n]
    obtain m' zs' t' where z: "?f (s_zmem s) (e_zset e) = Some (m', zs', content (s_zmem s) t (cmd ! 3) = None)"
      "zset_step (4 * n * n) (s_zmem s) t m' zs' t'" "content m' t' = zop_spec (ZAdd (cmd ! 3) x) (content (s_zmem s) t)"
      using zset_add_step [OF bf nan, of "cmd ! 3"] by blast
    obtain s' where s': "run_zset a ?f s = Some (s', content (s_zmem s) t (cmd ! 3) = None)"
      "moves n s db s' db' ((view s db')(cmd ! 1 \<mapsto> (VSet (content m' t'), deadline (s_timers s) a)))"
      using zset_moves [where f = ?f, OF inv(1) Set(2,4,8,6,7,10) z(1,2)] by blast
    show ?thesis
      using Set(1,3,6,7,11) s' z(3) Some len
      by (intro obeysI) (auto simp: do_zadd_def arg_simp spec_zadd_def out_encode)
  qed
qed

lemma do_zrem_ok:
  assumes inv: "store_inv n s" "db_inv s db" and len: "2 < length cmd" and n: "n < 30000"
    and last: "\<not> removes_last (cmd ! 1) (cmd ! 2) (view s db)"
  shows "obeys n s db out (do_zrem cmd out s db) (spec_zrem (cmd ! 1) (cmd ! 2) (view s db))"
proof -
  let ?f = "\<lambda>m zs. zset_remove m zs (cmd ! 2)"
  have run: "do_zrem cmd out s db =
      (do { (db, zset) \<leftarrow> expect_zset s db (cmd ! 1);
            if zset = ZNull then Some (s, db, out_err out ERR_BAD_TYP (lit ''expect zset''))
            else do { (s, found) \<leftarrow> with_zset zset ?f s; Some (s, db, out_int out (if found then 1 else 0)) } })"
    using len unfolding do_zrem_def zset_remove_def by (simp add: arg_simp)
  from inv show ?thesis
  proof (cases rule: lookup_cases [where key = "cmd ! 1"])
    case (Absent db')
    then show ?thesis
      by (intro obeysI)
        (auto simp: run expect_zset_def with_zset_def zset_remove_def zset_lookup_def empty_zset_def spec_zrem_def out_encode)
  next
    case (Str db' a e)
    then show ?thesis
      by (intro obeysI) (auto simp: run expect_zset_def spec_zrem_def out_encode)
  next
    case (Set db' a e t)
    let ?z = "content (s_zmem s) t"
    have safe: "?z (cmd ! 2) = None \<or> dom ?z \<noteq> {cmd ! 2}"
      using last Set(11) by (auto simp: removes_last_def)
    obtain m' zs' t' where z: "?f (s_zmem s) (e_zset e) = Some (m', zs', ?z (cmd ! 2) \<noteq> None)"
      "zset_step (4 * n * n) (s_zmem s) t m' zs' t'" "content m' t' = zop_spec (ZRem (cmd ! 2)) ?z"
      using zset_remove_step [OF budget_facts [OF Set(10) n] safe] by blast
    obtain s' where s': "run_zset a ?f s = Some (s', ?z (cmd ! 2) \<noteq> None)"
      "moves n s db s' db' ((view s db')(cmd ! 1 \<mapsto> (VSet (content m' t'), deadline (s_timers s) a)))"
      using zset_moves [where f = ?f, OF inv(1) Set(2,4,8,6,7,10) z(1,2)] by blast
    show ?thesis
      using Set(1,3,6,7,11) s' z(3)
      by (intro obeysI) (auto simp: run expect_zset_def with_zset_def spec_zrem_def out_encode)
  qed
qed

lemma zset_lookup_step:
  assumes "zset_inv m zs t" "unused m" "hle K t"
  shows "\<exists>zs' p. zset_lookup m zs name = Some (zs', p) \<and> zset_step K m t m zs' t
    \<and> (case p of None \<Rightarrow> content m t name = None
       | Some a \<Rightarrow> zn_rd zn_score m p = Some (zscore m a) \<and> content m t name = Some (zscore m a))"
proof -
  obtain zs' p where l: "zset_lookup m zs name = Some (zs', p)" "zset_inv m zs' t"
    "case p of None \<Rightarrow> content m t name = None
     | Some a \<Rightarrow> a \<in> set (nodes t) \<and> zname m a = name \<and> content m t name = Some (zscore m a)"
    using zset_lookup_ok [OF assms(1)] by blast
  have "zn_rd zn_score m (Some a) = Some (zscore m a)" if "a \<in> set (nodes t)" for a
    using assms(1) that by (auto simp: zset_inv_def live_node_def zn_rd_def zscore_def split: option.splits)
  then show ?thesis
    using l zset_step_refl [OF l(2) assms(2,3)] by (auto split: option.splits)
qed

lemma do_zscore_ok:
  assumes inv: "store_inv n s" "db_inv s db" and len: "2 < length cmd" and n: "n < 30000"
  shows "obeys n s db out (do_zscore cmd out s db) (spec_zscore (cmd ! 1) (cmd ! 2) (view s db))"
  using inv
proof (cases rule: lookup_cases [where key = "cmd ! 1"])
  case (Absent db')
  then show ?thesis
    using len by (intro obeysI)
      (auto simp: do_zscore_def arg_simp expect_zset_def with_zset_def zset_lookup_def empty_zset_def spec_zscore_def out_encode)
next
  case (Str db' a e)
  then show ?thesis
    using len by (intro obeysI) (auto simp: do_zscore_def arg_simp expect_zset_def spec_zscore_def out_encode)
next
  case (Set db' a e t)
  let ?f = "\<lambda>m zs. do { (zs, znode) \<leftarrow> zset_lookup m zs (cmd ! 2); Some (m, zs, znode) }"
  let ?z = "content (s_zmem s) t"
  obtain zs' p where l: "zset_lookup (s_zmem s) (e_zset e) (cmd ! 2) = Some (zs', p)"
    "zset_step (4 * n * n) (s_zmem s) t (s_zmem s) zs' t"
    "case p of None \<Rightarrow> ?z (cmd ! 2) = None
     | Some b \<Rightarrow> zn_rd zn_score (s_zmem s) p = Some (zscore (s_zmem s) b) \<and> ?z (cmd ! 2) = Some (zscore (s_zmem s) b)"
    using zset_lookup_step [OF budget_facts(1-3) [OF Set(10) n]] by blast
  have f: "?f (s_zmem s) (e_zset e) = Some (s_zmem s, zs', p)"
    using l(1) by simp
  obtain s' where s': "run_zset a ?f s = Some (s', p)" "s_zmem s' = s_zmem s"
    "moves n s db s' db' ((view s db')(cmd ! 1 \<mapsto> (VSet ?z, deadline (s_timers s) a)))"
    using zset_moves [where f = ?f, OF inv(1) Set(2,4,8,6,7,10) f l(2)] by blast
  have "(view s db')(cmd ! 1 \<mapsto> (VSet ?z, deadline (s_timers s) a)) = view s db"
    using Set(3,11) by (simp add: fun_upd_idem)
  then have "moves n s db s' db' (view s db)"
    using s'(3) by simp
  moreover have "do_zscore cmd out s db = Some (s', db', out @ encode (case ?z (cmd ! 2) of None \<Rightarrow> RNil | Some x \<Rightarrow> RDbl x))"
    using Set(1,6,7) s'(1,2) l(3) len
    by (cases p) (auto simp: do_zscore_def arg_simp expect_zset_def with_zset_def out_encode)
  ultimately show ?thesis
    using Set(11) by (intro obeysI) (auto simp: spec_zscore_def)
qed

lemma do_zquery_ok:
  assumes inv: "store_inv n s" "db_inv s db" and len: "5 < length cmd" and w: "\<not> walks (cmd ! 1) (cmd ! 2) (cmd ! 4) (cmd ! 5) (view s db)"
  shows "obeys n s db out (do_zquery cmd out s db) (spec_zquery (cmd ! 1) (cmd ! 2) (cmd ! 4) (cmd ! 5) (view s db))"
proof (cases "str2dbl (cmd ! 2) = None \<or> str2int (cmd ! 4) = None \<or> str2int (cmd ! 5) = None")
  case True
  then show ?thesis
    using len moves_same [OF inv refl] by (intro obeysI) (auto simp: do_zquery_def arg_simp spec_zquery_def out_encode split: option.split)
next
  case False
  then obtain x offset limit where args: "str2dbl (cmd ! 2) = Some x" "str2int (cmd ! 4) = Some offset" "str2int (cmd ! 5) = Some limit"
    by auto
  have e: "out_arr out 0 = out @ encode (RArr [])"
    using out_arr_encode [of out "[]"] by simp
  from inv show ?thesis
  proof (cases rule: lookup_cases [where key = "cmd ! 1"])
    case (Absent db')
    then show ?thesis
      using len args e out_end_arr_run [of out "[]" 0] by (intro obeysI)
        (auto simp: do_zquery_def arg_simp expect_zset_def with_zset_def zset_seekge_def empty_zset_def seek_loop.simps znode_offset_def
          zquery_loop.simps out_begin_arr_simp spec_zquery_def)
  next
    case (Str db' a e)
    then show ?thesis
      using len args by (intro obeysI) (auto simp: do_zquery_def arg_simp expect_zset_def spec_zquery_def out_encode)
  next
    case (Set db' a e' t)
    then have "limit \<le> 0"
      using w args by (auto simp: walks_def)
    then show ?thesis
      using len args e Set by (intro obeysI) (auto simp: do_zquery_def arg_simp expect_zset_def spec_zquery_def)
  qed
qed

section \<open>Dispatch\<close>

lemma obeys_if:
  assumes "b \<Longrightarrow> obeys n s db out x y" "\<not> b \<Longrightarrow> obeys n s db out x' y'"
  shows "obeys n s db out (if b then x else x') (if b then y else y')"
  using assms by simp

lemma do_request_obeys:
  assumes inv: "store_inv n s" "db_inv s db" and n: "n < 30000" and ok: "in_spec cmd (view s db)"
    and nk: "is_cmd cmd 1 ''keys'' = False"
  shows "obeys n s db out (do_request now conn cmd out s db) (spec now cmd (view s db))"
proof -
  have npos: "n + 1 < npos"
    using n by (simp add: npos_def)
  have other: "obeys n s db out (Some (s, db, out @ encode r)) (view s db, r)" for r
    using moves_same [OF inv refl] by (intro obeysI) auto
  have len: "is_cmd cmd k w \<Longrightarrow> length cmd = k" for k w
    by (simp add: is_cmd_def)
  have last: "is_cmd cmd 3 ''zrem'' \<Longrightarrow> \<not> removes_last (cmd ! 1) (cmd ! 2) (view s db)"
    using ok by (auto simp: in_spec_def)
  have walk: "is_cmd cmd 6 ''zquery'' \<Longrightarrow> \<not> walks (cmd ! 1) (cmd ! 2) (cmd ! 4) (cmd ! 5) (view s db)"
    using ok by (auto simp: in_spec_def)
  show ?thesis
    unfolding do_request_def spec_def nk if_False out_encode
    by (intro obeys_if other; (rule do_get_ok [OF inv] do_set_ok [OF inv] do_del_ok [OF inv _ npos] do_expire_ok [OF inv _ npos]
        do_ttl_ok [OF inv] do_zadd_ok [OF inv _ n] do_zrem_ok [OF inv _ n last] do_zscore_ok [OF inv _ n] do_zquery_ok [OF inv _ walk]); (assumption | (drule len, simp))?)
qed

lemma obeysE:
  assumes "obeys n s db out run sp"
  obtains s' db' where "run = Some (s', db', out @ encode (snd sp))" "moves n s db s' db' (fst sp)"
  using assms by (auto simp: obeys_def)

lemma fold_cb_keys:
  "(\<And>n. n \<in> set ns \<Longrightarrow> s_entry s (hobj n) \<noteq> None) \<Longrightarrow>
    fold (visit (cb_keys s)) ns (Some out) = Some (out @ concat (map (\<lambda>n. encode (RStr (ekey s (hobj n)))) ns))"
proof (induction ns arbitrary: out)
  case (Cons n ns)
  then obtain e where "s_entry s (hobj n) = Some e"
    by fastforce
  then show ?case
    using Cons by (simp add: cb_keys_def ekey_def out_encode)
qed simp

lemma do_keys_run:
  assumes "db_inv s db"
  shows "\<exists>ks. do_keys cmd out s db = Some (s, db, out @ encode (RArr (map RStr ks))) \<and> distinct ks \<and> set ks = dom (view s db)"
proof -
  let ?ks = "map (\<lambda>n. ekey s (hobj n)) (hm_list db)"
  have d: "hm_ok db" "keyed hcode hobj (ekey s) (hm_nodes db)" "objs db \<subseteq> dom (s_entry s)"
    using assms by (simp_all add: db_inv_def)
  have live: "s_entry s (hobj n) \<noteq> None" if "n \<in> set (hm_list db)" for n
    using that d(3) by (auto simp: hm_list_set objs_def)
  have "hm_foreach db (cb_keys s) (Some out') = Some (Some (out' @ concat (map (\<lambda>n. encode (RStr (ekey s (hobj n)))) (hm_list db))))" for out'
    using hm_foreach_all [of "cb_keys s" db "Some out'"] d(1) fold_cb_keys [OF live, of "hm_list db" out'] by (simp add: cb_keys_def)
  moreover have "hm_size db = length ?ks"
    using d(1) hm_size_ok [of db] by (metis length_map mset_hm_list size_mset)
  ultimately have "do_keys cmd out s db = Some (s, db, out @ encode (RArr (map RStr ?ks)))"
    using out_arr_encode [of out "map RStr ?ks"] by (simp add: do_keys_def Let_def comp_def del: encode.simps)
  moreover have "set ?ks = dom (view s db)"
    using view_None [OF assms] by (auto simp: hm_list_set binds_def dom_def)
  ultimately show ?thesis
    using keyed_distinct [OF d(2)] by blast
qed

lemma do_request_ok:
  assumes "store_inv n s" "db_inv s db" "n < 30000" "in_spec cmd (view s db)"
  shows "\<exists>s' db' r. do_request now conn cmd out s db = Some (s', db', out @ encode r) \<and> answer now cmd (view s db) r
    \<and> moves n s db s' db' (effect now cmd (view s db))"
proof (cases "is_cmd cmd 1 ''keys''")
  case True
  then have "do_request now conn cmd out s db = do_keys cmd out s db"
    by (auto simp: do_request_def is_cmd_def)
  moreover obtain ks where "do_keys cmd out s db = Some (s, db, out @ encode (RArr (map RStr ks)))" "distinct ks" "set ks = dom (view s db)"
    using do_keys_run [OF assms(2)] by blast
  moreover have "moves n s db s db (view s db)"
    by (rule moves_same [OF assms(1,2) refl])
  ultimately show ?thesis
    using True by (intro exI [of _ s] exI [of _ db] exI [of _ "RArr (map RStr ks)"]) (auto simp: effect_def answer_def)
next
  case False
  then show ?thesis
    using do_request_obeys [OF assms, of out now conn] by (auto simp: effect_def answer_def elim: obeysE)
qed

section \<open>Histories of one connection\<close>

fun run_session :: "addr \<Rightarrow> (u64 \<times> bytes list) list \<Rightarrow> store \<Rightarrow> db \<Rightarrow> (store \<times> db \<times> bytes) option" where
  "run_session conn [] s db = Some (s, db, [])"
| "run_session conn ((now, cmd) # cmds) s db = do {
     (s, db, out) \<leftarrow> do_request now conn cmd [] s db;
     (s, db, outs) \<leftarrow> run_session conn cmds s db;
     Some (s, db, out @ outs)
   }"

fun effects :: "(u64 \<times> bytes list) list \<Rightarrow> kv \<Rightarrow> kv" where
  "effects [] f = f"
| "effects ((now, cmd) # cmds) f = effects cmds (effect now cmd f)"

fun answers :: "(u64 \<times> bytes list) list \<Rightarrow> kv \<Rightarrow> reply list \<Rightarrow> bool" where
  "answers [] f rs \<longleftrightarrow> rs = []"
| "answers ((now, cmd) # cmds) f rs \<longleftrightarrow>
     (case rs of [] \<Rightarrow> False | r # rs \<Rightarrow> answer now cmd f r \<and> answers cmds (effect now cmd f) rs)"

fun session_in_spec :: "(u64 \<times> bytes list) list \<Rightarrow> kv \<Rightarrow> bool" where
  "session_in_spec [] f \<longleftrightarrow> True"
| "session_in_spec ((now, cmd) # cmds) f \<longleftrightarrow> in_spec cmd f \<and> session_in_spec cmds (effect now cmd f)"

lemma run_session_ok:
  assumes "store_inv n s" "db_inv s db" "n + length cmds \<le> 30000" "session_in_spec cmds (view s db)"
  shows "\<exists>s' db' rs. run_session conn cmds s db = Some (s', db', concat (map encode rs)) \<and> answers cmds (view s db) rs
    \<and> view s' db' = effects cmds (view s db) \<and> store_inv (n + length cmds) s' \<and> db_inv s' db'"
  using assms
proof (induction cmds arbitrary: n s db)
  case Nil
  then show ?case
    by simp
next
  case (Cons c cmds)
  obtain now cmd where c: "c = (now, cmd)"
    by (cases c)
  have sp: "in_spec cmd (view s db)" "n < 30000"
    using Cons.prems(3,4) by (simp_all add: c)
  obtain s1 db1 r where r: "do_request now conn cmd [] s db = Some (s1, db1, encode r)" "answer now cmd (view s db) r"
    "moves n s db s1 db1 (effect now cmd (view s db))"
    using do_request_ok [OF Cons.prems(1,2) sp(2,1), of now conn "[]"] by auto
  then have m: "store_inv (Suc n) s1" "db_inv s1 db1" "view s1 db1 = effect now cmd (view s db)"
    by (simp_all add: moves_def)
  have tl: "Suc n + length cmds \<le> 30000" "session_in_spec cmds (view s1 db1)"
    using Cons.prems(3,4) m(3) by (simp_all add: c)
  obtain s2 db2 rs where t: "run_session conn cmds s1 db1 = Some (s2, db2, concat (map encode rs))" "answers cmds (view s1 db1) rs"
    "view s2 db2 = effects cmds (view s1 db1)" "store_inv (Suc n + length cmds) s2" "db_inv s2 db2"
    using Cons.IH [OF m(1,2) tl] by blast
  show ?case
    by (rule exI [of _ s2], rule exI [of _ db2], rule exI [of _ "r # rs"]) (use t r(1,2) m(3) in \<open>simp add: c\<close>)
qed

lemma empty_store_inv [simp]: "store_inv 0 empty_store" "db_inv s empty_hmap" "view s empty_hmap = Map.empty"
proof -
  show "store_inv 0 empty_store"
    by (simp add: store_inv_def empty_store_def timers_ok_def heap_ord_def idx_ok_def unused_def npos_def)
  show i: "db_inv s empty_hmap"
    by (simp add: db_inv_def objs_def)
  have "view s empty_hmap k = None" for k
    by (simp add: view_None [OF i])
  then show "view s empty_hmap = Map.empty"
    by (rule ext)
qed

section \<open>Ranges of a sorted set\<close>

text \<open>The members that ZQUERY reports: half of the limit, rounded up, from a position of the order.\<close>

definition window :: "zmem \<Rightarrow> addr atree \<Rightarrow> int \<Rightarrow> int \<Rightarrow> addr list" where
  "window m t pos limit = (if 0 \<le> pos then take (nat ((limit + 1) div 2)) (drop (nat pos) (nodes t)) else [])"

definition member_reply :: "zmem \<Rightarrow> addr \<Rightarrow> reply list" where
  "member_reply m a = [RStr (zname m a), RDbl (zscore m a)]"

lemma zquery_loop_run:
  assumes z: "zset_inv m zs t" "counted t" "size t + 1 < 2 ^ 32"
  shows "i \<le> size t \<Longrightarrow> zquery_loop m (if i < size t then Some (nodes t ! i) else None) n limit out =
    (let ms = take (nat ((limit - n + 1) div 2)) (drop i (nodes t)) in
      Some (out @ concat (map encode (concat (map (member_reply m) ms))), n + 2 * int (length ms)))"
proof (induction "size t - i" arbitrary: i n out)
  case 0
  then show ?case
    by (simp add: zquery_loop.simps)
next
  case (Suc d)
  then have i: "i < size t"
    by simp
  let ?a = "nodes t ! i"
  show ?case
  proof (cases "n < limit")
    case False
    then have "(limit - n + 1) div 2 \<le> 0"
      by presburger
    then have "nat ((limit - n + 1) div 2) = 0"
      by simp
    then show ?thesis
      using False by (simp add: zquery_loop.simps Let_def)
  next
    case True
    have "?a \<in> set (nodes t)"
      using i by simp
    then have nm: "zn_rd zn_name m (Some ?a) = Some (zname m ?a)" "zn_rd zn_score m (Some ?a) = Some (zscore m ?a)"
      using z(1) by (auto simp: zset_inv_def live_node_def zn_rd_def zname_def zscore_def split: option.splits)
    have nx: "znode_offset m (Some ?a) 1 = Some (if Suc i < size t then Some (nodes t ! Suc i) else None)"
      using znode_offset_ok [OF z i, of 1] by (simp add: nat_add_distrib)
    have k: "nat ((limit - n + 1) div 2) = Suc (nat ((limit - (n + 2) + 1) div 2))"
      using True by (simp add: nat_eq_iff2)
    have dr: "drop i (nodes t) = ?a # drop (Suc i) (nodes t)"
      using i by (simp add: Cons_nth_drop_Suc)
    show ?thesis
      using Suc.hyps(1) [of "Suc i" "n + 2" "out @ encode (RStr (zname m ?a)) @ encode (RDbl (zscore m ?a))"] Suc.hyps(2) i True nm nx
      unfolding k dr by (subst zquery_loop.simps) (simp add: Let_def out_encode member_reply_def del: encode.simps)
  qed
qed

lemma window_cursor:
  assumes z: "zset_inv m zs t" "avl t" "size t + 1 < 2 ^ 32" and x: "\<not> isnan x"
    and pos: "pos = (if rank m t (dord x, name) < size t then int (rank m t (dord x, name)) + offset else int (size t))"
  shows "\<exists>p. zset_seekge m zs x name = Some p \<and>
    znode_offset m p offset = Some (if 0 \<le> pos \<and> pos < int (size t) then Some (nodes t ! nat pos) else None)"
  using zset_seekge_rank [OF z(1) x, of name] znode_offset_ok [OF z(1) avl_counted [OF z(2)] z(3)]
  by (cases "rank m t (dord x, name) < size t") (simp_all add: pos znode_offset_def)

lemma do_zquery_run:
  assumes inv: "store_inv n s" "db_inv s db"
    and ent: "binds hobj (ekey s) (hm_nodes db) (cmd ! 1) a" "s_entry s a = Some e" "e_type e = T_ZSET"
    and z: "zset_inv (s_zmem s) (e_zset e) t" "avl t" "size t + 1 < 2 ^ 32"
    and args: "length cmd = 6" "str2dbl (cmd ! 2) = Some x" "str2int (cmd ! 4) = Some offset" "str2int (cmd ! 5) = Some limit" "0 < limit"
    and pos: "pos = (if rank (s_zmem s) t (dord x, cmd ! 3) < size t then int (rank (s_zmem s) t (dord x, cmd ! 3)) + offset else int (size t))"
  shows "\<exists>db'. do_zquery cmd out s db = Some (s, db', out @ encode (RArr (concat (map (member_reply (s_zmem s)) (window (s_zmem s) t pos limit)))))
    \<and> db_inv s db' \<and> view s db' = view s db"
proof -
  let ?m = "s_zmem s"
  let ?ms = "window ?m t pos limit"
  let ?rs = "concat (map (member_reply ?m) ?ms)"
  obtain db' p where l: "db_lookup s db (cmd ! 1) = Some (db', p)" "db_inv s db'" "view s db' = view s db" "found s db' (cmd ! 1) p"
    "objs db' = objs db"
    using db_lookup_ok [OF inv(2)] by blast
  have p: "p = Some a"
  proof -
    have b: "binds hobj (ekey s) (hm_nodes db') (cmd ! 1) a"
      using ent(1) l(5) by (simp add: binds_iff)
    show ?thesis
      using l(4) b keyed_binds_fun [of hcode hobj "ekey s" "hm_nodes db'"] l(2)
      by (cases p) (auto simp: found_def db_inv_def)
  qed
  have len: "length ?rs = 2 * length ?ms"
    by (induction ?ms) (simp_all add: member_reply_def length_concat sum_list_triv comp_def)
  obtain c where c: "zset_seekge ?m (e_zset e) x (cmd ! 3) = Some c"
    "znode_offset ?m c offset = Some (if 0 \<le> pos \<and> pos < int (size t) then Some (nodes t ! nat pos) else None)"
    using window_cursor [OF z str2dbl_not_nan [OF args(2)] pos] by blast
  have loop: "zquery_loop ?m (if 0 \<le> pos \<and> pos < int (size t) then Some (nodes t ! nat pos) else None) 0 limit out' =
      Some (out' @ concat (map encode ?rs), 2 * int (length ?ms))" for out'
  proof (cases "0 \<le> pos \<and> pos < int (size t)")
    case True
    then have "nat pos \<le> size t"
      by linarith
    then show ?thesis
      using True zquery_loop_run [OF z(1) avl_counted [OF z(2)] z(3), of "nat pos" 0 limit out'] by (simp add: window_def Let_def nat_less_iff)
  next
    case False
    then have "?ms = []"
      by (auto simp: window_def)
    then show ?thesis
      unfolding if_not_P [OF False] by (simp add: zquery_loop.simps [of _ None])
  qed
  have e: "(s_entry s)(a \<mapsto> e\<lparr>e_zset := e_zset e\<rparr>) = s_entry s"
    using ent(2) by (simp add: fun_upd_idem)
  have "(of_int (2 * int (length ?ms)) :: u32) = of_nat (length ?rs)"
    by (simp add: len)
  then have "do_zquery cmd out s db = Some (s, db', out @ encode (RArr ?rs))"
    using args l(1) p ent(2,3) c loop e out_end_arr_run [of out "concat (map encode ?rs)" "of_nat (length ?rs)"]
    by (simp add: do_zquery_def arg_simp expect_zset_def with_zset_def run_zset_def out_begin_arr_simp)
  then show ?thesis
    using l(2,3) by blast
qed

section \<open>Properties\<close>

text \<open>C2: One command on any reachable kind of state: \<open>do_request\<close> returns, appends exactly the encoded reply of the
  specification to the output, and leaves a well-formed store and hashtable whose keys, values and
  deadlines are those of the specification. The state is one after fewer than 30000 commands, and the commands are all of
  the server, with all their error replies, except two that \<open>in_spec\<close> leaves out because they may fail: a ZQUERY with
  well-formed arguments and a positive limit on a key that holds a sorted set, and the ZREM of the last member of a
  set. KEYS answers with every key once.\<close>

theorem request_refines_spec:
  assumes "store_inv n s" "db_inv s db" "n < 30000" "in_spec cmd (view s db)"
  shows "\<exists>s' db' r. do_request now conn cmd out s db = Some (s', db', out @ encode r) \<and> answer now cmd (view s db) r
    \<and> view s' db' = effect now cmd (view s db) \<and> store_inv (Suc n) s' \<and> db_inv s' db'"
  using do_request_ok [OF assms, of now conn out] by (auto simp: moves_def)

lemma request_refines_spec_witness:
  "\<exists>s db. do_request 5 1 [lit ''set'', [107], [118]] [] empty_store empty_hmap = Some (s, db, encode (RStr (lit ''1'')))
    \<and> view s db = [[107] \<mapsto> (VStr [118], None)]"
  using request_refines_spec [of 0 empty_store empty_hmap "[lit ''set'', [107], [118]]" 5 1 "[]"]
  by (auto simp: in_spec_def is_cmd_def lit_def effect_def answer_def spec_def spec_set_def simp del: encode.simps)

text \<open>C1: A session of at most 30000 commands on an empty server: every command returns, and the replies and the final
  contents are those of the specification run on the empty map. None of the commands may be one of the two that
  \<open>in_spec\<close> leaves out, in the state it finds: a ZQUERY with well-formed arguments and a positive limit on a key that
  holds a sorted set, or the ZREM of the last member of a set.\<close>

theorem session_refines_spec:
  assumes "length cmds \<le> 30000" "session_in_spec cmds Map.empty"
  shows "\<exists>s db rs. run_session conn cmds empty_store empty_hmap = Some (s, db, concat (map encode rs)) \<and> answers cmds Map.empty rs
    \<and> view s db = effects cmds Map.empty"
  using run_session_ok [of 0 empty_store empty_hmap cmds conn] assms by auto

lemma session_refines_spec_witness:
  "\<exists>s db. run_session 1 [(5, [lit ''set'', [107], [118]]), (6, [lit ''get'', [107]]), (6, [lit ''keys'']), (7, [lit ''del'', [107]])]
      empty_store empty_hmap
      = Some (s, db, encode (RStr (lit ''1'')) @ encode (RStr [118]) @ encode (RArr [RStr [107]]) @ encode (RStr (lit ''1'')))
    \<and> view s db = Map.empty"
proof -
  let ?cmds = "[(5, [lit ''set'', [107], [118]]), (6, [lit ''get'', [107]]), (6, [lit ''keys'']), (7, [lit ''del'', [107]])] :: (u64 \<times> bytes list) list"
  note defs = in_spec_def is_cmd_def lit_def effect_def answer_def spec_def spec_set_def spec_get_def spec_del_def
  have "length ?cmds \<le> 30000" "session_in_spec ?cmds Map.empty"
    by (simp_all add: defs)
  then obtain s db rs where r: "run_session 1 ?cmds empty_store empty_hmap = Some (s, db, concat (map encode rs))" "answers ?cmds Map.empty rs"
    "view s db = effects ?cmds Map.empty"
    using session_refines_spec by blast
  have "rs = [RStr (lit ''1''), RStr [118], RArr [RStr [107]], RStr (lit ''1'')]"
    using r(2) by (auto simp: defs key_list_single split: list.splits)
  moreover have "effects ?cmds Map.empty = Map.empty"
    by (simp add: defs)
  ultimately show ?thesis
    using r(1,3) by (simp del: encode.simps)
qed

text \<open>Commands of one connection do not touch the keys of another: the other hashtable stays well formed and
  shows the same keys, values and deadlines, and the two share no entry afterwards either.\<close>

lemma request_isolation:
  assumes "store_inv n s" "db_inv s db" "n < 30000" "in_spec cmd (view s db)"
    and "db_inv s other" "objs db \<inter> objs other = {}"
    and "do_request now conn cmd out s db = Some (s', db', out')"
  shows "view s' other = view s other \<and> db_inv s' other \<and> objs db' \<inter> objs other = {}"
proof -
  have mv: "moves n s db s' db' (effect now cmd (view s db))"
    using do_request_ok [OF assms(1-4), of now conn out] assms(7) by auto
  have old: "objs other \<subseteq> {..< s_next s}"
    using assms(1,5) by (auto simp: db_inv_def store_inv_def not_le [symmetric])
  then have "(objs db \<union> {s_next s ..}) \<inter> objs other = {}"
    using assms(6) by auto
  then show ?thesis
    using view_same [OF assms(5), of s' "objs db \<union> {s_next s ..}"] mv assms(6) old by (fastforce simp: moves_def)
qed

lemma request_isolation_witness:
  "\<exists>s db. do_request 5 1 [lit ''set'', [107], [118]] [] empty_store empty_hmap = Some (s, db, encode (RStr (lit ''1'')))
    \<and> view s empty_hmap = Map.empty \<and> db_inv s empty_hmap"
proof -
  let ?cmd = "[lit ''set'', [107], [118]]"
  have i: "in_spec ?cmd (view empty_store empty_hmap)" "answer 5 ?cmd Map.empty r \<longleftrightarrow> r = RStr (lit ''1'')" for r
    by (simp_all add: in_spec_def is_cmd_def lit_def answer_def spec_def spec_set_def)
  obtain s db where r: "do_request 5 1 ?cmd [] empty_store empty_hmap = Some (s, db, encode (RStr (lit ''1'')))"
    using do_request_ok [OF empty_store_inv(1,2) _ i(1), of 5 1 "[]"] i(2) by (auto simp del: encode.simps)
  have "objs empty_hmap \<inter> objs empty_hmap = {}"
    by (simp add: objs_def)
  then show ?thesis
    using request_isolation [OF empty_store_inv(1,2) _ i(1) empty_store_inv(2) _ r] r by auto
qed

text \<open>C28: KEYS replies with an array that holds every key of the connection exactly once, and its length word is the
  number of keys.\<close>

theorem keys_lists_each_key:
  assumes "db_inv s db"
  shows "\<exists>ks. do_keys cmd out s db = Some (s, db, out @ encode (RArr (map RStr ks))) \<and> distinct ks \<and> set ks = dom (view s db)"
  by (rule do_keys_run [OF assms])

lemma keys_lists_each_key_witness: "do_keys [lit ''keys''] [] empty_store empty_hmap = Some (empty_store, empty_hmap, encode (RArr []))"
  using keys_lists_each_key [of empty_store empty_hmap "[lit ''keys'']" "[]"] by auto

text \<open>C23: ZQUERY on a sorted set built by insertions replies with names and scores of the members from the rank of
  (score, name) plus the offset on, in order, half of the limit (rounded up) of them; with a position
  outside the set the array is empty.\<close>

theorem zquery_reports_range:
  assumes "store_inv n s" "db_inv s db"
    and "binds hobj (ekey s) (hm_nodes db) (cmd ! 1) a" "s_entry s a = Some e" "e_type e = T_ZSET"
    and "zset_inv (s_zmem s) (e_zset e) t" "avl t" "size t + 1 < 2 ^ 32"
    and "length cmd = 6" "str2dbl (cmd ! 2) = Some x" "str2int (cmd ! 4) = Some offset" "str2int (cmd ! 5) = Some limit" "0 < limit"
    and "pos = (if rank (s_zmem s) t (dord x, cmd ! 3) < size t then int (rank (s_zmem s) t (dord x, cmd ! 3)) + offset else int (size t))"
  shows "\<exists>db'. do_zquery cmd out s db = Some (s, db', out @ encode (RArr (concat (map (member_reply (s_zmem s)) (window (s_zmem s) t pos limit)))))
    \<and> db_inv s db' \<and> view s db' = view s db"
  by (rule do_zquery_run [OF assms])

text \<open>A store with one sorted set \<open>{a: 1}\<close> under the key \<open>k\<close>.\<close>

definition one_set :: "zmem \<Rightarrow> zset \<Rightarrow> store" where
  "one_set m zs = \<lparr>s_entry = [0 \<mapsto> (blank_entry T_ZSET 1)\<lparr>e_key := [107], e_zset := zs\<rparr>], s_next = 1,
     s_timers = ([], [0 \<mapsto> npos]), s_zmem = m, s_jobs = []\<rparr>"

lemma zquery_reports_range_witness:
  "\<exists>m zs db db'. zset_insert zmem0 empty_zset [97] 1 = Some (m, zs, True)
    \<and> do_zquery [lit ''zquery'', [107], lit ''0'', [], lit ''0'', lit ''2''] [] (one_set m zs) db =
        Some (one_set m zs, db', encode (RArr [RStr [97], RDbl 1]))"
proof -
  let ?cmd = "[lit ''zquery'', [107], lit ''0'', [], lit ''0'', lit ''2'']"
  obtain m zs t where z: "zset_insert zmem0 empty_zset [97] 1 = Some (m, zs, True)" "zset_inv m zs t" "unused m" "avl t" "size t = 1"
    "hle 4 t" "content m t = [[97] \<mapsto> 1]"
    using one_member by blast
  let ?s = "one_set m zs"
  have "budget 1 m zs t"
    using z by (simp add: budget_def)
  then have st: "store_inv 1 ?s"
    using z(3) by (auto simp: store_inv_def one_set_def entry_ok_def timers_ok_def heap_ord_def idx_ok_def npos_def blank_entry_def)
  have e: "s_entry ?s 0 = Some ((blank_entry T_ZSET 1)\<lparr>e_key := [107], e_zset := zs\<rparr>)" "ekey ?s 0 = [107]"
    by (simp_all add: one_set_def ekey_def)
  obtain db where db: "db_inv ?s db" "binds hobj (ekey ?s) (hm_nodes db) [107] 0"
    using db_insert_ok [of ?s empty_hmap "[107]" ?s 0] e by (auto simp: objs_def)
  obtain a where a: "nodes t = [a]" "zname m a = [97]" "zscore m a = 1"
    using one_member_nodes [OF z(2,5,7)] by blast
  have "live_node m a"
    using z(2) a(1) by (simp add: zset_inv_def)
  then have r: "rank m t (dord 0, []) = 0"
    using zkey_eq [of m a] a by (simp add: rank_def dord_def dbl_abs_def)
  have args: "str2dbl (lit ''0'') = Some 0" "str2int (lit ''0'') = Some 0" "str2int (lit ''2'') = Some 2"
    by code_simp+
  have "window m t 0 2 = [a]" "s_zmem ?s = m"
    by (simp_all add: window_def a(1) one_set_def)
  then show ?thesis
    using zquery_reports_range [OF st db(1), of ?cmd 0 _ t 0 0 2 0 "[]"] db(2) e(1) z r args a
    by (auto simp: blank_entry_def member_reply_def simp del: encode.simps)
qed

end
