(* ===== verification/LoopOk.thy ===== *)
theory LoopOk
  imports EventLoop ServerProps
begin

text \<open>
  What the event loop of server.cpp guarantees: the links between connections, descriptors and
  the idle list, the framing of requests and replies, the order of the bytes written, the
  expiry of idle connections, and the cases where a reply or a connection is lost.
\<close>

section \<open>Connections, descriptors and the idle list\<close>

text \<open>
  The idle list links exactly the live connections, in the order \<open>xs\<close>; a descriptor leads to
  a live connection with that descriptor; addresses from \<open>sv_next\<close> on are unused.
\<close>

definition fds_ok :: "server \<Rightarrow> bool" where
  "fds_ok sv \<longleftrightarrow> (\<forall>i a. i < length (sv_fd2conn sv) \<longrightarrow> sv_fd2conn sv ! i = Some a \<longrightarrow>
      (\<exists>c. sv_conn sv a = Some c \<and> c_fd c = int i))"

definition sv_inv :: "server \<Rightarrow> addr list \<Rightarrow> bool" where
  "sv_inv sv xs \<longleftrightarrow> ring (sv_idle sv) idle_list xs \<and> set xs = dom (sv_conn sv) \<and> dom (sv_conn sv) \<subseteq> {..< sv_next sv}
     \<and> idle_list < sv_next sv \<and> fds_ok sv"

lemma links_dom: "links m xs \<Longrightarrow> 2 \<le> length xs \<Longrightarrow> a \<in> set xs \<Longrightarrow> m a \<noteq> None"
proof (induction m xs rule: links.induct)
  case (1 m a b xs)
  then show ?case
    by (cases xs) (auto dest: linked_dom)
qed auto

lemma ring_dom: "ring m h xs \<Longrightarrow> a \<in> set (h # xs) \<Longrightarrow> m a \<noteq> None"
  using links_dom [of m "h # xs @ [h]" a] by (auto simp: ring_def)

lemma ring_cong:
  assumes "\<And>a. a \<in> set (h # xs) \<Longrightarrow> m' a = m a"
  shows "ring m' h xs = ring m h xs"
proof -
  have "links m' (h # xs @ [h]) = links m (h # xs @ [h])"
    by (rule links_cong) (use assms in \<open>auto dest!: in_set_butlastD\<close>)
  then show ?thesis
    by (simp add: ring_def)
qed

lemma server0_inv: "\<exists>sv. server0 = Some sv \<and> sv_inv sv [] \<and> sv_store sv = empty_store"
proof -
  obtain m where "dlist_init [idle_list \<mapsto> \<lparr>d_prev = None, d_next = None\<rparr>] (Some idle_list) = Some m" "ring m idle_list []"
    using dlist_init_ring [of "[idle_list \<mapsto> \<lparr>d_prev = None, d_next = None\<rparr>]" idle_list] by auto
  then show ?thesis
    by (simp add: server0_def sv_inv_def fds_ok_def idle_list_def)
qed

lemma sv_inv_distinct: "sv_inv sv xs \<Longrightarrow> distinct xs \<and> idle_list \<notin> set xs"
  unfolding sv_inv_def ring_def by auto

lemma sv_inv_split:
  assumes "sv_inv sv xs" "sv_conn sv a \<noteq> None"
  obtains us vs where "xs = us @ a # vs"
  using assms split_list [of a xs] by (auto simp: sv_inv_def)

text \<open>Changes inside one connection that keep its descriptor.\<close>

lemma sv_inv_upd:
  assumes "sv_inv sv xs" "sv_conn sv a = Some c" "c_fd c' = c_fd c"
  shows "sv_inv (sv\<lparr>sv_conn := (sv_conn sv)(a \<mapsto> c'), sv_store := s\<rparr>) xs"
proof -
  have "insert a (dom (sv_conn sv)) = dom (sv_conn sv)"
    using assms(2) by blast
  then show ?thesis
    using assms by (auto simp: sv_inv_def fds_ok_def)
qed

lemma touch_inv:
  assumes "sv_inv sv (us @ a # vs)" "sv_conn sv a = Some c"
  shows "\<exists>sv'. touch now a sv = Some sv' \<and> sv_inv sv' (us @ vs @ [a]) \<and> sv_store sv' = sv_store sv
    \<and> sv_conn sv' = (sv_conn sv)(a \<mapsto> c\<lparr>c_last_active_ms := now\<rparr>) \<and> sv_fd2conn sv' = sv_fd2conn sv \<and> sv_next sv' = sv_next sv"
proof -
  let ?sv = "sv\<lparr>sv_conn := (sv_conn sv)(a \<mapsto> c\<lparr>c_last_active_ms := now\<rparr>)\<rparr>"
  have r: "ring (sv_idle sv) idle_list (us @ a # vs)"
    using assms(1) by (simp add: sv_inv_def)
  obtain m1 where m1: "dlist_detach (sv_idle sv) (Some a) = Some m1" "ring m1 idle_list (us @ vs)"
    "\<forall>x. x \<notin> set (idle_list # us @ vs) \<longrightarrow> m1 x = sv_idle sv x"
    using dlist_detach_ring [OF r] by blast
  have a: "a \<notin> set (idle_list # us @ vs)"
    using r by (auto simp: ring_def)
  then obtain k where "m1 a = Some k"
    using m1(3) ring_dom [OF r, of a] by auto
  then obtain m2 where m2: "dlist_insert_before m1 (Some idle_list) (Some a) = Some m2" "ring m2 idle_list ((us @ vs) @ [a])"
    using dlist_insert_before_ring [OF m1(2) _ a] by blast
  have "insert a (dom (sv_conn sv)) = dom (sv_conn sv)"
    using assms(2) by blast
  then have "sv_inv (?sv\<lparr>sv_idle := m2\<rparr>) (us @ vs @ [a])"
    using assms m2(2) by (auto simp: sv_inv_def fds_ok_def)
  then show ?thesis
    using assms(2) m1(1) m2(1) by (simp add: touch_def upd_conn_def)
qed

lemma clear_fd_simps [simp]:
  "sv_conn (clear_fd fd sv) = sv_conn sv" "sv_idle (clear_fd fd sv) = sv_idle sv" "sv_next (clear_fd fd sv) = sv_next sv"
  "sv_store (clear_fd fd sv) = sv_store sv"
  by (simp_all add: clear_fd_def)

lemma clear_fd_twice [simp]: "clear_fd fd (clear_fd fd sv) = clear_fd fd sv"
  by (simp add: clear_fd_def)

lemma conn_destroy_inv:
  assumes "sv_inv sv (us @ a # vs)" "sv_conn sv a = Some c"
  shows "\<exists>sv'. conn_destroy a sv = Some sv' \<and> sv_inv sv' (us @ vs) \<and> sv_store sv' = sv_store sv
    \<and> sv_conn sv' = (sv_conn sv)(a := None) \<and> sv_next sv' = sv_next sv \<and> sv_fd2conn sv' = sv_fd2conn (clear_fd (c_fd c) sv)"
proof -
  have r: "ring (sv_idle sv) idle_list (us @ a # vs)"
    using assms(1) by (simp add: sv_inv_def)
  obtain m1 where m1: "dlist_detach (sv_idle sv) (Some a) = Some m1" "ring m1 idle_list (us @ vs)"
    using dlist_detach_ring [OF r] by blast
  have a: "a \<notin> set (idle_list # us @ vs)"
    using r by (auto simp: ring_def)
  have "ring (m1(a := None)) idle_list (us @ vs) = ring m1 idle_list (us @ vs)"
    by (rule ring_cong) (use a in auto)
  moreover have "set (us @ vs) = dom ((sv_conn sv)(a := None))"
    using assms(1) a by (auto simp: sv_inv_def)
  moreover have "fds_ok (clear_fd (c_fd c) sv\<lparr>sv_conn := (sv_conn sv)(a := None), sv_idle := m1(a := None)\<rparr>)"
    unfolding fds_ok_def
  proof (intro allI impI)
    fix i b
    let ?fds = "sv_fd2conn (clear_fd (c_fd c) sv)"
    assume "i < length (sv_fd2conn (clear_fd (c_fd c) sv\<lparr>sv_conn := (sv_conn sv)(a := None), sv_idle := m1(a := None)\<rparr>))"
      "sv_fd2conn (clear_fd (c_fd c) sv\<lparr>sv_conn := (sv_conn sv)(a := None), sv_idle := m1(a := None)\<rparr>) ! i = Some b"
    then have b: "i < length (sv_fd2conn sv)" "sv_fd2conn sv ! i = Some b" "\<not> (0 \<le> c_fd c \<and> i = nat (c_fd c))"
      by (auto simp: clear_fd_def nth_list_update split: if_splits)
    then obtain cb where cb: "sv_conn sv b = Some cb" "c_fd cb = int i"
      using assms(1) unfolding sv_inv_def fds_ok_def by blast
    then have "b \<noteq> a"
      using b(3) assms(2) by auto
    then show "\<exists>c'. sv_conn (clear_fd (c_fd c) sv\<lparr>sv_conn := (sv_conn sv)(a := None), sv_idle := m1(a := None)\<rparr>) b = Some c' \<and> c_fd c' = int i"
      using cb by simp
  qed
  ultimately show ?thesis
    using assms m1 by (auto simp: conn_destroy_def sv_inv_def Let_def)
qed

lemma handle_accept_inv:
  assumes "sv_inv sv xs" "0 \<le> fd"
  shows "\<exists>sv'. handle_accept now fd sv = Some (sv', Some (sv_next sv)) \<and> sv_inv sv' (xs @ [sv_next sv]) \<and> sv_store sv' = sv_store sv
    \<and> sv_fd2conn sv' = sv_fd2conn sv \<and> (\<exists>c. sv_conn sv' = (sv_conn sv)(sv_next sv \<mapsto> c) \<and> c_fd c = fd \<and> c_db c = empty_hmap)"
proof -
  let ?a = "sv_next sv"
  let ?m = "(sv_idle sv)(?a \<mapsto> \<lparr>d_prev = None, d_next = None\<rparr>)"
  have i: "ring (sv_idle sv) idle_list xs" "?a \<notin> set (idle_list # xs)" "sv_conn sv ?a = None"
    using assms(1) by (auto simp: sv_inv_def)
  have "ring ?m idle_list xs = ring (sv_idle sv) idle_list xs"
    by (rule ring_cong) (use i(2) in auto)
  then obtain m2 where m2: "dlist_insert_before ?m (Some idle_list) (Some ?a) = Some m2" "ring m2 idle_list (xs @ [?a])"
    using dlist_insert_before_ring [of ?m idle_list xs ?a] i(1,2) by auto
  show ?thesis
    using assms i(3) m2 by (auto simp: handle_accept_def Let_def sv_inv_def fds_ok_def)
qed

section \<open>One request\<close>

text \<open>The frame of a reply, with the error in its place when it is over the limit.\<close>

definition framed :: "reply \<Rightarrow> bytes" where
  "framed r = frame (if length (encode r) > k_max_msg then too_big else encode r)"

text \<open>A request that \<open>send_request\<close> of client.cpp can send.\<close>

definition sendable :: "bytes list \<Rightarrow> bool" where
  "sendable cmd \<longleftrightarrow> length (req_body cmd) \<le> k_max_msg \<and> length cmd \<le> k_max_args"

lemma frame_head:
  assumes "length body \<le> k_max_msg"
  shows "unat (rd32 (take 4 (frame body @ rest))) = length body" "drop 4 (frame body @ rest) = body @ rest"
    "length (frame body @ rest) = 4 + length body + length rest"
proof -
  have "rd32 (take 4 (frame body @ rest)) = of_nat (length body)"
    unfolding frame_def append_assoc by (rule c32.dec_prefix)
  then show "unat (rd32 (take 4 (frame body @ rest))) = length body"
    using assms unat_of_nat_u32 [of "length body"] by (simp add: k_max_msg_def)
  show "drop 4 (frame body @ rest) = body @ rest"
    unfolding frame_def append_assoc by (rule c32.drop_field)
qed (simp add: frame_def)

lemma sendable_args: "sendable cmd \<Longrightarrow> parse_req (req_body cmd) = Some cmd"
  by (simp add: sendable_def parse_req_sent)

lemma try_one_request_run:
  assumes "c_incoming c = frame (req_body cmd) @ rest" "sendable cmd"
    and "do_request now a cmd (le32 0) s (c_db c) = Some (s', db', le32 0 @ encode r)"
  shows "try_one_request now a c s = Some (c\<lparr>c_outgoing := framed r, c_db := db', c_incoming := rest\<rparr>, s', True)"
proof -
  have len: "length (req_body cmd) \<le> k_max_msg"
    using assms(2) by (simp add: sendable_def)
  note h = frame_head [OF len, of rest]
  have "response_end ([] @ le32 0 @ encode r) (length ([] :: bytes)) = Some ([] @ framed r)"
    unfolding framed_def by (rule response_end_run)
  then have e: "response_end (le32 0 @ encode r) 0 = Some (framed r)"
    by simp
  have b: "response_begin [] = (le32 0, 0)"
    by (simp add: response_begin_def buf_defs)
  have d: "drop (4 + length (req_body cmd)) (frame (req_body cmd) @ rest) = rest"
    by (simp add: frame_def)
  show ?thesis
    using len h e b d assms sendable_args [OF assms(2)]
    by (simp add: try_one_request_def buf_consume_def Let_def)
qed

text \<open>Not enough of a message yet: less than a header, or less than the header says.\<close>

definition partial_msg :: "bytes \<Rightarrow> bool" where
  "partial_msg buf \<longleftrightarrow> length buf < 4 \<or>
     (unat (rd32 (take 4 buf)) \<le> k_max_msg \<and> length buf < 4 + unat (rd32 (take 4 buf)))"

lemma try_one_request_partial: "partial_msg (c_incoming c) \<Longrightarrow> try_one_request now a c s = Some (c, s, False)"
  by (auto simp: try_one_request_def partial_msg_def Let_def)

lemma refuse_run:
  assumes "n \<le> length (c_incoming c)" "length err \<le> 100"
  shows "refuse err n c = Some (c\<lparr>c_outgoing := c_outgoing c @ frame (encode (RErr ERR_BAD_REQ err)),
     c_incoming := drop n (c_incoming c), c_want_read := False, c_want_write := True, c_want_close := True\<rparr>)"
proof -
  have "response_end (c_outgoing c @ le32 0 @ encode (RErr ERR_BAD_REQ err)) (length (c_outgoing c)) =
      Some (c_outgoing c @ frame (encode (RErr ERR_BAD_REQ err)))"
    using response_end_run [of "c_outgoing c" "encode (RErr ERR_BAD_REQ err)"] assms(2)
    by (simp add: field_def k_max_msg_def)
  then show ?thesis
    using assms(1) by (simp add: refuse_def response_begin_def buf_defs out_encode buf_consume_def del: encode.simps)
qed

text \<open>A message that the parser rejects, or a header over the limit.\<close>

lemma try_one_request_bad:
  assumes "4 \<le> length (c_incoming c)" "unat (rd32 (take 4 (c_incoming c))) > k_max_msg \<or>
      (4 + unat (rd32 (take 4 (c_incoming c))) \<le> length (c_incoming c)
       \<and> parse_req (take (unat (rd32 (take 4 (c_incoming c)))) (drop 4 (c_incoming c))) = None)"
  shows "\<exists>err n. try_one_request now a c s = Some (c\<lparr>c_outgoing := c_outgoing c @ frame (encode (RErr ERR_BAD_REQ err)),
     c_incoming := drop n (c_incoming c), c_want_read := False, c_want_write := True, c_want_close := True\<rparr>, s, False)"
proof (cases "unat (rd32 (take 4 (c_incoming c))) > k_max_msg")
  case True
  then show ?thesis
    using assms(1) refuse_run [of 4 c "lit ''Message too long''"]
    by (intro exI [of _ "lit ''Message too long''"] exI [of _ 4]) (simp add: try_one_request_def Let_def del: encode.simps)
next
  case False
  let ?n = "4 + unat (rd32 (take 4 (c_incoming c)))"
  show ?thesis
    using assms False refuse_run [of ?n c "lit ''Bad request''"]
    by (intro exI [of _ "lit ''Bad request''"] exI [of _ ?n]) (simp add: try_one_request_def Let_def del: encode.simps)
qed

text \<open>A message the server refuses: over the limit, or complete and not parsed.\<close>

definition bad_msg :: "bytes \<Rightarrow> bool" where
  "bad_msg buf \<longleftrightarrow> 4 \<le> length buf \<and> (unat (rd32 (take 4 buf)) > k_max_msg \<or>
      (4 + unat (rd32 (take 4 buf)) \<le> length buf \<and> parse_req (take (unat (rd32 (take 4 buf))) (drop 4 buf)) = None))"

text \<open>Either way the request loop stops, with the store and the hashtable as they were.\<close>

definition stops :: "bytes \<Rightarrow> bool" where
  "stops buf \<longleftrightarrow> partial_msg buf \<or> bad_msg buf"

lemma try_one_request_stops:
  assumes "stops (c_incoming c)"
  shows "\<exists>c'. try_one_request now a c s = Some (c', s, False) \<and> c_db c' = c_db c"
proof (cases "partial_msg (c_incoming c)")
  case True
  then show ?thesis
    using try_one_request_partial by auto
next
  case False
  then have "bad_msg (c_incoming c)"
    using assms by (simp add: stops_def)
  then show ?thesis
    using try_one_request_bad [of c now a s] by (auto simp: bad_msg_def)
qed

section \<open>A batch of requests\<close>

fun batch_end :: "(nat \<Rightarrow> u64) \<Rightarrow> nat \<Rightarrow> bytes list list \<Rightarrow> kv \<Rightarrow> kv" where
  "batch_end clock i [] f = f"
| "batch_end clock i (cmd # cmds) f = batch_end clock (i + 1) cmds (effect (clock i) cmd f)"

fun batch_answers :: "(nat \<Rightarrow> u64) \<Rightarrow> nat \<Rightarrow> bytes list list \<Rightarrow> kv \<Rightarrow> reply list \<Rightarrow> bool" where
  "batch_answers clock i [] f rs \<longleftrightarrow> rs = []"
| "batch_answers clock i (cmd # cmds) f rs \<longleftrightarrow>
     (case rs of [] \<Rightarrow> False | r # rs \<Rightarrow> answer (clock i) cmd f r \<and> batch_answers clock (i + 1) cmds (effect (clock i) cmd f) rs)"

fun batch_ok :: "(nat \<Rightarrow> u64) \<Rightarrow> nat \<Rightarrow> bytes list list \<Rightarrow> kv \<Rightarrow> bool" where
  "batch_ok clock i [] f \<longleftrightarrow> True"
| "batch_ok clock i (cmd # cmds) f \<longleftrightarrow>
     sendable cmd \<and> in_spec cmd f \<and> batch_ok clock (i + 1) cmds (effect (clock i) cmd f)"

definition requests :: "bytes list list \<Rightarrow> bytes" where
  "requests cmds = concat (map (\<lambda>cmd. frame (req_body cmd)) cmds)"

text \<open>The output buffer after a batch: \<open>try_one_request\<close> starts it afresh for every reply.\<close>

definition last_reply :: "reply list \<Rightarrow> bytes \<Rightarrow> bytes" where
  "last_reply rs out = (if rs = [] then out else framed (last rs))"

lemma batch_answers_length: "batch_answers clock i cmds f rs \<Longrightarrow> length rs = length cmds"
  by (induction cmds arbitrary: i f rs) (auto split: list.splits)

text \<open>The complete requests at the front of the input are served, whatever follows them.\<close>

lemma try_requests_batch:
  assumes "c_incoming c = requests cmds @ rest" "batch_ok clock i cmds (view s (c_db c))"
    and "store_inv n s" "db_inv s (c_db c)" "n + length cmds \<le> 30000"
  shows "\<exists>s' db' rs. try_requests clock i a c s = try_requests clock (i + length cmds) a
      (c\<lparr>c_outgoing := last_reply rs (c_outgoing c), c_db := db', c_incoming := rest\<rparr>) s'
    \<and> batch_answers clock i cmds (view s (c_db c)) rs
    \<and> view s' db' = batch_end clock i cmds (view s (c_db c)) \<and> store_inv (n + length cmds) s' \<and> db_inv s' db'"
  using assms
proof (induction cmds arbitrary: i c s n)
  case Nil
  then have "c_incoming c = rest"
    by (simp add: requests_def)
  then have "c\<lparr>c_outgoing := c_outgoing c, c_db := c_db c, c_incoming := rest\<rparr> = c"
    by simp
  then show ?case
    using Nil.prems(3,4) by (intro exI [of _ s] exI [of _ "c_db c"] exI [of _ "[]"]) (simp add: last_reply_def)
next
  case (Cons cmd cmds)
  let ?f = "view s (c_db c)"
  have ok: "sendable cmd" "in_spec cmd ?f" "n < 30000"
    using Cons.prems(2,5) by auto
  obtain s1 db1 r where r: "do_request (clock i) a cmd (le32 0) s (c_db c) = Some (s1, db1, le32 0 @ encode r)"
    "answer (clock i) cmd ?f r" "moves n s (c_db c) s1 db1 (effect (clock i) cmd ?f)"
    using do_request_ok [OF Cons.prems(3,4) ok(3,2), of "clock i" a "le32 0"] by blast
  have m: "store_inv (Suc n) s1" "db_inv s1 db1" "view s1 db1 = effect (clock i) cmd ?f"
    using r(3) by (simp_all add: moves_def)
  let ?c = "c\<lparr>c_outgoing := framed r, c_db := db1, c_incoming := requests cmds @ rest\<rparr>"
  have "c_incoming c = frame (req_body cmd) @ requests cmds @ rest"
    using Cons.prems(1) by (simp add: requests_def)
  then have one: "try_one_request (clock i) a c s = Some (?c, s1, True)"
    by (rule try_one_request_run [OF _ ok(1) r(1)])
  have step: "try_requests clock i a c s = try_requests clock (i + 1) a ?c s1"
    using one by (subst try_requests.simps) simp
  have bo: "batch_ok clock (i + 1) cmds (view s1 (c_db ?c))"
    using Cons.prems(2) m(3) by simp
  have len: "Suc n + length cmds \<le> 30000"
    using Cons.prems(5) by simp
  obtain s2 db2 rs where t: "try_requests clock (i + 1) a ?c s1 = try_requests clock (i + 1 + length cmds) a
      (?c\<lparr>c_outgoing := last_reply rs (c_outgoing ?c), c_db := db2, c_incoming := rest\<rparr>) s2"
    "batch_answers clock (i + 1) cmds (view s1 db1) rs"
    "view s2 db2 = batch_end clock (i + 1) cmds (view s1 db1)" "store_inv (Suc n + length cmds) s2" "db_inv s2 db2"
    using Cons.IH [of ?c "i + 1" s1 "Suc n", OF _ bo m(1) _ len] m(2) by auto
  have "last_reply rs (framed r) = last_reply (r # rs) (c_outgoing c)"
    by (simp add: last_reply_def)
  then show ?case
    using t r(2) m(3) unfolding step by (intro exI [of _ s2] exI [of _ db2] exI [of _ "r # rs"]) simp
qed

lemma try_requests_run:
  assumes "c_incoming c = requests cmds @ rest" "partial_msg rest" "batch_ok clock i cmds (view s (c_db c))"
    and "store_inv n s" "db_inv s (c_db c)" "n + length cmds \<le> 30000"
  shows "\<exists>s' db' rs. try_requests clock i a c s =
      Some (c\<lparr>c_outgoing := last_reply rs (c_outgoing c), c_db := db', c_incoming := rest\<rparr>, s')
    \<and> batch_answers clock i cmds (view s (c_db c)) rs
    \<and> view s' db' = batch_end clock i cmds (view s (c_db c)) \<and> store_inv (n + length cmds) s' \<and> db_inv s' db'"
proof -
  have "try_requests clock j a c s = Some (c, s)" if "c_incoming c = rest" for j c s
    using that assms(2) try_one_request_partial [of c "clock j" a s] by (simp add: try_requests.simps)
  then show ?thesis
    using try_requests_batch [OF assms(1,3-6), of a] by auto
qed

lemma frame_nonempty: "frame b \<noteq> []"
  by (simp add: frame_def)

lemma handle_read_run:
  assumes c: "sv_conn sv a = Some c" "c_incoming c @ buf = requests cmds @ rest" "buf \<noteq> []" "partial_msg rest"
    and s: "batch_ok clock 0 cmds (view (sv_store sv) (c_db c))" "store_inv n (sv_store sv)" "db_inv (sv_store sv) (c_db c)"
      "n + length cmds \<le> 30000" "cmds \<noteq> []"
  shows "\<exists>sv' c' rs. handle_read clock (ReadBytes buf) a sv = Some sv' \<and> sv_conn sv' = (sv_conn sv)(a \<mapsto> c')
    \<and> batch_answers clock 0 cmds (view (sv_store sv) (c_db c)) rs \<and> c_outgoing c' = framed (last rs)
    \<and> c_incoming c' = rest \<and> \<not> c_want_read c' \<and> c_want_write c' \<and> c_want_close c' = c_want_close c
    \<and> view (sv_store sv') (c_db c') = batch_end clock 0 cmds (view (sv_store sv) (c_db c))
    \<and> store_inv (n + length cmds) (sv_store sv') \<and> db_inv (sv_store sv') (c_db c')"
proof -
  let ?c = "c\<lparr>c_incoming := c_incoming c @ buf\<rparr>" and ?f = "view (sv_store sv) (c_db c)"
  obtain s' db' rs where t: "try_requests clock 0 a ?c (sv_store sv) =
      Some (?c\<lparr>c_outgoing := last_reply rs (c_outgoing c), c_db := db', c_incoming := rest\<rparr>, s')"
    "batch_answers clock 0 cmds ?f rs" "view s' db' = batch_end clock 0 cmds ?f" "store_inv (n + length cmds) s'" "db_inv s' db'"
    using try_requests_run [of ?c cmds rest clock 0 "sv_store sv" n a] c(2,4) s(1-4) by auto
  have "rs \<noteq> []"
    using s(5) batch_answers_length [OF t(2)] by auto
  then have o: "last_reply rs (c_outgoing c) = framed (last rs)" "framed (last rs) \<noteq> []"
    by (simp_all add: last_reply_def framed_def frame_nonempty)
  let ?c2 = "?c\<lparr>c_outgoing := framed (last rs), c_db := db', c_incoming := rest, c_want_read := False, c_want_write := True\<rparr>"
  have "handle_read clock (ReadBytes buf) a sv = Some (sv\<lparr>sv_conn := (sv_conn sv)(a \<mapsto> ?c2), sv_store := s'\<rparr>)"
    using c(1,3) t(1) o by (simp add: handle_read_def buf_append_def Let_def)
  then show ?thesis
    using t(2-5) by (intro exI [of _ "sv\<lparr>sv_conn := (sv_conn sv)(a \<mapsto> ?c2), sv_store := s'\<rparr>"] exI [of _ ?c2] exI [of _ rs]) simp
qed

section \<open>Writing\<close>

lemma handle_write_run:
  "handle_write ws c = Some c' \<Longrightarrow>
    (\<exists>k \<le> length (c_outgoing c). c_outgoing c' = drop k (c_outgoing c)) \<and> c_incoming c' = c_incoming c \<and> c_db c' = c_db c
    \<and> c_fd c' = c_fd c
    \<and> (c_want_close c' = c_want_close c \<and> c_outgoing c' = [] \<and> c_want_read c' \<and> \<not> c_want_write c'
       \<or> c_want_close c' = c_want_close c \<and> c_outgoing c' \<noteq> [] \<and> c_want_read c' = c_want_read c \<and> c_want_write c' = c_want_write c
       \<or> c_want_close c')"
proof (induction ws c rule: handle_write.induct)
  case (1 ws c)
  show ?case
  proof (cases "\<exists>n ws'. c_outgoing c \<noteq> [] \<and> ws = WriteSent n # ws' \<and> n \<noteq> 0")
    case False
    then show ?thesis
      using "1.prems" by (subst (asm) handle_write.simps) (auto split: if_splits list.splits write_result.splits)
  next
    case True
    then obtain n ws' where w: "c_outgoing c \<noteq> []" "ws = WriteSent n # ws'" "n \<noteq> 0"
      by blast
    let ?c = "c\<lparr>c_outgoing := drop n (c_outgoing c)\<rparr>"
    have r: "n \<le> length (c_outgoing c)" "handle_write ws' ?c = Some c'"
      using "1.prems" w by (auto simp: handle_write.simps [of "WriteSent n # ws'"] buf_consume_def split: bind_splits)
    have b: "buf_consume (c_outgoing c) n = Some (drop n (c_outgoing c))"
      using r(1) by (simp add: buf_consume_def)
    obtain k where "k \<le> length (c_outgoing ?c)" "c_outgoing c' = drop k (c_outgoing ?c)"
      using "1.IH" [OF w(1,2) refl w(3) b r(2)] by blast
    then have "\<exists>k \<le> length (c_outgoing c). c_outgoing c' = drop k (c_outgoing c)"
      by (intro exI [of _ "k + n"]) (use r(1) in auto)
    then show ?thesis
      using "1.IH" [OF w(1,2) refl w(3) b r(2)] by simp
  qed
qed

section \<open>Idle connections\<close>

definition idle_expired :: "u64 \<Rightarrow> server \<Rightarrow> addr \<Rightarrow> bool" where
  "idle_expired now sv a \<longleftrightarrow> (\<exists>c. sv_conn sv a = Some c \<and> c_last_active_ms c + k_idle_timeout_ms < now)"

lemma ring_first:
  assumes "ring m h (a # xs)"
  shows "d_rd d_next m (Some h) = Some (Some a)"
  using assms by (cases xs) (auto simp: ring_def linked_def mem_simps)

lemma idle_loop_run:
  "sv_inv sv xs \<Longrightarrow> \<exists>sv'. idle_loop now sv = Some sv' \<and> sv_inv sv' (dropWhile (idle_expired now sv) xs)
    \<and> sv_store sv' = sv_store sv \<and> sv_conn sv' = sv_conn sv |` (- set (takeWhile (idle_expired now sv) xs))"
proof (induction xs arbitrary: sv)
  case Nil
  then have "ring (sv_idle sv) idle_list []"
    by (simp add: sv_inv_def)
  then have "dlist_empty (sv_idle sv) (Some idle_list) = Some True"
    using dlist_empty_ring by force
  then show ?case
    using Nil by (subst idle_loop.simps) (simp add: restrict_map_def)
next
  case (Cons a xs)
  have r: "ring (sv_idle sv) idle_list (a # xs)" "a \<notin> set xs"
    using Cons.prems by (auto simp: sv_inv_def ring_def)
  have e: "dlist_empty (sv_idle sv) (Some idle_list) = Some False"
    using dlist_empty_ring [OF r(1)] by simp
  obtain c where c: "sv_conn sv a = Some c"
    using Cons.prems by (auto simp: sv_inv_def)
  show ?case
  proof (cases "idle_expired now sv a")
    case False
    then have "now \<le> c_last_active_ms c + k_idle_timeout_ms"
      using c by (simp add: idle_expired_def not_less)
    then have "idle_loop now sv = Some sv"
      using e c ring_first [OF r(1)] by (subst idle_loop.simps) (simp add: Let_def)
    then show ?thesis
      using False Cons.prems by simp
  next
    case True
    then have late: "c_last_active_ms c + k_idle_timeout_ms < now"
      using c by (simp add: idle_expired_def)
    have "fds_ok (clear_fd (c_fd c) sv)" if "fds_ok sv"
      using that by (auto simp: fds_ok_def clear_fd_def nth_list_update split: if_splits)
    then have "sv_inv (clear_fd (c_fd c) sv) ([] @ a # xs)"
      using Cons.prems by (simp add: sv_inv_def)
    then obtain sv1 where d: "conn_destroy a (clear_fd (c_fd c) sv) = Some sv1" "sv_inv sv1 xs" "sv_store sv1 = sv_store sv"
      "sv_conn sv1 = (sv_conn sv)(a := None)"
      using conn_destroy_inv [of "clear_fd (c_fd c) sv" "[]" a xs c] c by auto
    have step: "idle_loop now sv = idle_loop now sv1"
      using e c ring_first [OF r(1)] leD [of now "c_last_active_ms c + k_idle_timeout_ms"] late d(1)
      by (subst idle_loop.simps) (auto simp: Let_def)
    have same: "idle_expired now sv1 b = idle_expired now sv b" if "b \<in> set xs" for b
      using that r(2) d(4) by (auto simp: idle_expired_def)
    have tw: "takeWhile (idle_expired now sv1) xs = takeWhile (idle_expired now sv) xs"
      "dropWhile (idle_expired now sv1) xs = dropWhile (idle_expired now sv) xs"
      using same by (auto intro: takeWhile_cong dropWhile_cong)
    obtain sv' where sv': "idle_loop now sv1 = Some sv'" "sv_inv sv' (dropWhile (idle_expired now sv) xs)" "sv_store sv' = sv_store sv"
      "sv_conn sv' = (sv_conn sv)(a := None) |` (- set (takeWhile (idle_expired now sv) xs))"
      using Cons.IH [OF d(2)] unfolding tw d(3,4) by blast
    have "sv_conn sv' = sv_conn sv |` (- set (takeWhile (idle_expired now sv) (a # xs)))"
      unfolding sv'(4) using True by (auto simp: restrict_map_def fun_eq_iff)
    then show ?thesis
      using sv'(1-3) True step by simp
  qed
qed

section \<open>The loop keeps the links\<close>

lemma try_one_request_fd:
  "try_one_request now a c s = Some (c', s', g) \<Longrightarrow> c_fd c' = c_fd c"
  by (auto simp: try_one_request_def refuse_def Let_def split: if_splits option.splits bind_splits prod.splits)

lemma try_requests_fd: "try_requests clock i a c s = Some (c', s') \<Longrightarrow> c_fd c' = c_fd c"
proof (induction clock i a c s rule: try_requests.induct)
  case (1 clock i a c s)
  obtain c1 s1 g where one: "try_one_request (clock i) a c s = Some (c1, s1, g)"
    using "1.prems" by (subst (asm) try_requests.simps) (auto split: option.splits)
  have "try_requests clock i a c s = (if g then try_requests clock (i + 1) a c1 s1 else Some (c1, s1))"
    using one by (subst try_requests.simps) simp
  then show ?case
    using "1.IH" [OF one refl refl] "1.prems" try_one_request_fd [OF one] by (auto split: if_splits)
qed

lemma handle_read_result:
  assumes "handle_read clock rv a sv = Some sv'" "sv_conn sv a = Some c"
  shows "\<exists>c' s'. sv' = sv\<lparr>sv_conn := (sv_conn sv)(a \<mapsto> c'), sv_store := s'\<rparr> \<and> c_fd c' = c_fd c"
proof -
  have same: "sv\<lparr>sv_conn := (sv_conn sv)(a \<mapsto> c), sv_store := sv_store sv\<rparr> = sv"
    using assms(2) by (simp add: fun_upd_idem)
  have closing: ?thesis if "sv' = sv\<lparr>sv_conn := (sv_conn sv)(a \<mapsto> c\<lparr>c_want_close := True\<rparr>)\<rparr>"
    using that by (intro exI [of _ "c\<lparr>c_want_close := True\<rparr>"] exI [of _ "sv_store sv"]) simp
  show ?thesis
  proof (cases rv)
    case ReadErr
    then show ?thesis
      using assms by (intro closing) (simp add: handle_read_def upd_conn_def)
  next
    case ReadAgain
    then show ?thesis
      using assms(1) same by (intro exI [of _ c] exI [of _ "sv_store sv"]) (simp add: handle_read_def)
  next
    case (ReadBytes buf)
    show ?thesis
    proof (cases "buf = []")
      case True
      then show ?thesis
        using assms ReadBytes by (intro closing) (simp add: handle_read_def upd_conn_def)
    next
      case False
      then obtain c1 s1 where t: "try_requests clock 0 a (c\<lparr>c_incoming := buf_append (c_incoming c) buf\<rparr>) (sv_store sv) = Some (c1, s1)"
        "sv' = sv\<lparr>sv_conn := (sv_conn sv)(a \<mapsto> if length (c_outgoing c1) > 0 then c1\<lparr>c_want_read := False, c_want_write := True\<rparr> else c1),
          sv_store := s1\<rparr>"
        using assms ReadBytes by (auto simp: handle_read_def Let_def split: bind_splits)
      then show ?thesis
        using try_requests_fd [OF t(1)]
        by (intro exI [of _ "if length (c_outgoing c1) > 0 then c1\<lparr>c_want_read := False, c_want_write := True\<rparr> else c1"] exI [of _ s1]) simp
    qed
  qed
qed

lemma handle_read_inv:
  assumes "sv_inv sv xs" "handle_read clock rv a sv = Some sv'" "sv_conn sv a \<noteq> None"
  shows "sv_inv sv' xs"
  using handle_read_result [OF assms(2)] assms(1,3) sv_inv_upd by fastforce

lemma fd_lookup_conn:
  assumes "sv_inv sv xs" "fd_lookup fd sv = Some a"
  shows "\<exists>c. sv_conn sv a = Some c \<and> c_fd c = fd"
proof -
  have "nat fd < length (sv_fd2conn sv)" "sv_fd2conn sv ! nat fd = Some a" "0 \<le> fd"
    using assms(2) by (auto simp: fd_lookup_def split: if_splits)
  then show ?thesis
    using assms(1) unfolding sv_inv_def fds_ok_def by fastforce
qed

lemma handle_conn_inv:
  assumes "sv_inv sv xs" "handle_conn fd ev sv = Some sv'"
  shows "\<exists>xs'. sv_inv sv' xs'"
proof (cases "(\<not> ev_in ev \<and> \<not> ev_out ev \<and> \<not> ev_err ev \<and> \<not> ev_other ev) \<or> fd_lookup fd sv = None")
  case True
  then show ?thesis
    using assms by (auto simp: handle_conn_def split: if_splits)
next
  case False
  then obtain a where a: "fd_lookup fd sv = Some a"
    by auto
  then obtain c where c: "sv_conn sv a = Some c"
    using fd_lookup_conn [OF assms(1)] by blast
  then obtain us vs where xs: "xs = us @ a # vs"
    using sv_inv_split [OF assms(1)] by blast
  obtain sv1 where s1: "touch (ev_now ev) a sv = Some sv1" "sv_inv sv1 (us @ vs @ [a])" "sv_conn sv1 a \<noteq> None"
    using touch_inv [OF assms(1) [unfolded xs] c, of "ev_now ev"] by auto
  have run: "do {
       sv \<leftarrow> (if ev_in ev then handle_read (ev_clock ev) (ev_read ev) a sv1 else Some sv1);
       sv \<leftarrow> (if ev_out ev then do { c \<leftarrow> sv_conn sv a; c \<leftarrow> handle_write (ev_write ev) c; Some (sv\<lparr>sv_conn := (sv_conn sv)(a \<mapsto> c)\<rparr>) }
             else Some sv);
       c \<leftarrow> sv_conn sv a;
       if ev_err ev \<or> c_want_close c then conn_destroy a sv else Some sv } = Some sv'"
  proof -
    have nz: "(\<not> ev_in ev \<and> \<not> ev_out ev \<and> \<not> ev_err ev \<and> \<not> ev_other ev) = False"
      using False by blast
    show ?thesis
      using assms(2) by (simp only: handle_conn_def nz if_False a option.case s1(1) bind.bind_lunit)
  qed
  then obtain sv2 where s2: "(if ev_in ev then handle_read (ev_clock ev) (ev_read ev) a sv1 else Some sv1) = Some sv2"
    by (auto split: bind_splits)
  then have i2: "sv_inv sv2 (us @ vs @ [a])"
    using handle_read_inv [OF s1(2) _ s1(3)] s1(2) by (auto split: if_splits)
  obtain c2 where c2: "sv_conn sv2 a = Some c2"
    using i2 by (auto simp: sv_inv_def)
  obtain sv3 where s3: "(if ev_out ev then do { c \<leftarrow> sv_conn sv2 a; c \<leftarrow> handle_write (ev_write ev) c; Some (sv2\<lparr>sv_conn := (sv_conn sv2)(a \<mapsto> c)\<rparr>) }
      else Some sv2) = Some sv3"
    using run s2 by (auto split: bind_splits)
  have i3: "sv_inv sv3 (us @ vs @ [a])"
  proof (cases "ev_out ev")
    case True
    then obtain c3 where w: "handle_write (ev_write ev) c2 = Some c3" "sv3 = sv2\<lparr>sv_conn := (sv_conn sv2)(a \<mapsto> c3)\<rparr>"
      using s3 c2 by (auto split: bind_splits)
    then show ?thesis
      using sv_inv_upd [OF i2 c2, of c3 "sv_store sv2"] handle_write_run [OF w(1)] by simp
  next
    case False
    then show ?thesis
      using s3 i2 by simp
  qed
  obtain c3 where c3: "sv_conn sv3 a = Some c3"
    using i3 by (auto simp: sv_inv_def)
  have fin: "(if ev_err ev \<or> c_want_close c3 then conn_destroy a sv3 else Some sv3) = Some sv'"
    using run s2 s3 c3 by simp
  have "sv_inv sv3 ((us @ vs) @ a # [])"
    using i3 by simp
  from conn_destroy_inv [OF this c3] show ?thesis
    using fin i3 by (auto split: if_splits)
qed

lemma handle_conns_inv:
  "handle_conns evs sv = Some sv' \<Longrightarrow> sv_inv sv xs \<Longrightarrow> \<exists>xs'. sv_inv sv' xs'"
proof (induction evs sv arbitrary: xs rule: handle_conns.induct)
  case (2 fd ev evs sv)
  then obtain sv1 where s: "handle_conn fd ev sv = Some sv1" "handle_conns evs sv1 = Some sv'"
    by (auto split: bind_splits)
  obtain xs1 where "sv_inv sv1 xs1"
    using handle_conn_inv [OF "2.prems"(2) s(1)] by blast
  then show ?case
    by (rule "2.IH" [OF s])
qed auto

lemma accept_conn_inv:
  assumes "sv_inv sv xs" "accept_conn acc sv = Some sv'"
    and "\<And>now fd. acc = Some (now, fd) \<Longrightarrow> 0 \<le> fd \<Longrightarrow> fd_lookup fd sv = None"
  shows "\<exists>xs'. sv_inv sv' xs'"
proof (cases "\<exists>now fd. acc = Some (now, fd) \<and> 0 \<le> fd")
  case False
  then have "sv' = sv"
    using assms(2) by (auto simp: accept_conn_def handle_accept_def split: option.splits)
  then show ?thesis
    using assms(1) by blast
next
  case True
  then obtain now fd where acc: "acc = Some (now, fd)" "0 \<le> fd"
    by blast
  let ?a = "sv_next sv"
  obtain sv1 c where s1: "handle_accept now fd sv = Some (sv1, Some ?a)" "sv_inv sv1 (xs @ [?a])"
    "sv_fd2conn sv1 = sv_fd2conn sv" "sv_conn sv1 = (sv_conn sv)(?a \<mapsto> c)" "c_fd c = fd"
    using handle_accept_inv [OF assms(1) acc(2), of now] by blast
  let ?fds = "if length (sv_fd2conn sv) \<le> nat fd then sv_fd2conn sv @ replicate (nat fd + 1 - length (sv_fd2conn sv)) None else sv_fd2conn sv"
  have sv': "sv' = sv1\<lparr>sv_fd2conn := ?fds[nat fd := Some ?a]\<rparr>"
    using assms(2) acc s1 by (auto simp: accept_conn_def Let_def)
  have old: "?fds ! i = Some b \<Longrightarrow> i < length ?fds \<Longrightarrow> i < length (sv_fd2conn sv) \<and> sv_fd2conn sv ! i = Some b" for i b
    by (auto simp: nth_append split: if_splits)
  have "fds_ok sv'"
    unfolding fds_ok_def
  proof (intro allI impI)
    fix i b
    assume i: "i < length (sv_fd2conn sv')" "sv_fd2conn sv' ! i = Some b"
    show "\<exists>c. sv_conn sv' b = Some c \<and> c_fd c = int i"
    proof (cases "i = nat fd")
      case True
      then show ?thesis
        using i s1(4,5) acc(2) by (auto simp: sv')
    next
      case False
      then have "i < length (sv_fd2conn sv1)" "sv_fd2conn sv1 ! i = Some b"
        using i old [of i b] s1(3) by (auto simp: sv')
      then show ?thesis
        using s1(2) unfolding sv_inv_def fds_ok_def sv' by simp
    qed
  qed
  then have "sv_inv sv' (xs @ [?a])"
    using s1(2) by (simp add: sv_inv_def sv')
  then show ?thesis
    by blast
qed

lemma sv_inv_store: "sv_inv (sv\<lparr>sv_store := s\<rparr>) xs = sv_inv sv xs"
  by (simp add: sv_inv_def fds_ok_def)

lemma sv_inv_db: "sv_inv sv xs \<Longrightarrow> sv_conn sv a = Some c \<Longrightarrow> sv_inv (sv\<lparr>sv_conn := (sv_conn sv)(a \<mapsto> c\<lparr>c_db := db\<rparr>)\<rparr>) xs"
  using sv_inv_upd [of sv xs a c "c\<lparr>c_db := db\<rparr>" "sv_store sv"] by simp

lemma ttl_loop_inv:
  assumes "ttl_loop now k sv = Some sv'" "sv_inv sv xs"
  shows "sv_inv sv' xs"
proof -
  have "sv_inv sv xs \<longrightarrow> sv_inv sv' xs"
    by (rule ttl_loop.raw_induct [where P = "\<lambda>now k sv sv'. sv_inv sv xs \<longrightarrow> sv_inv sv' xs", OF _ assms(1)])
      (auto simp: Let_def sv_inv_store sv_inv_db split: if_splits option.splits bind_splits prod.splits)
  then show ?thesis
    using assms(2) by blast
qed

lemma process_timers_inv: "process_timers now sv = Some sv' \<Longrightarrow> sv_inv sv xs \<Longrightarrow> \<exists>xs'. sv_inv sv' xs'"
  using idle_loop_run [of sv xs now] ttl_loop_inv by (auto simp: process_timers_def) blast

text \<open>\<open>accept\<close> returns a descriptor that is not in use.\<close>

definition fresh_fd :: "poll_result \<Rightarrow> server \<Rightarrow> bool" where
  "fresh_fd polled sv \<longleftrightarrow>
     (case polled of PollReady (Some (t, fd)) evs \<Rightarrow> 0 \<le> fd \<longrightarrow> fd_lookup fd sv = None | _ \<Rightarrow> True)"

lemma loop_once_inv:
  assumes "loop_once now polled tnow sv = Some (timeout, sv')" "sv_inv sv xs" "fresh_fd polled sv"
  shows "\<exists>xs'. sv_inv sv' xs'"
proof (cases polled)
  case PollIntr
  then show ?thesis
    using assms(1,2) by (auto simp: loop_once_def split: bind_splits)
next
  case (PollReady acc evs)
  obtain args :: "pollfd list" and sv1 sv2 where s: "accept_conn acc sv = Some sv1" "handle_conns (zip (map p_fd args) evs) sv1 = Some sv2"
    "process_timers tnow sv2 = Some sv'"
    using assms(1) PollReady by (auto simp: loop_once_def split: bind_splits)
  have "fd_lookup fd sv = None" if "acc = Some (t, fd)" "0 \<le> fd" for t fd
    using assms(3) PollReady that by (simp add: fresh_fd_def)
  then obtain xs1 where "sv_inv sv1 xs1"
    using accept_conn_inv [OF assms(2) s(1)] by blast
  then obtain xs2 where "sv_inv sv2 xs2"
    using handle_conns_inv [OF s(2)] by blast
  then show ?thesis
    using process_timers_inv [OF s(3)] by blast
qed

text \<open>The states the loop of \<open>main\<close> gets to.\<close>

inductive loop_reach :: "server \<Rightarrow> bool" where
  start: "server0 = Some sv \<Longrightarrow> loop_reach sv"
| iterate: "loop_reach sv \<Longrightarrow> fresh_fd polled sv \<Longrightarrow> loop_once now polled tnow sv = Some (timeout, sv') \<Longrightarrow> loop_reach sv'"

section \<open>Order of the idle list\<close>

definition last_ms :: "server \<Rightarrow> addr \<Rightarrow> nat" where
  "last_ms sv a = (case sv_conn sv a of None \<Rightarrow> 0 | Some c \<Rightarrow> unat (c_last_active_ms c))"

text \<open>The clock has not come within a minute of \<open>2 ^ 64\<close> ms.\<close>

definition idle_sorted :: "server \<Rightarrow> addr list \<Rightarrow> bool" where
  "idle_sorted sv xs \<longleftrightarrow> sorted (map (last_ms sv) xs) \<and> \<not> (\<exists>a \<in> set xs. last_ms sv a + 60000 \<ge> 2 ^ 64)"

lemma idle_expired_ms:
  assumes "sv_conn sv a = Some c" "last_ms sv a + 60000 < 2 ^ 64"
  shows "idle_expired now sv a \<longleftrightarrow> last_ms sv a + 60000 < unat now"
proof -
  have "unat (c_last_active_ms c + k_idle_timeout_ms) = last_ms sv a + 60000"
    using assms by (simp add: last_ms_def k_idle_timeout_ms_def unat_word_ariths)
  then show ?thesis
    using assms(1) by (simp add: idle_expired_def word_less_nat_alt)
qed

lemma takeWhile_sorted:
  fixes f :: "'a \<Rightarrow> nat"
  assumes "sorted (map f xs)" "\<And>a. a \<in> set xs \<Longrightarrow> P a \<longleftrightarrow> f a < k"
  shows "set (takeWhile P xs) = {a \<in> set xs. P a}"
  using assms
proof (induction xs)
  case (Cons x xs)
  then show ?case
    by (cases "P x") (auto simp: not_less dest!: bspec)
qed simp

section \<open>Properties\<close>

text \<open>C15: In every state that the loop of \<open>main\<close> reaches, the idle list is a well-formed ring through exactly the live
  connections, and every entry of \<open>fd2conn\<close> is null or points to a live connection with that descriptor:
  closing a connection, by the peer, an error or a timeout, leaves no dangling pointer in either.\<close>

theorem loop_keeps_links:
  assumes "loop_reach sv"
  shows "\<exists>xs. sv_inv sv xs"
  using assms
proof (induction rule: loop_reach.induct)
  case (start sv)
  then show ?case
    using server0_inv by (metis option.inject)
next
  case (iterate sv polled now tnow timeout sv')
  then show ?case
    using loop_once_inv by blast
qed

lemma loop_keeps_links_witness: "\<exists>sv xs. server0 = Some sv \<and> sv_inv sv xs"
  using server0_inv loop_keeps_links [OF loop_reach.start] by blast

text \<open>C8: A read that completes a batch of requests runs every one of them, in order, as the specification says, and
  keeps the incomplete rest of the input; the connection then wants to write. The output buffer holds
  the frame of one reply, that of the last request.\<close>

theorem read_serves_batch:
  assumes "sv_conn sv a = Some c" "c_incoming c @ buf = requests cmds @ rest" "buf \<noteq> []" "cmds \<noteq> []" "partial_msg rest"
    and "batch_ok clock 0 cmds (view (sv_store sv) (c_db c))" "store_inv n (sv_store sv)" "db_inv (sv_store sv) (c_db c)"
      "n + length cmds \<le> 30000"
  shows "\<exists>sv' c' rs. handle_read clock (ReadBytes buf) a sv = Some sv' \<and> sv_conn sv' = (sv_conn sv)(a \<mapsto> c')
    \<and> view (sv_store sv') (c_db c') = batch_end clock 0 cmds (view (sv_store sv) (c_db c))
    \<and> batch_answers clock 0 cmds (view (sv_store sv) (c_db c)) rs \<and> c_outgoing c' = framed (last rs)
    \<and> c_incoming c' = rest \<and> \<not> c_want_read c' \<and> c_want_write c'"
  using handle_read_run [OF assms(1-3,5-9,4)] by blast

definition conn0 :: conn where
  "conn0 = \<lparr>c_fd = 5, c_want_read = True, c_want_write = False, c_want_close = False, c_incoming = [], c_outgoing = [],
     c_last_active_ms = 0, c_db = empty_hmap\<rparr>"

definition set_get :: "bytes list list" where
  "set_get = [[lit ''set'', [107], [118]], [lit ''get'', [107]]]"

lemma set_get_size: "set_get \<noteq> []" "length set_get = 2"
  by (simp_all add: set_get_def)

lemma set_get_ok:
  "batch_ok clock i set_get Map.empty" "batch_answers clock i set_get Map.empty rs \<longleftrightarrow> rs = [RStr (lit ''1''), RStr [118]]"
  by (auto simp: set_get_def sendable_def req_body_def field_def k_max_msg_def k_max_args_def in_spec_def is_cmd_def lit_def
      effect_def answer_def spec_def spec_set_def spec_get_def split: list.splits)

definition sv_one :: server where
  "sv_one = \<lparr>sv_conn = [1 \<mapsto> conn0], sv_next = 2, sv_idle = Map.empty, sv_fd2conn = [], sv_store = empty_store\<rparr>"

lemma sv_one_simps [simp]:
  "sv_conn sv_one = [1 \<mapsto> conn0]" "sv_store sv_one = empty_store" "c_incoming conn0 = []" "c_db conn0 = empty_hmap"
  by (simp_all add: sv_one_def conn0_def)

lemma read_serves_batch_witness:
  "\<exists>sv' c'. handle_read (\<lambda>_. 7) (ReadBytes (requests set_get @ [1, 0])) 1 sv_one = Some sv'
    \<and> sv_conn sv' = [1 \<mapsto> c'] \<and> c_outgoing c' = framed (RStr [118]) \<and> c_incoming c' = [1, 0]"
proof -
  have v: "view empty_store empty_hmap = Map.empty"
    by simp
  have p: "partial_msg [1, 0]"
    by (simp add: partial_msg_def)
  show ?thesis
    using read_serves_batch [of sv_one 1 conn0 "requests set_get @ [1, 0]" set_get "[1, 0]" "\<lambda>_. 7" 0, OF _ _ _ _ p]
      set_get_ok [of "\<lambda>_. 7" 0] set_get_size
    by (auto simp: v)
qed

end
