(* ===== verification/Service.thy ===== *)
theory Service
  imports LoopOk
begin

text \<open>
  What the server of server.cpp offers, without buffers, hashtables, heap or idle list: every
  connection has a map of keys of its own, and what happens to these maps is a sequence of
  actions. A state of the server stands for the maps it holds.
\<close>

section \<open>The abstract service\<close>

type_synonym service = "addr \<rightharpoonup> kv"

datatype action = Connect addr | Request addr u64 "bytes list" | Close addr | Expire u64 addr bytes

fun act :: "action \<Rightarrow> service \<Rightarrow> service option" where
  "act (Connect a) A = (if A a = None then Some (A(a \<mapsto> Map.empty)) else None)"
| "act (Request a now cmd) A = do { f \<leftarrow> A a; Some (A(a \<mapsto> effect now cmd f)) }"
| "act (Close a) A = do { f \<leftarrow> A a; Some (A(a := None)) }"
| "act (Expire now a k) A = do {
     f \<leftarrow> A a;
     (v, d) \<leftarrow> f k;
     d \<leftarrow> d;
     if d < now then Some (A(a \<mapsto> f(k := None))) else None
   }"

fun acts :: "action list \<Rightarrow> service \<Rightarrow> service option" where
  "acts [] A = Some A"
| "acts (x # xs) A = do { A \<leftarrow> act x A; acts xs A }"

lemma acts_append [simp]: "acts (xs @ ys) A = do { A \<leftarrow> acts xs A; acts ys A }"
proof (induction xs arbitrary: A)
  case (Cons x xs)
  then show ?case
    by (cases "act x A") simp_all
qed simp

text \<open>The requests among the actions, and the clocks read by the expiries.\<close>

fun commands :: "action list \<Rightarrow> bytes list list" where
  "commands [] = []"
| "commands (Request a now cmd # xs) = cmd # commands xs"
| "commands (x # xs) = commands xs"

fun expiry_clocks :: "action list \<Rightarrow> u64 list" where
  "expiry_clocks [] = []"
| "expiry_clocks (Expire now a k # xs) = now # expiry_clocks xs"
| "expiry_clocks (x # xs) = expiry_clocks xs"

lemma commands_append [simp]: "commands (xs @ ys) = commands xs @ commands ys"
  by (induction xs rule: commands.induct) auto

lemma expiry_clocks_append [simp]: "expiry_clocks (xs @ ys) = expiry_clocks xs @ expiry_clocks ys"
  by (induction xs rule: expiry_clocks.induct) auto

text \<open>The requests that one read completes.\<close>

fun batch_acts :: "addr \<Rightarrow> (nat \<Rightarrow> u64) \<Rightarrow> nat \<Rightarrow> bytes list list \<Rightarrow> action list" where
  "batch_acts a clock i [] = []"
| "batch_acts a clock i (cmd # cmds) = Request a (clock i) cmd # batch_acts a clock (i + 1) cmds"

lemma batch_acts_run: "A a = Some f \<Longrightarrow> acts (batch_acts a clock i cmds) A = Some (A(a \<mapsto> (batch_end clock i cmds f)))"
proof (induction cmds arbitrary: i f A)
  case (Cons cmd cmds)
  let ?f = "effect (clock i) cmd f"
  have "acts (batch_acts a clock (i + 1) cmds) (A(a \<mapsto> ?f)) = Some ((A(a \<mapsto> ?f))(a \<mapsto> (batch_end clock (i + 1) cmds ?f)))"
    by (rule Cons.IH) simp
  moreover have "(batch_end clock i (cmd # cmds) f) = (batch_end clock (i + 1) cmds ?f)"
    by (simp add: split_beta)
  ultimately show ?case
    using Cons.prems by (simp only: batch_acts.simps acts.simps act.simps bind.bind_lunit fun_upd_upd)
qed (simp add: fun_upd_idem)

lemma batch_acts_simps [simp]: "commands (batch_acts a clock i cmds) = cmds" "expiry_clocks (batch_acts a clock i cmds) = []"
  by (induction cmds arbitrary: i) simp_all

section \<open>What a state of the server stands for\<close>

definition contents :: "server \<Rightarrow> service" where
  "contents sv a = map_option (\<lambda>c. view (sv_store sv) (c_db c)) (sv_conn sv a)"

lemma contents_simp: "sv_conn sv a = Some c \<Longrightarrow> contents sv a = Some (view (sv_store sv) (c_db c))"
  by (simp add: contents_def)

lemma contents_dom: "contents sv a = None \<longleftrightarrow> sv_conn sv a = None"
  by (simp add: contents_def)

text \<open>No key has a deadline.\<close>

definition calm :: "kv \<Rightarrow> bool" where
  "calm f \<longleftrightarrow> (\<forall>k v d. f k = Some (v, d) \<longrightarrow> d = None)"

lemma calm_objs:
  assumes "db_inv s db" "calm (view s db)" "x \<in> objs db"
  shows "deadline (s_timers s) x = None"
proof -
  have "view s db (ekey s x) = Some (item s x)"
    using view_Some [OF assms(1), of "ekey s x" "item s x"] assms(3) by (auto simp: binds_iff)
  then show ?thesis
    using assms(2) by (auto simp: calm_def item_def)
qed

end
