(* ===== verification/Expiry.thy ===== *)
theory Expiry
  imports Service
begin

text \<open>
  The expiry of keys by \<open>process_timers\<close> of server.cpp: which keys go, which stay, and the link
  from an entry to its connection that it relies on.
\<close>

section \<open>Entries and their owners\<close>

text \<open>
  Every entry in the hashtable of a connection names that connection as its owner and caches
  the hash of its key; every entry with a deadline is in the hashtable of a live connection; and
  every entry handed to the thread pool is alive, once among the jobs and in no hashtable.
\<close>

definition owned :: "store \<Rightarrow> db \<Rightarrow> addr \<Rightarrow> bool" where
  "owned s db conn \<longleftrightarrow> db_inv s db \<and>
     (\<forall>a \<in> objs db. \<exists>e. s_entry s a = Some e \<and> e_owner e = Some conn \<and> e_hcode e = str_hash (e_key e))"

definition armed_in :: "store \<Rightarrow> (addr \<rightharpoonup> conn) \<Rightarrow> bool" where
  "armed_in s conns \<longleftrightarrow> (\<forall>a. deadline (s_timers s) a \<noteq> None \<longrightarrow> (\<exists>o' c. conns o' = Some c \<and> a \<in> objs (c_db c)))"

definition detached :: "store \<Rightarrow> (addr \<rightharpoonup> conn) \<Rightarrow> bool" where
  "detached s conns \<longleftrightarrow> distinct (s_jobs s)
     \<and> (\<forall>a \<in> set (s_jobs s). s_entry s a \<noteq> None \<and> (\<forall>q c. conns q = Some c \<longrightarrow> a \<notin> objs (c_db c)))"

definition homes :: "server \<Rightarrow> bool" where
  "homes sv \<longleftrightarrow> (\<forall>o' c. sv_conn sv o' = Some c \<longrightarrow> owned (sv_store sv) (c_db c) o') \<and> armed_in (sv_store sv) (sv_conn sv)
     \<and> detached (sv_store sv) (sv_conn sv)"

text \<open>Once a change touches one connection only, these are the changes that keep the jobs apart: the hashtable gets
  smaller or takes fresh entries, and what becomes a job has left it.\<close>

lemma detached_step:
  assumes "detached s conns" "conns a = Some c" "\<And>x. s_next s \<le> x \<Longrightarrow> s_entry s x = None"
    and "keeps s s' (objs (c_db c) \<union> {s_next s ..})" "objs (c_db c') \<subseteq> objs (c_db c) \<union> {s_next s ..}"
    and "\<And>q d x. conns q = Some d \<Longrightarrow> q \<noteq> a \<Longrightarrow> x \<in> objs (c_db c) \<Longrightarrow> x \<notin> objs (c_db d)"
    and "s_jobs s' = s_jobs s \<or> (\<exists>x. s_jobs s' = s_jobs s @ [x] \<and> x \<in> objs (c_db c) \<and> x \<notin> objs (c_db c') \<and> s_entry s' x \<noteq> None)"
  shows "detached s' (conns(a \<mapsto> c'))"
proof -
  have old: "s_entry s' x \<noteq> None \<and> x \<notin> objs (c_db c) \<and> x \<notin> objs (c_db c')" if x: "x \<in> set (s_jobs s)" for x
  proof -
    have "s_entry s x \<noteq> None \<and> x \<notin> objs (c_db c)"
      using assms(1) [unfolded detached_def] assms(2) x by simp
    moreover from this have "\<not> s_next s \<le> x"
      using assms(3) [of x] by auto
    ultimately have "x \<notin> objs (c_db c) \<union> {s_next s ..}" "s_entry s x \<noteq> None"
      by simp_all
    moreover from this have "(s_entry s' x = None) = (s_entry s x = None)"
      using assms(4) by (simp add: keeps_def)
    ultimately show ?thesis
      using assms(5) by (simp add: subset_iff) blast
  qed
  have jobs: "set (s_jobs s') \<subseteq> set (s_jobs s) \<union> {x. x \<in> objs (c_db c) \<and> x \<notin> objs (c_db c') \<and> s_entry s' x \<noteq> None}"
    using assms(7) by auto
  have "distinct (s_jobs s')"
    using assms(1,7) old by (auto simp: detached_def)
  moreover have "s_entry s' x \<noteq> None" if "x \<in> set (s_jobs s')" for x
    using jobs old that by blast
  moreover have "x \<notin> objs (c_db d)" if "x \<in> set (s_jobs s')" "(conns(a \<mapsto> c')) q = Some d" for x q d
  proof (cases "q = a")
    case True
    then show ?thesis
      using that jobs old by auto
  next
    case False
    then show ?thesis
      using that jobs assms(1,6) by (auto simp: detached_def)
  qed
  ultimately show ?thesis
    unfolding detached_def by blast
qed

lemma detached_same: "detached s conns \<Longrightarrow> s_jobs s' = s_jobs s \<Longrightarrow> s_entry s' = s_entry s \<Longrightarrow>
    (\<And>q d. conns' q = Some d \<Longrightarrow> (\<exists>d0. conns q = Some d0 \<and> c_db d0 = c_db d) \<or> objs (c_db d) = {}) \<Longrightarrow> detached s' conns'"
  unfolding detached_def by (metis empty_iff)

lemma owned_disjoint:
  assumes "owned s db o1" "owned s db' o2" "o1 \<noteq> o2"
  shows "objs db \<inter> objs db' = {}"
  using assms by (fastforce simp: owned_def)

lemma owned_node:
  assumes "owned s db o'" "a \<in> objs db" "s_entry s a = Some e"
  shows "\<lparr>hcode = e_hcode e, hobj = a\<rparr> \<in># hm_nodes db"
proof -
  obtain n where n: "n \<in># hm_nodes db" "hobj n = a"
    using assms(2) by (auto simp: objs_def)
  have "hcode n = str_hash (ekey s a)"
    using assms(1) n by (auto simp: owned_def db_inv_def keyed_def)
  then have "n = \<lparr>hcode = e_hcode e, hobj = a\<rparr>"
    using assms n by (cases n) (auto simp: owned_def ekey_def)
  then show ?thesis
    using n(1) by simp
qed

section \<open>Removing one entry\<close>

lemma hm_delete_same:
  assumes "db_inv s db" "n \<in># hm_nodes db"
  shows "\<exists>db'. hm_delete db (hcode n) (hnode_same (hobj n)) = Some (db', Some n) \<and> hm_ok db' \<and> hm_nodes db = add_mset n (hm_nodes db')"
proof -
  have ok: "hm_ok db"
    using assms(1) by (simp add: db_inv_def)
  obtain db' p where l: "hm_delete db (hcode n) (hnode_same (hobj n)) = Some (db', p)" "hm_ok db'"
    "case p of None \<Rightarrow> hm_nodes db' = hm_nodes db \<and> (\<forall>x \<in># hm_nodes db. \<not> (hcode x = hcode n \<and> hnode_same (hobj n) (hobj x)))
     | Some x \<Rightarrow> hm_nodes db = add_mset x (hm_nodes db') \<and> hcode x = hcode n \<and> hnode_same (hobj n) (hobj x)"
    using hm.del_law [OF ok, of "hcode n" "hnode_same (hobj n)"] by (elim exE conjE) (rule that; assumption)
  have "p \<noteq> None"
    using l(3) assms(2) by (cases p) (auto simp: hnode_same_def)
  then obtain x where "p = Some x" "hm_nodes db = add_mset x (hm_nodes db')" "hcode x = hcode n" "hobj x = hobj n"
    using l(3) by (auto simp: hnode_same_def)
  then show ?thesis
    using l(1,2) by simp
qed

lemma entry_del_deadline:
  assumes "store_inv n s" "s_entry s a = Some e" "n + 1 < npos" "entry_del now a s = Some s'"
  shows "deadline (s_timers s') = (deadline (s_timers s))(a := None)"
proof
  fix b
  note d = entry_del_ok [OF assms(1-3), of now, unfolded assms(4)]
  show "deadline (s_timers s') b = ((deadline (s_timers s))(a := None)) b"
  proof (cases "b = a")
    case False
    then show ?thesis
      using d by (auto simp: keeps_def item_def)
  next
    case True
    obtain s1 where s1: "set_ttl now a (- 1) s = Some s1" "s_entry s1 = s_entry s" "deadline (s_timers s1) a = None"
      using set_ttl_ok [OF assms(1) _ assms(3), of a now "- 1"] assms(2) by auto
    show ?thesis
    proof (cases "e_type e = T_ZSET \<and> hm_size (zs_hmap (e_zset e)) > k_large_container_size")
      case big: True
      then have "s_timers s' = s_timers s1"
        using assms(2,4) s1 by (auto simp: entry_del_def Let_def split: if_splits)
      then show ?thesis
        using s1(3) True by simp
    next
      case False
      then have "s_entry s' a = None" "store_inv n s'"
        using d by auto
      then have "snd (s_timers s') a = None"
        unfolding store_inv_def by (metis domIff)
      then show ?thesis
        using True by (simp add: deadline_def split_beta)
    qed
  qed
qed

section \<open>Expiry\<close>

definition due_keys :: "u64 \<Rightarrow> store \<Rightarrow> addr set" where
  "due_keys now s = {a. \<exists>d. deadline (s_timers s) a = Some d \<and> d < now}"

text \<open>A map of keys without those whose deadline is before \<open>now\<close>.\<close>

definition unexpired :: "u64 \<Rightarrow> (bytes \<rightharpoonup> val \<times> u64 option) \<Rightarrow> bytes \<rightharpoonup> val \<times> u64 option" where
  "unexpired now f k =
     (case f k of
        Some (v, Some d) \<Rightarrow> if d < now then None else f k
      | _ \<Rightarrow> f k)"

lemma unexpired_drop: "f k = Some (v, Some d) \<Longrightarrow> d < now \<Longrightarrow> unexpired now (f(k := None)) = unexpired now f"
  by (rule ext) (simp add: unexpired_def split: option.splits prod.splits)

lemma unexpired_none:
  assumes "db_inv s db" "due_keys now s = {}"
  shows "unexpired now (view s db) = view s db"
proof
  fix k
  show "unexpired now (view s db) k = view s db k"
  proof (cases "view s db k")
    case (Some x)
    then obtain a where "item s a = x"
      using view_Some [OF assms(1)] by blast
    then show ?thesis
      using Some assms(2) by (auto simp: unexpired_def item_def due_keys_def split: option.splits)
  qed (simp add: unexpired_def)
qed

lemma timer_root:
  assumes "store_inv n s"
  shows "(fst (s_timers s) = [] \<or> \<not> hi_val (fst (s_timers s) ! 0) < now) = (due_keys now s = {})"
    and "fst (s_timers s) \<noteq> [] \<Longrightarrow> \<exists>a e. hi_ref (fst (s_timers s) ! 0) = Some a \<and> snd (s_timers s) a = Some 0
      \<and> s_entry s a = Some e \<and> deadline (s_timers s) a = Some (hi_val (fst (s_timers s) ! 0))"
proof -
  have t: "timers_ok (s_timers s)" "dom (snd (s_timers s)) = dom (s_entry s)"
    using assms by (simp_all add: store_inv_def)
  show root: "\<exists>a e. hi_ref (fst (s_timers s) ! 0) = Some a \<and> snd (s_timers s) a = Some 0
      \<and> s_entry s a = Some e \<and> deadline (s_timers s) a = Some (hi_val (fst (s_timers s) ! 0))" if ne: "fst (s_timers s) \<noteq> []"
  proof -
    obtain a where a: "hi_ref (fst (s_timers s) ! 0) = Some a"
      using t(1) ne by (fastforce simp: timers_ok_def split_beta)
    then have i: "snd (s_timers s) a = Some 0"
      using t(1) ne by (auto simp: timers_ok_def idx_ok_def split_beta)
    then have "a \<in> dom (s_entry s)"
      using t(2) by blast
    then show ?thesis
      using a i ne by (auto simp: deadline_def split_beta)
  qed
  have least: "hi_val (fst (s_timers s) ! 0) \<le> d" if "deadline (s_timers s) a = Some d" for a d
  proof -
    have "fst (s_timers s) \<noteq> []"
      using that by (metis deadline_empty option.distinct(1))
    then obtain x xs where x: "fst (s_timers s) = x # xs"
      by (cases "fst (s_timers s)") simp_all
    obtain r where "hi_ref x = Some r"
      using root [unfolded x] by auto
    then have "timer_first (s_timers s) = Some (hi_val (fst (s_timers s) ! 0), r)"
      by (simp add: timer_first_def x)
    then show ?thesis
      by (rule ttl.earliest_least [OF t(1) _ that])
  qed
  show "(fst (s_timers s) = [] \<or> \<not> hi_val (fst (s_timers s) ! 0) < now) = (due_keys now s = {})"
  proof
    assume "due_keys now s = {}"
    then show "fst (s_timers s) = [] \<or> \<not> hi_val (fst (s_timers s) ! 0) < now"
      using root by (auto simp: due_keys_def)
  next
    assume "fst (s_timers s) = [] \<or> \<not> hi_val (fst (s_timers s) ! 0) < now"
    then show "due_keys now s = {}"
      using deadline_empty least by (fastforce simp: due_keys_def)
  qed
qed

lemma owned_keep:
  assumes "owned s db o'" "keeps s s1 {a}" "a \<notin> objs db" "\<And>b. b \<noteq> a \<Longrightarrow> s_entry s1 b = s_entry s b"
  shows "owned s1 db o'" "view s1 db = view s db"
proof -
  have "db_inv s db"
    using assms(1) by (simp add: owned_def)
  note v = view_same [OF this assms(2)]
  show "view s1 db = view s db"
    using v assms(3) by simp
  have "s_entry s1 b = s_entry s b" if "b \<in> objs db" for b
    by (rule assms(4)) (use assms(3) that in blast)
  then show "owned s1 db o'"
    using assms(1,3) v by (simp add: owned_def)
qed

text \<open>The connections are the same up to expired keys.\<close>

definition survives :: "u64 \<Rightarrow> server \<Rightarrow> server \<Rightarrow> bool" where
  "survives now sv sv' \<longleftrightarrow> (\<forall>o'.
     (case sv_conn sv o' of
        None \<Rightarrow> sv_conn sv' o' = None
      | Some c \<Rightarrow> (\<exists>db. sv_conn sv' o' = Some (c\<lparr>c_db := db\<rparr>)
          \<and> unexpired now (view (sv_store sv') db) = unexpired now (view (sv_store sv) (c_db c)))))"

lemma survives_refl: "survives now sv sv"
proof -
  have "\<exists>db. c = c\<lparr>c_db := db\<rparr> \<and> unexpired now (view s db) = unexpired now (view s (c_db c))" for c :: conn and s
    by (rule exI [of _ "c_db c"]) simp
  then show ?thesis
    by (simp add: survives_def split: option.splits)
qed

lemma survives_trans:
  assumes "survives now sv sva" "survives now sva sv2"
  shows "survives now sv sv2"
  unfolding survives_def
proof
  fix o'
  show "case sv_conn sv o' of None \<Rightarrow> sv_conn sv2 o' = None
      | Some c \<Rightarrow> \<exists>db. sv_conn sv2 o' = Some (c\<lparr>c_db := db\<rparr>)
          \<and> unexpired now (view (sv_store sv2) db) = unexpired now (view (sv_store sv) (c_db c))"
    using assms [unfolded survives_def, THEN spec [of _ o']] by (auto split: option.splits)
qed

text \<open>One key expires: the root of the heap is due, and its entry is in the hashtable of its owner.\<close>

lemma ttl_step:
  assumes inv: "store_inv n (sv_store sv)" "n + 1 < npos" "homes sv" and due: "due_keys now (sv_store sv) \<noteq> {}"
  shows "\<exists>sv1 a. ttl_loop now k sv = (if k \<ge> k_max_works then Some sv1 else ttl_loop now (k + 1) sv1)
    \<and> store_inv n (sv_store sv1) \<and> homes sv1 \<and> survives now sv sv1
    \<and> a \<in> due_keys now (sv_store sv) \<and> due_keys now (sv_store sv1) = due_keys now (sv_store sv) - {a}
    \<and> (\<exists>p k. act (Expire now p k) (contents sv) = Some (contents sv1)) \<and> sv_fd2conn sv1 = sv_fd2conn sv \<and> sv_idle sv1 = sv_idle sv"
proof -
  let ?s = "sv_store sv"
  let ?root = "fst (s_timers ?s) ! 0"
  have ne: "fst (s_timers ?s) \<noteq> []" "hi_val ?root < now"
    using timer_root(1) [OF inv(1), of now] due by auto
  obtain a e where a: "hi_ref ?root = Some a" "snd (s_timers ?s) a = Some 0" "s_entry ?s a = Some e"
    "deadline (s_timers ?s) a = Some (hi_val ?root)"
    using timer_root(2) [OF inv(1) ne(1)] by blast
  have hm: "\<And>p c. sv_conn sv p = Some c \<Longrightarrow> owned ?s (c_db c) p"
    and ar: "\<And>b. deadline (s_timers ?s) b \<noteq> None \<Longrightarrow> \<exists>p c. sv_conn sv p = Some c \<and> b \<in> objs (c_db c)"
    and jb: "detached ?s (sv_conn sv)"
    using inv(3) by (simp_all add: homes_def armed_in_def)
  obtain p c where p: "sv_conn sv p = Some c" "a \<in> objs (c_db c)"
    using ar [of a] a(4) by auto
  note own = hm [OF p(1)]
  have di: "db_inv ?s (c_db c)" and ow: "e_owner e = Some p"
    using own p(2) a(3) by (auto simp: owned_def)
  let ?n = "\<lparr>hcode = e_hcode e, hobj = a\<rparr>"
  obtain db1 where db1: "hm_delete (c_db c) (e_hcode e) (hnode_same a) = Some (db1, Some ?n)" "hm_ok db1"
    "hm_nodes (c_db c) = add_mset ?n (hm_nodes db1)"
    using hm_delete_same [OF di owned_node [OF own p(2) a(3)]] by auto
  note rm = db_remove_ok [OF di db1(2,3)]
  obtain s1 where s1: "entry_del now a ?s = Some s1" "store_inv n s1" "keeps ?s s1 {a}"
    "s_entry s1 = s_entry ?s \<and> s_jobs s1 = s_jobs ?s @ [a] \<or> s_entry s1 = (s_entry ?s)(a := None) \<and> s_jobs s1 = s_jobs ?s"
    using entry_del_ok [OF inv(1) a(3) inv(2), of now] by metis
  have ent: "s_entry s1 b = s_entry ?s b" if "b \<noteq> a" for b
    using s1(4) that by auto
  note dl = entry_del_deadline [OF inv(1) a(3) inv(2) s1(1)]
  let ?sv = "sv\<lparr>sv_conn := (sv_conn sv)(p \<mapsto> c\<lparr>c_db := db1\<rparr>), sv_store := s1\<rparr>"
  have run: "ttl_loop now k sv = (if k \<ge> k_max_works then Some ?sv else ttl_loop now (k + 1) ?sv)"
    using ne a(1-3) ow p(1) db1(1) s1(1) by (subst ttl_loop.simps) (simp add: Let_def npos_def)
  have oth: "a \<notin> objs (c_db c')" if "sv_conn sv q = Some c'" "q \<noteq> p" for q c'
    using owned_disjoint [OF hm [OF that(1)] own that(2)] p(2) by blast
  have own1: "owned ?s db1 p"
    using own rm(1,3) by (auto simp: owned_def)
  have a1: "a \<notin> objs db1"
    using rm(3) by simp
  note k1 = owned_keep [OF own1 s1(3) a1 ent]
  have "detached s1 ((sv_conn sv)(p \<mapsto> c\<lparr>c_db := db1\<rparr>))"
  proof (rule detached_step [OF jb p(1)])
    show "s_entry ?s x = None" if "s_next ?s \<le> x" for x
      using inv(1) that by (simp add: store_inv_def)
    show "keeps ?s s1 (objs (c_db c) \<union> {s_next ?s ..})"
      using p(2) by (intro keeps_mono [OF s1(3)]) simp
    show "objs (c_db (c\<lparr>c_db := db1\<rparr>)) \<subseteq> objs (c_db c) \<union> {s_next ?s ..}"
      using rm(3) by auto
    show "x \<notin> objs (c_db d)" if "sv_conn sv q = Some d" "q \<noteq> p" "x \<in> objs (c_db c)" for q d x
      using owned_disjoint [OF hm [OF that(1)] own that(2)] that(3) by blast
    show "s_jobs s1 = s_jobs ?s \<or> (\<exists>x. s_jobs s1 = s_jobs ?s @ [x] \<and> x \<in> objs (c_db c) \<and> x \<notin> objs (c_db (c\<lparr>c_db := db1\<rparr>)) \<and> s_entry s1 x \<noteq> None)"
      using s1(4) p(2) a1 a(3) by auto
  qed
  then have "homes ?sv"
    unfolding homes_def armed_in_def
  proof (intro conjI allI impI)
    fix q c'
    assume q: "sv_conn ?sv q = Some c'"
    show "owned (sv_store ?sv) (c_db c') q"
    proof (cases "q = p")
      case True
      then show ?thesis
        using q k1(1) by auto
    next
      case False
      then have q': "sv_conn sv q = Some c'"
        using q by simp
      show ?thesis
        using owned_keep(1) [OF hm [OF q'] s1(3) oth [OF q' False] ent] by simp
    qed
  next
    fix b
    assume "deadline (s_timers (sv_store ?sv)) b \<noteq> None"
    then have b: "b \<noteq> a" "deadline (s_timers ?s) b \<noteq> None"
      using dl by (auto split: if_splits)
    obtain q c' where q: "sv_conn sv q = Some c'" "b \<in> objs (c_db c')"
      using ar [OF b(2)] by blast
    show "\<exists>q c'. sv_conn ?sv q = Some c' \<and> b \<in> objs (c_db c')"
    proof (cases "q = p")
      case True
      then show ?thesis
        using q p(1) b(1) rm(3) by (intro exI [of _ p] exI [of _ "c\<lparr>c_db := db1\<rparr>"]) simp
    next
      case False
      then show ?thesis
        using q by (intro exI [of _ q] exI [of _ c']) simp
    qed
  qed simp
  moreover have "survives now sv ?sv"
    unfolding survives_def
  proof
    fix q
    have ek: "view ?s (c_db c) (ekey ?s a) = Some (item ?s a)"
      using view_Some [OF di, of "ekey ?s a" "item ?s a"] p(2) by (auto simp: binds_iff)
    then have un: "unexpired now (view s1 db1) = unexpired now (view ?s (c_db c))"
      using k1(2) rm(2) unexpired_drop [of "view ?s (c_db c)" "ekey ?s a"] a(4) ne(2) by (simp add: item_def)
    show "case sv_conn sv q of None \<Rightarrow> sv_conn ?sv q = None
      | Some c \<Rightarrow> \<exists>db. sv_conn ?sv q = Some (c\<lparr>c_db := db\<rparr>)
          \<and> unexpired now (view (sv_store ?sv) db) = unexpired now (view (sv_store sv) (c_db c))"
    proof (cases "sv_conn sv q")
      case None
      then show ?thesis
        using p(1) by auto
    next
      case (Some c')
      show ?thesis
      proof (cases "q = p")
        case True
        then show ?thesis
          using un p(1) by auto
      next
        case False
        have "view s1 (c_db c') = view ?s (c_db c')"
          using owned_keep(2) [OF hm [OF Some] s1(3) oth [OF Some False] ent] .
        then show ?thesis
          using Some False by (auto intro: exI [of _ "c_db c'"])
      qed
    qed
  qed
  moreover have "act (Expire now p (ekey ?s a)) (contents sv) = Some (contents ?sv)"
  proof -
    have ek: "view ?s (c_db c) (ekey ?s a) = Some (item ?s a)"
      using view_Some [OF di, of "ekey ?s a" "item ?s a"] p(2) by (auto simp: binds_iff)
    have "view s1 (c_db c') = view ?s (c_db c')" if "sv_conn sv q = Some c'" "q \<noteq> p" for q c'
      by (rule owned_keep(2) [OF hm [OF that(1)] s1(3) oth [OF that] ent])
    then have "contents ?sv q = ((contents sv)(p \<mapsto> (view ?s (c_db c))(ekey ?s a := None))) q" for q
      using k1(2) rm(2) by (cases "sv_conn sv q") (auto simp: contents_def)
    then have "contents ?sv = (contents sv)(p \<mapsto> (view ?s (c_db c))(ekey ?s a := None))"
      by (rule ext)
    then show ?thesis
      using ek a(4) ne(2) p(1) by (simp add: item_def contents_simp)
  qed
  moreover have "a \<in> due_keys now ?s" "due_keys now s1 = due_keys now ?s - {a}"
    using a(4) ne(2) dl by (auto simp: due_keys_def)
  ultimately show ?thesis
    using run s1(2) by (intro exI [of _ ?sv] exI [of _ a]) (simp del: act.simps, blast)
qed

lemma ttl_loop_run:
  assumes "store_inv n (sv_store sv)" "n + 1 < npos" "homes sv" "k + card (due_keys now (sv_store sv)) \<le> k_max_works + 1"
  shows "\<exists>sv'. ttl_loop now k sv = Some sv' \<and> store_inv n (sv_store sv') \<and> homes sv' \<and> survives now sv sv'
    \<and> due_keys now (sv_store sv') = {}"
  using assms
proof (induction "card (due_keys now (sv_store sv))" arbitrary: sv k)
  case 0
  have "finite (due_keys now (sv_store sv))"
    by (rule finite_subset [OF _ ttl.finite_due [of "s_timers (sv_store sv)"]])
      (use "0.prems"(1) in \<open>auto simp: due_keys_def store_inv_def\<close>)
  then have none: "due_keys now (sv_store sv) = {}"
    using "0.hyps" by simp
  then have "ttl_loop now k sv = Some sv"
    using timer_root(1) [OF "0.prems"(1), of now] by (subst ttl_loop.simps) (simp add: Let_def)
  then show ?case
    using "0.prems" none survives_refl by blast
next
  case (Suc m)
  then have "due_keys now (sv_store sv) \<noteq> {}"
    by auto
  from ttl_step [OF Suc.prems(1-3) this, of k] obtain sv1 a where
    r: "ttl_loop now k sv = (if k \<ge> k_max_works then Some sv1 else ttl_loop now (k + 1) sv1)"
    and i: "store_inv n (sv_store sv1)" "homes sv1" "survives now sv sv1"
    and d: "a \<in> due_keys now (sv_store sv)" "due_keys now (sv_store sv1) = due_keys now (sv_store sv) - {a}"
    by blast
  have m: "m = card (due_keys now (sv_store sv1))"
    using Suc.hyps(2) d by (simp add: card_Diff_singleton)
  show ?case
  proof (cases "k \<ge> k_max_works")
    case True
    then have "card (due_keys now (sv_store sv1)) = 0"
      using Suc.prems(4) Suc.hyps(2) m by simp
    moreover have "finite (due_keys now (sv_store sv))"
      using Suc.hyps(2) card.infinite by fastforce
    ultimately have "due_keys now (sv_store sv1) = {}"
      using d(2) by simp
    then show ?thesis
      using True r i by simp
  next
    case False
    have "k + 1 + card (due_keys now (sv_store sv1)) \<le> k_max_works + 1"
      using Suc.prems(4) Suc.hyps(2) m by simp
    then obtain sv' where "ttl_loop now (k + 1) sv1 = Some sv'" "store_inv n (sv_store sv')" "homes sv'" "survives now sv1 sv'"
      "due_keys now (sv_store sv') = {}"
      using Suc.hyps(1) [OF m i(1) Suc.prems(2) i(2)] by blast
    then show ?thesis
      using False r survives_trans [OF i(3)] by auto
  qed
qed

text \<open>However many keys are due, the loop ends: every turn expires one key, and it stops after a limit of works.\<close>

lemma ttl_loop_acts:
  assumes "store_inv n (sv_store sv)" "n + 1 < npos" "homes sv"
  shows "\<exists>sv' xs. ttl_loop now k sv = Some sv' \<and> store_inv n (sv_store sv') \<and> homes sv'
    \<and> acts xs (contents sv) = Some (contents sv') \<and> commands xs = [] \<and> set (expiry_clocks xs) \<subseteq> {now}"
  using assms
proof (induction "card (due_keys now (sv_store sv))" arbitrary: sv k rule: less_induct)
  case less
  have fin: "finite (due_keys now (sv_store sv))"
    by (rule finite_subset [OF _ ttl.finite_due [of "s_timers (sv_store sv)"]])
      (use less.prems(1) in \<open>auto simp: due_keys_def store_inv_def\<close>)
  show ?case
  proof (cases "due_keys now (sv_store sv) = {}")
    case True
    then have "ttl_loop now k sv = Some sv"
      using timer_root(1) [OF less.prems(1), of now] by (subst ttl_loop.simps) (simp add: Let_def)
    then show ?thesis
      using less.prems by (intro exI [of _ sv] exI [of _ "[]"]) simp
  next
    case False
    from ttl_step [OF less.prems False, of k] obtain sv1 a p q where
      r: "ttl_loop now k sv = (if k \<ge> k_max_works then Some sv1 else ttl_loop now (k + 1) sv1)"
      and i: "store_inv n (sv_store sv1)" "homes sv1" and x: "act (Expire now p q) (contents sv) = Some (contents sv1)"
      and d: "a \<in> due_keys now (sv_store sv)" "due_keys now (sv_store sv1) = due_keys now (sv_store sv) - {a}"
      by blast
    have xs: "acts (Expire now p q # xs) (contents sv) = acts xs (contents sv1)" for xs
      using x by simp
    show ?thesis
    proof (cases "k \<ge> k_max_works")
      case True
      then show ?thesis
        using r i xs [of "[]"] by (intro exI [of _ sv1] exI [of _ "[Expire now p q]"]) simp
    next
      case False
      have "card (due_keys now (sv_store sv1)) < card (due_keys now (sv_store sv))"
        using d(1) fin unfolding d(2) by (intro card_Diff1_less)
      then obtain sv' ys where "ttl_loop now (k + 1) sv1 = Some sv'" "store_inv n (sv_store sv')" "homes sv'"
        "acts ys (contents sv1) = Some (contents sv')" "commands ys = []" "set (expiry_clocks ys) \<subseteq> {now}"
        using less.hyps [OF _ i(1) less.prems(2) i(2)] by blast
      then show ?thesis
        using False r xs [of ys] by (intro exI [of _ sv'] exI [of _ "Expire now p q # ys"]) simp
    qed
  qed
qed

end
