(* ===== verification/Owners.thy ===== *)
theory Owners
  imports Expiry
begin

text \<open>
  Every request keeps the invariant \<open>homes\<close> that the expiry of keys relies on: the entries of
  a connection name it as their owner, and every entry with a deadline is in the hashtable of
  its owner.
\<close>

section \<open>What one command does to owners and deadlines\<close>

text \<open>An entry keeps its owner, its key and the hash of its key; a new one belongs to \<open>conn\<close>.\<close>

definition tagged :: "addr \<Rightarrow> store \<Rightarrow> store \<Rightarrow> bool" where
  "tagged conn s s' \<longleftrightarrow> (\<forall>a e'. s_entry s' a = Some e' \<longrightarrow>
     (\<exists>e. s_entry s a = Some e \<and> e_owner e' = e_owner e \<and> e_hcode e' = e_hcode e \<and> e_key e' = e_key e)
     \<or> (a = s_next s \<and> e_owner e' = Some conn \<and> e_hcode e' = str_hash (e_key e')))"

text \<open>An entry with a deadline is in the hashtable, or had one before and was not in the hashtable.\<close>

definition timed :: "store \<Rightarrow> db \<Rightarrow> store \<Rightarrow> db \<Rightarrow> bool" where
  "timed s db s' db' \<longleftrightarrow> (\<forall>a. deadline (s_timers s') a \<noteq> None \<longrightarrow>
     a \<in> objs db' \<or> (deadline (s_timers s) a \<noteq> None \<and> a \<notin> objs db))"

lemma tagged_same: "s_entry s' = s_entry s \<Longrightarrow> tagged conn s s'"
  by (simp add: tagged_def)

lemma tagged_refl [simp]: "tagged conn s s"
  by (rule tagged_same) simp

lemma tagged_upd:
  assumes "tagged conn s s1" "s_entry s1 a = Some e" "e_owner e' = e_owner e" "e_hcode e' = e_hcode e" "e_key e' = e_key e"
  shows "tagged conn s (s1\<lparr>s_entry := (s_entry s1)(a \<mapsto> e')\<rparr>)"
  using assms by (auto simp: tagged_def)

lemma timed_same: "deadline (s_timers s') = deadline (s_timers s) \<Longrightarrow> objs db \<subseteq> objs db' \<Longrightarrow> timed s db s' db'"
  by (auto simp: timed_def)

lemma lookup_objs:
  assumes "db_inv s db" "db_lookup s db key = Some (db', p)"
  shows "objs db' = objs db" "p = Some a \<Longrightarrow> a \<in> objs db"
  using db_lookup_ok [OF assms(1), of key] assms(2) by (auto simp: found_def binds_iff)

lemma run_zset_tags:
  assumes "run_zset a f s1 = Some (s', r)" "tagged conn s s1"
  shows "tagged conn s s'" "s_timers s' = s_timers s1"
proof -
  obtain e m zs where r: "s_entry s1 a = Some e" "s' = s1\<lparr>s_zmem := m, s_entry := (s_entry s1)(a \<mapsto> e\<lparr>e_zset := zs\<rparr>)\<rparr>"
    using assms(1) by (auto simp: run_zset_def split: bind_splits)
  have "tagged conn s (s1\<lparr>s_entry := (s_entry s1)(a \<mapsto> e\<lparr>e_zset := zs\<rparr>)\<rparr>)"
    by (rule tagged_upd [OF assms(2) r(1)]) simp_all
  then show "tagged conn s s'" "s_timers s' = s_timers s1"
    by (simp_all add: r(2) tagged_def)
qed

lemma run_zset_refl: "run_zset a f s = Some (s', r) \<Longrightarrow> tagged conn s s' \<and> s_timers s' = s_timers s"
  by (intro conjI; erule run_zset_tags [OF _ tagged_refl])

lemma with_zset_tags:
  "with_zset z f s = Some (s', r) \<Longrightarrow> tagged conn s s' \<and> s_timers s' = s_timers s"
  by (auto simp: with_zset_def dest: run_zset_refl [where conn = conn] split: zset_ref.splits bind_splits)

lemma expect_objs:
  assumes "db_inv s db" "expect_zset s db key = Some (db', z)"
  shows "objs db' = objs db"
  using assms(2) lookup_objs(1) [OF assms(1)] by (auto simp: expect_zset_def split: bind_splits option.splits)

lemma do_get_tags: "do_get cmd out s db = Some (s', db', out') \<Longrightarrow> db_inv s db \<Longrightarrow> tagged conn s s' \<and> timed s db s' db'"
  using lookup_objs(1) by (auto simp: do_get_def intro!: timed_same split: bind_splits option.splits if_splits)

lemma do_ttl_tags: "do_ttl now cmd out s db = Some (s', db', out') \<Longrightarrow> db_inv s db \<Longrightarrow> tagged conn s s' \<and> timed s db s' db'"
  using lookup_objs(1) by (auto simp: do_ttl_def Let_def intro!: timed_same split: bind_splits option.splits if_splits)

lemma do_keys_tags: "do_keys cmd out s db = Some (s', db', out') \<Longrightarrow> tagged conn s s' \<and> timed s db s' db'"
  by (auto simp: do_keys_def Let_def intro!: timed_same split: bind_splits)

lemma do_zrem_tags: "do_zrem cmd out s db = Some (s', db', out') \<Longrightarrow> db_inv s db \<Longrightarrow> tagged conn s s' \<and> timed s db s' db'"
  using expect_objs
  by (auto simp: do_zrem_def dest!: with_zset_tags [where conn = conn] intro!: timed_same split: bind_splits if_splits)

lemma do_zscore_tags: "do_zscore cmd out s db = Some (s', db', out') \<Longrightarrow> db_inv s db \<Longrightarrow> tagged conn s s' \<and> timed s db s' db'"
  using expect_objs
  by (auto simp: do_zscore_def dest!: with_zset_tags [where conn = conn] intro!: timed_same
      split: bind_splits if_splits option.splits)

lemma do_zquery_tags: "do_zquery cmd out s db = Some (s', db', out') \<Longrightarrow> db_inv s db \<Longrightarrow> tagged conn s s' \<and> timed s db s' db'"
  using expect_objs
  by (auto simp: do_zquery_def dest!: with_zset_tags [where conn = conn] intro!: timed_same
      split: bind_splits if_splits option.splits prod.splits)

lemma created_tags:
  assumes "store_inv n s" "e_owner e = Some conn" "e_hcode e = str_hash (e_key e)"
  shows "tagged conn s (with_entry s e)" "deadline (s_timers (with_entry s e)) = deadline (s_timers s)"
proof -
  show "tagged conn s (with_entry s e)"
    using assms(2,3) by (auto simp: tagged_def with_entry_def)
  have "timers_ok (s_timers s)" "snd (s_timers s) (s_next s) = None"
    using assms(1) unfolding store_inv_def by (blast, metis domIff le_refl)
  then show "deadline (s_timers (with_entry s e)) = deadline (s_timers s)"
    using timers_fresh by (simp add: with_entry_def)
qed

lemma insert_objs: "hm_ok db \<Longrightarrow> hm_insert db x = Some db' \<Longrightarrow> objs db' = insert (hobj x) (objs db)"
  using hm.ins_law [of db x] by (auto simp: objs_def)

lemma lookup_ok: "db_inv s db \<Longrightarrow> db_lookup s db key = Some (db', p) \<Longrightarrow> hm_ok db'"
  using db_lookup_ok [of s db key] by (auto simp: db_inv_def)

lemma do_set_tags:
  assumes "do_set conn cmd out s db = Some (s', db', out')" "store_inv n s" "db_inv s db"
  shows "tagged conn s s' \<and> timed s db s' db'"
proof -
  obtain key val db1 p where r: "arg cmd 1 = Some key" "arg cmd 2 = Some val" "db_lookup s db key = Some (db1, p)"
    using assms(1) by (auto simp: do_set_def split: bind_splits)
  note lo = lookup_objs(1) [OF assms(3) r(3)]
  show ?thesis
  proof (cases p)
    case (Some a)
    then show ?thesis
      using assms(1) r lo
      by (auto simp: do_set_def upd_entry_def intro!: timed_same tagged_upd split: bind_splits if_splits)
  next
    case None
    let ?e = "(blank_entry T_STR conn)\<lparr>e_key := key, e_hcode := str_hash key, e_type := T_STR, e_str := val\<rparr>"
    have i: "hm_insert db1 \<lparr>hcode = str_hash key, hobj = s_next s\<rparr> = Some db'" "s' = with_entry s ?e"
      using assms(1) r None entry_new_run [of s T_STR conn] by (auto simp: do_set_def Let_def split: bind_splits)
    have "e_owner ?e = Some conn" "e_hcode ?e = str_hash (e_key ?e)"
      by (simp_all add: blank_entry_def)
    note c = created_tags [OF assms(2) this]
    show ?thesis
      using c(1) timed_same [OF c(2), of db db'] insert_objs [OF lookup_ok [OF assms(3) r(3)] i(1)] lo i(2) by auto
  qed
qed

lemma do_zadd_tags:
  assumes "do_zadd conn cmd out s db = Some (s', db', out')" "store_inv n s" "db_inv s db"
  shows "tagged conn s s' \<and> timed s db s' db'"
proof (cases "str2dbl (cmd ! 2)")
  case None
  then show ?thesis
    using assms(1) by (auto simp: do_zadd_def arg_def intro!: timed_same split: bind_splits if_splits)
next
  case (Some x)
  obtain key name where r: "arg cmd 1 = Some key" "arg cmd 3 = Some name" "arg cmd 2 = Some (cmd ! 2)"
    using assms(1) by (auto simp: do_zadd_def arg_def split: bind_splits if_splits)
  then obtain db1 p where l: "db_lookup s db key = Some (db1, p)"
    using assms(1) Some by (auto simp: do_zadd_def split: bind_splits)
  note lo = lookup_objs(1) [OF assms(3) l]
  show ?thesis
  proof (cases p)
    case (Some a)
    then show ?thesis
      using assms(1) r l lo \<open>str2dbl (cmd ! 2) = Some x\<close>
      by (auto simp: do_zadd_def dest!: run_zset_refl [where conn = conn] intro!: timed_same split: bind_splits if_splits)
  next
    case None
    let ?e = "(blank_entry T_ZSET conn)\<lparr>e_key := key, e_hcode := str_hash key\<rparr>"
    have e: "e_owner ?e = Some conn" "e_hcode ?e = str_hash (e_key ?e)" "e_type ?e = T_ZSET"
      by (simp_all add: blank_entry_def)
    obtain added where i: "hm_insert db1 \<lparr>hcode = str_hash key, hobj = s_next s\<rparr> = Some db'"
      "run_zset (s_next s) (\<lambda>m zs. zset_insert m zs name x) (with_entry s ?e) = Some (s', added)"
      using assms(1) r l None Some e(3) entry_new_run [of s T_ZSET conn]
      by (auto simp: do_zadd_def Let_def with_entry_def split: bind_splits)
    note c = created_tags [OF assms(2) e(1,2)]
    note z = run_zset_tags [OF i(2) c(1)]
    have "timed s db s' db'"
      using c(2) z(2) insert_objs [OF lookup_ok [OF assms(3) l] i(1)] lo by (intro timed_same) auto
    then show ?thesis
      using z(1) by blast
  qed
qed

lemma set_ttl_entries: "set_ttl now a t s = Some s' \<Longrightarrow> s_entry s' = s_entry s"
  by (auto simp: set_ttl_def split: bind_splits)

lemma do_expire_tags:
  assumes "do_expire now cmd out s db = Some (s', db', out')" "store_inv n s" "db_inv s db" "n + 1 < npos"
  shows "tagged conn s s' \<and> timed s db s' db'"
proof -
  obtain ttl key where r: "arg cmd 2 = Some ttl" "arg cmd 1 = Some key"
    using assms(1) by (auto simp: do_expire_def split: bind_splits)
  show ?thesis
  proof (cases "str2int ttl")
    case None
    then show ?thesis
      using assms(1) r by (auto simp: do_expire_def intro!: timed_same)
  next
    case (Some t)
    then obtain p where l: "db_lookup s db key = Some (db', p)" "(case p of None \<Rightarrow> Some s | Some a \<Rightarrow> set_ttl now a t s) = Some s'"
      using assms(1) r by (auto simp: do_expire_def split: bind_splits)
    note lo = lookup_objs [OF assms(3) l(1)]
    show ?thesis
    proof (cases p)
      case None
      then show ?thesis
        using l lo by (auto intro!: timed_same)
    next
      case (Some a)
      then have st: "set_ttl now a t s = Some s'" "a \<in> objs db"
        using l lo by auto
      then have "s_entry s a \<noteq> None"
        using assms(3) by (auto simp: db_inv_def)
      then have "deadline (s_timers s') b = deadline (s_timers s) b" if "b \<noteq> a" for b
        using set_ttl_ok [OF assms(2) _ assms(4), of a now t] st(1) that by auto
      then have "timed s db s' db'"
        using st(2) lo(1) unfolding timed_def by metis
      then show ?thesis
        using tagged_same [OF set_ttl_entries [OF st(1)]] by blast
    qed
  qed
qed

lemma do_del_tags:
  assumes "do_del now cmd out s db = Some (s', db', out')" "store_inv n s" "db_inv s db" "n + 1 < npos"
  shows "tagged conn s s' \<and> timed s db s' db'"
proof -
  obtain key p where r: "arg cmd 1 = Some key" "hm_delete db (str_hash key) (entry_eq s key) = Some (db', p)"
    using assms(1) by (auto simp: do_del_def split: bind_splits option.splits)
  note d = db_delete_ok [OF assms(3), of key, unfolded r(2)]
  show ?thesis
  proof (cases p)
    case None
    then have "hm_nodes db' = hm_nodes db"
      using r(2) hm.del_law [of db "str_hash key" "entry_eq s key"] assms(3) by (auto simp: db_inv_def)
    then show ?thesis
      using assms(1) r None by (auto simp: do_del_def objs_def intro!: timed_same)
  next
    case (Some n')
    then have st: "entry_del now (hobj n') s = Some s'"
      using assms(1) r by (auto simp: do_del_def split: bind_splits)
    obtain e where e: "s_entry s (hobj n') = Some e"
      using d Some by (auto simp: found_def)
    have ents: "s_entry s' = s_entry s \<or> s_entry s' = (s_entry s)(hobj n' := None)"
      using entry_del_ok [OF assms(2) e assms(4), of now, unfolded st] by (auto split: if_splits)
    have "hm_nodes db = add_mset n' (hm_nodes db')"
      using r(2) Some hm.del_law [of db "str_hash key" "entry_eq s key"] assms(3) by (auto simp: db_inv_def)
    then have "objs db = insert (hobj n') (objs db')"
      by (simp add: objs_def)
    then have "timed s db s' db'"
      using entry_del_deadline [OF assms(2) e assms(4) st] by (auto simp: timed_def)
    moreover have "tagged conn s s'"
      using ents by (auto simp: tagged_def split: if_splits)
    ultimately show ?thesis
      by blast
  qed
qed

lemma do_request_tags:
  assumes "do_request now conn cmd out s db = Some (s', db', out')" "store_inv n s" "db_inv s db" "n + 1 < npos"
  shows "tagged conn s s' \<and> timed s db s' db'"
proof -
  have "timed s db s db"
    by (simp add: timed_same)
  then show ?thesis
    using assms(1) unfolding do_request_def
    by (auto split: if_splits simp del: not_None_eq
      dest: do_get_tags [OF _ assms(3)] do_set_tags [OF _ assms(2,3)] do_del_tags [OF _ assms(2-4)] do_expire_tags [OF _ assms(2-4)]
        do_ttl_tags [OF _ assms(3)] do_keys_tags do_zadd_tags [OF _ assms(2,3)] do_zrem_tags [OF _ assms(3)]
        do_zscore_tags [OF _ assms(3)] do_zquery_tags [OF _ assms(3)])
qed

section \<open>What one command hands to the thread pool\<close>

lemma run_zset_jobs: "run_zset a f s = Some (s', r) \<Longrightarrow> s_jobs s' = s_jobs s"
  by (auto simp: run_zset_def split: bind_splits)

lemma with_zset_jobs: "with_zset z f s = Some (s', r) \<Longrightarrow> s_jobs s' = s_jobs s"
  by (auto simp: with_zset_def dest: run_zset_jobs split: zset_ref.splits bind_splits)

lemma plain_jobs:
  "do_get cmd out s db = Some (s', db', out') \<Longrightarrow> s_jobs s' = s_jobs s"
  "do_set conn cmd out s db = Some (s', db', out') \<Longrightarrow> s_jobs s' = s_jobs s"
  "do_expire now cmd out s db = Some (s', db', out') \<Longrightarrow> s_jobs s' = s_jobs s"
  "do_ttl now cmd out s db = Some (s', db', out') \<Longrightarrow> s_jobs s' = s_jobs s"
  "do_keys cmd out s db = Some (s', db', out') \<Longrightarrow> s_jobs s' = s_jobs s"
  by (auto simp: do_get_def do_set_def do_expire_def do_ttl_def do_keys_def entry_new_def upd_entry_def set_ttl_def Let_def
      split: bind_splits option.splits if_splits)

lemma zset_jobs:
  "do_zadd conn cmd out s db = Some (s', db', out') \<Longrightarrow> s_jobs s' = s_jobs s"
  "do_zrem cmd out s db = Some (s', db', out') \<Longrightarrow> s_jobs s' = s_jobs s"
  "do_zscore cmd out s db = Some (s', db', out') \<Longrightarrow> s_jobs s' = s_jobs s"
  "do_zquery cmd out s db = Some (s', db', out') \<Longrightarrow> s_jobs s' = s_jobs s"
  by (auto simp: do_zadd_def do_zrem_def do_zscore_def do_zquery_def entry_new_def upd_entry_def Let_def
      dest!: run_zset_jobs with_zset_jobs split: bind_splits option.splits if_splits prod.splits)

text \<open>Only DEL makes a job, of the entry that it takes out of the hashtable.\<close>

definition queued :: "store \<Rightarrow> db \<Rightarrow> store \<Rightarrow> db \<Rightarrow> bool" where
  "queued s db s' db' \<longleftrightarrow> s_jobs s' = s_jobs s
     \<or> (\<exists>x. s_jobs s' = s_jobs s @ [x] \<and> x \<in> objs db \<and> x \<notin> objs db' \<and> s_entry s' x \<noteq> None)"

lemma do_del_queued:
  assumes "do_del now cmd out s db = Some (s', db', out')" "store_inv n s" "db_inv s db" "n + 1 < npos"
  shows "queued s db s' db'"
proof -
  obtain key p where r: "hm_delete db (str_hash key) (entry_eq s key) = Some (db', p)"
    "(case p of Some n \<Rightarrow> entry_del now (hobj n) s | None \<Rightarrow> Some s) = Some s'"
    using assms(1) by (auto simp: do_del_def split: bind_splits option.splits)
  note d = db_delete_ok [OF assms(3), of key, unfolded r(1)]
  show ?thesis
  proof (cases p)
    case (Some x)
    then obtain e where e: "s_entry s (hobj x) = Some e"
      using d by (auto simp: found_def)
    then show ?thesis
      using entry_del_ok [OF assms(2) e assms(4), of now] r(2) Some d
      by (auto simp: queued_def found_def binds_iff split: if_splits)
  qed (use r in \<open>simp add: queued_def\<close>)
qed

lemma do_request_queued:
  assumes "do_request now conn cmd out s db = Some (s', db', out')" "store_inv n s" "db_inv s db" "n + 1 < npos"
  shows "queued s db s' db'"
proof -
  have same: "s_jobs s1 = s_jobs s \<Longrightarrow> queued s db s1 db1" for s1 db1
    by (simp add: queued_def)
  have none: "queued s1 db1 s1 db2" for s1 db1 db2
    by (simp add: queued_def)
  show ?thesis
    using assms(1) unfolding do_request_def
    by (auto split: if_splits simp del: not_None_eq intro: none same plain_jobs zset_jobs do_del_queued [OF _ assms(2-4)])
qed

text \<open>A step of one connection that keeps the owners keeps them for the whole server.\<close>

lemma homes_db: "homes sv \<Longrightarrow> sv_conn sv q = Some d \<Longrightarrow> db_inv (sv_store sv) (c_db d)"
  by (simp add: homes_def owned_def)

lemma others_apart:
  assumes "homes sv" "sv_conn sv a = Some c" "store_inv n (sv_store sv)" "sv_conn sv q = Some d" "q \<noteq> a"
  shows "(objs (c_db c) \<union> {s_next (sv_store sv) ..}) \<inter> objs (c_db d) = {}"
proof -
  have own: "owned (sv_store sv) (c_db c) a" "owned (sv_store sv) (c_db d) q"
    using assms(1,2,4) by (simp_all add: homes_def)
  have "x < s_next (sv_store sv)" if "x \<in> objs (c_db d)" for x
    using own(2) that assms(3) by (fastforce simp: owned_def store_inv_def not_le [symmetric])
  then show ?thesis
    using owned_disjoint [OF own(2,1) assms(5)] by fastforce
qed

lemma step_contents:
  assumes "homes sv" "sv_conn sv a = Some c" "store_inv n (sv_store sv)" "moves n (sv_store sv) (c_db c) s' db' f" "c_db c' = db'"
  shows "contents (sv\<lparr>sv_conn := (sv_conn sv)(a \<mapsto> c'), sv_store := s'\<rparr>) = (contents sv)(a \<mapsto> f)"
proof
  fix q
  have "view s' (c_db d) = view (sv_store sv) (c_db d)" if d: "sv_conn sv q = Some d" "q \<noteq> a" for d
  proof -
    have "db_inv (sv_store sv) (c_db d)"
      using homes_db [OF assms(1) d(1)] .
    moreover have "keeps (sv_store sv) s' (objs (c_db c) \<union> {s_next (sv_store sv) ..})"
      using assms(4) by (simp add: moves_def)
    ultimately show ?thesis
      by (rule view_same(1)) (rule others_apart [OF assms(1-3) d])
  qed
  then show "contents (sv\<lparr>sv_conn := (sv_conn sv)(a \<mapsto> c'), sv_store := s'\<rparr>) q = ((contents sv)(a \<mapsto> f)) q"
    using assms(4,5) by (cases "sv_conn sv q") (auto simp: contents_def moves_def)
qed

lemma homes_step:
  assumes homes: "homes sv" and c: "sv_conn sv a = Some c" and inv: "store_inv n (sv_store sv)"
    and mv: "moves n (sv_store sv) (c_db c) s' db' f" and tg: "tagged a (sv_store sv) s'" "timed (sv_store sv) (c_db c) s' db'"
    and c': "c_db c' = db'" and jobs: "queued (sv_store sv) (c_db c) s' db'"
  shows "homes (sv\<lparr>sv_conn := (sv_conn sv)(a \<mapsto> c'), sv_store := s'\<rparr>)"
proof -
  let ?s = "sv_store sv" and ?A = "objs (c_db c) \<union> {s_next (sv_store sv) ..}"
  have own: "owned ?s (c_db d) q" if "sv_conn sv q = Some d" for q d
    using homes that by (simp add: homes_def)
  have old: "s_entry ?s x = None" if "s_next ?s \<le> x" for x
    using inv that by (simp add: store_inv_def)
  have lt: "x < s_next ?s" if "sv_conn sv q = Some d" "x \<in> objs (c_db d)" for q d x
    using own [OF that(1)] that(2) old [of x] by (auto simp: owned_def not_le [symmetric])
  have mine: "owned s' db' a"
    unfolding owned_def
  proof (intro conjI ballI)
    show "db_inv s' db'"
      using mv by (simp add: moves_def)
    fix x
    assume x: "x \<in> objs db'"
    then obtain e' where e': "s_entry s' x = Some e'"
      using mv by (auto simp: moves_def db_inv_def)
    have "x \<in> objs (c_db c) \<or> s_next ?s \<le> x"
      using x mv by (auto simp: moves_def)
    then show "\<exists>e. s_entry s' x = Some e \<and> e_owner e = Some a \<and> e_hcode e = str_hash (e_key e)"
      using tg(1) e' old [of x] own [OF c] lt [OF c, of x] unfolding tagged_def owned_def by fastforce
  qed
  have other: "owned s' (c_db d) q" if "sv_conn sv q = Some d" "q \<noteq> a" for q d
  proof -
    note dj = others_apart [OF homes c inv that]
    note od = own [OF that(1)]
    have dd: "db_inv ?s (c_db d)"
      using own [OF that(1)] by (simp add: owned_def)
    have k: "keeps ?s s' ?A"
      using mv by (simp add: moves_def)
    have "\<exists>e. s_entry s' x = Some e \<and> e_owner e = Some q \<and> e_hcode e = str_hash (e_key e)" if xin: "x \<in> objs (c_db d)" for x
    proof -
      obtain e where e: "s_entry ?s x = Some e" "e_owner e = Some q" "e_hcode e = str_hash (e_key e)"
        using od xin by (auto simp: owned_def)
      have "x \<notin> ?A"
        using dj xin by blast
      then obtain e' where e': "s_entry s' x = Some e'"
        using k e(1) by (cases "s_entry s' x") (auto simp: keeps_def)
      then show ?thesis
        using tg(1) e old [of "s_next ?s"] unfolding tagged_def by fastforce
    qed
    then show ?thesis
      using view_same(2) [OF dd k dj] by (simp add: owned_def)
  qed
  have "armed_in s' ((sv_conn sv)(a \<mapsto> c'))"
    unfolding armed_in_def
  proof (intro allI impI)
    fix x
    assume x: "deadline (s_timers s') x \<noteq> None"
    show "\<exists>q d. ((sv_conn sv)(a \<mapsto> c')) q = Some d \<and> x \<in> objs (c_db d)"
    proof (cases "x \<in> objs db'")
      case True
      then show ?thesis
        using c' by (intro exI [of _ a] exI [of _ c']) simp
    next
      case False
      then have o: "deadline (s_timers ?s) x \<noteq> None" "x \<notin> objs (c_db c)"
        using x tg(2) by (auto simp: timed_def)
      then obtain q d where "sv_conn sv q = Some d" "x \<in> objs (c_db d)"
        using homes by (auto simp: homes_def armed_in_def)
      then show ?thesis
        using o(2) c by (intro exI [of _ q] exI [of _ d]) auto
    qed
  qed
  moreover have "detached s' ((sv_conn sv)(a \<mapsto> c'))"
  proof (rule detached_step [where conns = "sv_conn sv" and a = a, OF _ c])
    show "detached ?s (sv_conn sv)"
      using homes by (simp add: homes_def)
    show "keeps ?s s' (objs (c_db c) \<union> {s_next ?s ..})" "objs (c_db c') \<subseteq> objs (c_db c) \<union> {s_next ?s ..}"
      using mv c' by (auto simp: moves_def)
    show "x \<notin> objs (c_db d)" if "sv_conn sv q = Some d" "q \<noteq> a" "x \<in> objs (c_db c)" for q d x
      using others_apart [OF homes c inv that(1,2)] that(3) by blast
  qed (use jobs c' old in \<open>simp_all add: queued_def\<close>)
  ultimately show ?thesis
    using mine other c' by (auto simp: homes_def)
qed

lemma request_homes:
  assumes "homes sv" "sv_conn sv a = Some c" "store_inv n (sv_store sv)" "n < 30000" "in_spec cmd (view (sv_store sv) (c_db c))"
    and "do_request now a cmd out (sv_store sv) (c_db c) = Some (s', db', out')" "c_db c' = db'"
  shows "homes (sv\<lparr>sv_conn := (sv_conn sv)(a \<mapsto> c'), sv_store := s'\<rparr>)" "store_inv (Suc n) s'"
    "view s' db' = effect now cmd (view (sv_store sv) (c_db c))"
    "contents (sv\<lparr>sv_conn := (sv_conn sv)(a \<mapsto> c'), sv_store := s'\<rparr>) =
      (contents sv)(a \<mapsto> effect now cmd (view (sv_store sv) (c_db c)))"
proof -
  have d: "db_inv (sv_store sv) (c_db c)" and n: "n + 1 < npos"
    using assms(1,2,4) by (auto simp: homes_def owned_def npos_def)
  have mv: "moves n (sv_store sv) (c_db c) s' db' (effect now cmd (view (sv_store sv) (c_db c)))"
    using do_request_ok [OF assms(3) d assms(4,5), of now a out] assms(6) by auto
  show "homes (sv\<lparr>sv_conn := (sv_conn sv)(a \<mapsto> c'), sv_store := s'\<rparr>)"
    using homes_step [OF assms(1-3) mv _ _ assms(7)] do_request_tags [OF assms(6,3) d n] do_request_queued [OF assms(6,3) d n] by blast
  show "contents (sv\<lparr>sv_conn := (sv_conn sv)(a \<mapsto> c'), sv_store := s'\<rparr>) =
      (contents sv)(a \<mapsto> effect now cmd (view (sv_store sv) (c_db c)))"
    by (rule step_contents [OF assms(1-3) mv assms(7)])
  show "store_inv (Suc n) s'" "view s' db' = effect now cmd (view (sv_store sv) (c_db c))"
    using mv by (simp_all add: moves_def)
qed

section \<open>Batches\<close>

lemma homes_same_db:
  assumes "homes sv" "sv_conn sv a = Some c" "c_db c' = c_db c"
    and "sv_conn sv' = (sv_conn sv)(a \<mapsto> c')" "sv_store sv' = sv_store sv"
  shows "homes sv'"
proof -
  have "\<exists>q d. sv_conn sv' q = Some d \<and> x \<in> objs (c_db d)" if ex: "\<exists>q d. sv_conn sv q = Some d \<and> x \<in> objs (c_db d)" for x
  proof -
    obtain q d where "sv_conn sv q = Some d" "x \<in> objs (c_db d)"
      using ex by blast
    then show ?thesis
      using assms(2-4) by (cases "q = a") auto
  qed
  then have "armed_in (sv_store sv') (sv_conn sv')"
    using assms(1,5) by (simp add: homes_def armed_in_def)
  moreover have "owned (sv_store sv') (c_db d) q" if "sv_conn sv' q = Some d" for q d
    using that assms by (cases "q = a") (auto simp: homes_def)
  moreover have "detached (sv_store sv') (sv_conn sv')"
  proof (rule detached_same)
    show "detached (sv_store sv) (sv_conn sv)"
      using assms(1) by (simp add: homes_def)
    show "(\<exists>d0. sv_conn sv q = Some d0 \<and> c_db d0 = c_db d) \<or> objs (c_db d) = {}" if "sv_conn sv' q = Some d" for q d
      using that assms(2-4) by (cases "q = a") auto
  qed (simp_all add: assms(5))
  ultimately show ?thesis
    by (simp add: homes_def)
qed

lemma contents_same_db:
  assumes "sv_conn sv a = Some c" "c_db c' = c_db c" "sv_conn sv' = (sv_conn sv)(a \<mapsto> c')" "sv_store sv' = sv_store sv"
  shows "contents sv' = contents sv"
  using assms by (auto simp: contents_def fun_eq_iff)

lemma try_requests_homes:
  assumes "c_incoming c = requests cmds @ rest" "stops rest" "batch_ok clock i cmds (view s (c_db c))"
    and "store_inv n s" "homes (sv\<lparr>sv_conn := (sv_conn sv)(a \<mapsto> c), sv_store := s\<rparr>)" "n + length cmds \<le> 30000"
    and "try_requests clock i a c s = Some (c', s')"
  shows "homes (sv\<lparr>sv_conn := (sv_conn sv)(a \<mapsto> c'), sv_store := s'\<rparr>)
    \<and> contents (sv\<lparr>sv_conn := (sv_conn sv)(a \<mapsto> c'), sv_store := s'\<rparr>) =
      (contents (sv\<lparr>sv_conn := (sv_conn sv)(a \<mapsto> c), sv_store := s\<rparr>))(a \<mapsto> (batch_end clock i cmds (view s (c_db c))))"
  using assms
proof (induction cmds arbitrary: i c s n)
  case Nil
  let ?sv = "sv\<lparr>sv_conn := (sv_conn sv)(a \<mapsto> c), sv_store := s\<rparr>"
  have "stops (c_incoming c)"
    using Nil.prems(1,2) by (simp add: requests_def)
  then obtain c1 where c1: "try_one_request (clock i) a c s = Some (c1, s, False)" "c_db c1 = c_db c"
    using try_one_request_stops by blast
  then have e: "c' = c1" "s' = s"
    using Nil.prems(7) by (simp_all add: try_requests.simps [of clock i])
  have "homes (sv\<lparr>sv_conn := (sv_conn sv)(a \<mapsto> c1), sv_store := s\<rparr>)"
    by (rule homes_same_db [OF Nil.prems(5), of a c c1]) (auto simp: c1(2) fun_eq_iff)
  moreover have "contents (sv\<lparr>sv_conn := (sv_conn sv)(a \<mapsto> c1), sv_store := s\<rparr>) = (contents ?sv)(a \<mapsto> view s (c_db c))"
    using c1(2) by (auto simp: contents_def fun_eq_iff)
  ultimately show ?case
    unfolding e by (simp del: fun_upd_apply)
next
  case (Cons cmd cmds)
  let ?f = "view s (c_db c)" and ?sv = "sv\<lparr>sv_conn := (sv_conn sv)(a \<mapsto> c), sv_store := s\<rparr>"
  have ok: "sendable cmd" "in_spec cmd ?f" "n < 30000"
    using Cons.prems(3,6) by auto
  have d: "db_inv s (c_db c)"
    using homes_db [OF Cons.prems(5), of a c] by simp
  obtain s1 db1 r' where r: "do_request (clock i) a cmd (le32 0) s (c_db c) = Some (s1, db1, le32 0 @ encode r')"
    using do_request_ok [OF Cons.prems(4) d ok(3,2), of "clock i" a "le32 0"] by blast
  let ?c = "c\<lparr>c_outgoing := framed r', c_db := db1, c_incoming := requests cmds @ rest\<rparr>"
  have "c_incoming c = frame (req_body cmd) @ requests cmds @ rest"
    using Cons.prems(1) by (simp add: requests_def)
  then have one: "try_one_request (clock i) a c s = Some (?c, s1, True)"
    by (rule try_one_request_run [OF _ ok(1) r])
  have next': "homes (?sv\<lparr>sv_conn := (sv_conn ?sv)(a \<mapsto> ?c), sv_store := s1\<rparr>)" "store_inv (Suc n) s1"
    "view s1 db1 = effect (clock i) cmd ?f"
    "contents (?sv\<lparr>sv_conn := (sv_conn ?sv)(a \<mapsto> ?c), sv_store := s1\<rparr>) = (contents ?sv)(a \<mapsto> effect (clock i) cmd ?f)"
    using request_homes [OF Cons.prems(5), of a c n cmd "clock i" "le32 0" s1 db1 "le32 0 @ encode r'" ?c]
      Cons.prems(4) ok(2,3) r by (simp_all del: fun_upd_apply, simp_all)
  have step: "try_requests clock (i + 1) a ?c s1 = Some (c', s')"
    using one Cons.prems(7) by (simp add: try_requests.simps [of clock i])
  have bo: "batch_ok clock (i + 1) cmds (view s1 (c_db ?c))"
    using Cons.prems(3) next'(3) by simp
  have h: "homes (sv\<lparr>sv_conn := (sv_conn sv)(a \<mapsto> ?c), sv_store := s1\<rparr>)"
    using next'(1) by (simp del: fun_upd_apply)
  have "homes (sv\<lparr>sv_conn := (sv_conn sv)(a \<mapsto> c'), sv_store := s'\<rparr>)
    \<and> contents (sv\<lparr>sv_conn := (sv_conn sv)(a \<mapsto> c'), sv_store := s'\<rparr>) =
      (contents (sv\<lparr>sv_conn := (sv_conn sv)(a \<mapsto> ?c), sv_store := s1\<rparr>))(a \<mapsto> (batch_end clock (i + 1) cmds (view s1 (c_db ?c))))"
    by (rule Cons.IH [OF _ Cons.prems(2) bo next'(2) h _ step]) (use Cons.prems(6) in simp_all)
  then show ?case
    using next'(3,4) by (simp add: split_beta del: fun_upd_apply)
qed

lemma handle_read_homes:
  assumes "handle_read clock (ReadBytes buf) a sv = Some sv'" "sv_conn sv a = Some c" "c_incoming c @ buf = requests cmds @ rest"
    and "stops rest" "batch_ok clock 0 cmds (view (sv_store sv) (c_db c))" "store_inv n (sv_store sv)" "homes sv"
    and "n + length cmds \<le> 30000"
  shows "homes sv'"
    "buf \<noteq> [] \<Longrightarrow> contents sv' = (contents sv)(a \<mapsto> (batch_end clock 0 cmds (view (sv_store sv) (c_db c))))"
proof -
  have "homes sv' \<and> (buf \<noteq> [] \<longrightarrow> contents sv' = (contents sv)(a \<mapsto> (batch_end clock 0 cmds (view (sv_store sv) (c_db c)))))"
  proof (cases "buf = []")
  case True
  then have "sv' = sv\<lparr>sv_conn := (sv_conn sv)(a \<mapsto> c\<lparr>c_want_close := True\<rparr>)\<rparr>"
    using assms(1,2) by (simp add: handle_read_def upd_conn_def)
  then show ?thesis
    using homes_same_db [OF assms(7,2), of "c\<lparr>c_want_close := True\<rparr>" sv'] True by simp
next
  case False
  let ?c = "c\<lparr>c_incoming := c_incoming c @ buf\<rparr>"
  obtain c1 s1 where t: "try_requests clock 0 a ?c (sv_store sv) = Some (c1, s1)"
    "sv' = sv\<lparr>sv_conn := (sv_conn sv)(a \<mapsto> (if length (c_outgoing c1) > 0 then c1\<lparr>c_want_read := False, c_want_write := True\<rparr> else c1)),
       sv_store := s1\<rparr>"
    using assms(1,2) False by (auto simp: handle_read_def buf_append_def Let_def split: bind_splits)
  have "homes (sv\<lparr>sv_conn := (sv_conn sv)(a \<mapsto> ?c), sv_store := sv_store sv\<rparr>)"
    by (rule homes_same_db [OF assms(7,2), of ?c]) simp_all
  then have h: "homes (sv\<lparr>sv_conn := (sv_conn sv)(a \<mapsto> c1), sv_store := s1\<rparr>)"
    "contents (sv\<lparr>sv_conn := (sv_conn sv)(a \<mapsto> c1), sv_store := s1\<rparr>) =
      (contents (sv\<lparr>sv_conn := (sv_conn sv)(a \<mapsto> ?c), sv_store := sv_store sv\<rparr>))(a \<mapsto> (batch_end clock 0 cmds (view (sv_store sv) (c_db c))))"
    using try_requests_homes [of ?c cmds rest clock 0 "sv_store sv" n sv a c1 s1] assms(3-6,8) t(1) by simp_all
  have "homes sv'"
    by (rule homes_same_db [OF h(1), of a c1 "if length (c_outgoing c1) > 0 then c1\<lparr>c_want_read := False, c_want_write := True\<rparr> else c1"])
      (simp_all add: t(2))
  moreover have "contents (sv\<lparr>sv_conn := (sv_conn sv)(a \<mapsto> ?c), sv_store := sv_store sv\<rparr>) = contents sv"
    by (rule contents_same_db [OF assms(2), of ?c]) simp_all
  moreover have "contents sv' = contents (sv\<lparr>sv_conn := (sv_conn sv)(a \<mapsto> c1), sv_store := s1\<rparr>)"
    by (rule contents_same_db [of _ a c1 "if length (c_outgoing c1) > 0 then c1\<lparr>c_want_read := False, c_want_write := True\<rparr> else c1"])
      (simp_all add: t(2))
  ultimately show ?thesis
    using h(2) by simp
  qed
  then show "homes sv'"
    "buf \<noteq> [] \<Longrightarrow> contents sv' = (contents sv)(a \<mapsto> (batch_end clock 0 cmds (view (sv_store sv) (c_db c))))"
    by blast+
qed

end
