(* ===== verification/LoopProps.thy ===== *)
theory LoopProps
  imports Owners
begin

text \<open>
  Properties of the event loop of server.cpp that rest on \<open>LoopOk\<close> and \<open>Owners\<close>: expiry of
  keys and of connections, the time that \<open>poll\<close> may sleep, the bytes written, and the cases in
  which a reply or the owner of an entry is lost.
\<close>

section \<open>A server with one connection that set a key and its deadline\<close>

lemma fresh_server:
  "\<exists>sv c. sv_inv sv [1] \<and> homes sv \<and> sv_store sv = empty_store \<and> sv_conn sv = [1 \<mapsto> c] \<and> c_db c = empty_hmap \<and> c_incoming c = []
    \<and> c_fd c = 5 \<and> c_last_active_ms c = 0 \<and> c_outgoing c = []"
proof -
  obtain s0 where s0: "server0 = Some s0" "sv_inv s0 []" "sv_store s0 = empty_store"
    using server0_inv by blast
  have n: "sv_next s0 = 1" "sv_conn s0 = Map.empty"
    using s0(1) by (auto simp: server0_def split: bind_splits)
  obtain sv where sv: "handle_accept 0 5 s0 = Some (sv, Some 1)" "sv_inv sv [1]" "sv_store sv = empty_store"
    using handle_accept_inv [OF s0(2), of 5 0] s0(3) n(1) by auto
  then obtain c where c: "sv_conn sv = [1 \<mapsto> c]" "c_db c = empty_hmap" "c_incoming c = []" "c_fd c = 5" "c_last_active_ms c = 0"
    "c_outgoing c = []"
    using n by (auto simp: handle_accept_def Let_def split: bind_splits)
  have "deadline (s_timers empty_store) x = None" for x
    by (rule deadline_empty) (simp add: empty_store_def)
  then have "homes sv"
    using c(1,2) sv(3) by (auto simp: detached_def empty_store_def homes_def owned_def armed_in_def objs_def)
  then show ?thesis
    using sv c by blast
qed

definition set_expire :: "bytes list list" where
  "set_expire = [[lit ''set'', [107], [118]], [lit ''pexpire'', [107], lit ''10'']]"

lemma set_expire_ok:
  "batch_ok (\<lambda>_. 7) 0 set_expire Map.empty" "(batch_end (\<lambda>_. 7) 0 set_expire Map.empty) = [[107] \<mapsto> (VStr [118], Some 17)]"
  "length set_expire = 2"
proof -
  have "str2int (lit ''10'') = Some 10"
    by code_simp
  then show "batch_ok (\<lambda>_. 7) 0 set_expire Map.empty" "(batch_end (\<lambda>_. 7) 0 set_expire Map.empty) = [[107] \<mapsto> (VStr [118], Some 17)]"
    "length set_expire = 2"
    by (simp_all add: set_expire_def sendable_def req_body_def field_def k_max_msg_def k_max_args_def in_spec_def is_cmd_def lit_def
      effect_def spec_def spec_set_def spec_expire_def)
qed

lemma due_keys_le:
  assumes "store_inv n s"
  shows "card (due_keys now s) \<le> n"
proof -
  have t: "timers_ok (s_timers s)" "length (fst (s_timers s)) \<le> n"
    using assms by (simp_all add: store_inv_def)
  have "card (due_keys now s) \<le> card (dom (deadline (s_timers s)))"
    by (rule card_mono [OF ttl.finite_due [OF t(1)]]) (auto simp: due_keys_def)
  then show ?thesis
    using t(2) timers_length [OF t(1)] by simp
qed

lemma survives_view:
  assumes "survives now sv sv'" "homes sv'" "due_keys now (sv_store sv') = {}" "sv_conn sv o' = Some c"
  shows "\<exists>db. sv_conn sv' o' = Some (c\<lparr>c_db := db\<rparr>) \<and> view (sv_store sv') db = unexpired now (view (sv_store sv) (c_db c))"
proof -
  obtain db where db: "sv_conn sv' o' = Some (c\<lparr>c_db := db\<rparr>)"
    "unexpired now (view (sv_store sv') db) = unexpired now (view (sv_store sv) (c_db c))"
    using assms(1,4) by (auto simp: survives_def dest!: spec [of _ o'])
  have "db_inv (sv_store sv') db"
    using homes_db [OF assms(2) db(1)] by simp
  then show ?thesis
    using db unexpired_none [OF _ assms(3)] by auto
qed

section \<open>Properties: timers\<close>

text \<open>C7: The TTL part of \<open>process_timers\<close> removes from every connection exactly the keys whose deadline is before
  \<open>now\<close>, and keeps all others with their values and deadlines, as long as no more than 2001 keys are due
  (\<open>nworks++ >= k_max_works\<close> breaks after the 2001st); every entry found in the heap is in the hashtable of its owner,
  so the assertion in the loop holds.\<close>

theorem timers_expire_due_keys:
  assumes "homes sv" "store_inv n (sv_store sv)" "n + 1 < npos" "card (due_keys now (sv_store sv)) \<le> 2001"
  shows "\<exists>sv'. ttl_loop now 0 sv = Some sv' \<and> homes sv' \<and> store_inv n (sv_store sv') \<and> due_keys now (sv_store sv') = {}
    \<and> (\<forall>o' c. sv_conn sv o' = Some c \<longrightarrow> (\<exists>db. sv_conn sv' o' = Some (c\<lparr>c_db := db\<rparr>)
         \<and> view (sv_store sv') db = unexpired now (view (sv_store sv) (c_db c))))"
proof -
  have "0 + card (due_keys now (sv_store sv)) \<le> k_max_works + 1"
    using assms(4) by (simp add: k_max_works_def)
  then obtain sv' where sv': "ttl_loop now 0 sv = Some sv'" "store_inv n (sv_store sv')" "homes sv'" "survives now sv sv'"
    "due_keys now (sv_store sv') = {}"
    using ttl_loop_run [OF assms(2,3,1)] by blast
  then show ?thesis
    using survives_view [OF sv'(4,3,5)] by blast
qed

text \<open>Served and then expired: on a server where every entry is with its owner, a read that delivers a batch of
  requests runs them all, and a later run of the timers leaves of what they produced exactly the keys that are
  not past their deadline.\<close>

lemma served_keys_expire:
  assumes "homes sv" "store_inv n (sv_store sv)" "sv_conn sv a = Some c"
    and "c_incoming c @ buf = requests cmds @ rest" "buf \<noteq> []" "cmds \<noteq> []" "partial_msg rest"
      "batch_ok clock 0 cmds (view (sv_store sv) (c_db c))" "n + length cmds \<le> 2001"
  shows "\<exists>sv1 sv2 c2. handle_read clock (ReadBytes buf) a sv = Some sv1 \<and> ttl_loop now 0 sv1 = Some sv2
    \<and> sv_conn sv2 a = Some c2
    \<and> view (sv_store sv2) (c_db c2) = unexpired now (batch_end clock 0 cmds (view (sv_store sv) (c_db c)))
    \<and> homes sv2 \<and> store_inv (n + length cmds) (sv_store sv2)"
proof -
  have d: "db_inv (sv_store sv) (c_db c)"
    by (rule homes_db [OF assms(1,3)])
  have n: "n + length cmds \<le> 30000" "n + length cmds + 1 < npos"
    using assms(9) by (simp_all add: npos_def)
  obtain sv1 c1 where r: "handle_read clock (ReadBytes buf) a sv = Some sv1" "sv_conn sv1 = (sv_conn sv)(a \<mapsto> c1)"
    "view (sv_store sv1) (c_db c1) = (batch_end clock 0 cmds (view (sv_store sv) (c_db c)))"
    "store_inv (n + length cmds) (sv_store sv1)"
    using handle_read_run [OF assms(3-5,7,8,2) d n(1) assms(6)] by blast
  have h1: "homes sv1"
    using handle_read_homes [OF r(1) assms(3,4) _ assms(8,2,1) n(1)] assms(7) by (simp add: stops_def)
  have "card (due_keys now (sv_store sv1)) \<le> k_max_works + 1"
    using due_keys_le [OF r(4), of now] assms(9) by (simp add: k_max_works_def)
  then obtain sv2 where t: "ttl_loop now 0 sv1 = Some sv2" "store_inv (n + length cmds) (sv_store sv2)" "homes sv2"
    "survives now sv1 sv2" "due_keys now (sv_store sv2) = {}"
    using ttl_loop_run [OF r(4) n(2) h1, of 0 now] by auto
  obtain db where "sv_conn sv2 a = Some (c1\<lparr>c_db := db\<rparr>)" "view (sv_store sv2) db = unexpired now (view (sv_store sv1) (c_db c1))"
    using survives_view [OF t(4,3,5), of a c1] r(2) by auto
  then show ?thesis
    using r(1,3) t(1-3) by (intro exI [of _ sv1] exI [of _ sv2] exI [of _ "c1\<lparr>c_db := db\<rparr>"]) simp
qed

lemma armed_server:
  "\<exists>sv c. sv_inv sv [1] \<and> homes sv \<and> store_inv 2 (sv_store sv) \<and> sv_conn sv 1 = Some c
    \<and> view (sv_store sv) (c_db c) = [[107] \<mapsto> (VStr [118], Some 17)]"
proof -
  obtain sv c where sv: "sv_inv sv [1]" "homes sv" "sv_store sv = empty_store" "sv_conn sv = [1 \<mapsto> c]" "c_db c = empty_hmap"
    "c_incoming c = []"
    using fresh_server by blast
  let ?buf = "requests set_expire"
  have b: "?buf \<noteq> []" "set_expire \<noteq> []" "partial_msg []"
    by (simp_all add: requests_def set_expire_def frame_nonempty partial_msg_def)
  have c: "sv_conn sv 1 = Some c" "c_incoming c @ ?buf = requests set_expire @ []"
    using sv by simp_all
  have s: "batch_ok (\<lambda>_. 7) 0 set_expire (view (sv_store sv) (c_db c))" "store_inv 0 (sv_store sv)" "db_inv (sv_store sv) (c_db c)"
    "0 + length set_expire \<le> 30000"
    using sv set_expire_ok by simp_all
  obtain sv1 c1 where r: "handle_read (\<lambda>_. 7) (ReadBytes ?buf) 1 sv = Some sv1" "sv_conn sv1 = (sv_conn sv)(1 \<mapsto> c1)"
    "view (sv_store sv1) (c_db c1) = (batch_end (\<lambda>_. 7) 0 set_expire (view (sv_store sv) (c_db c)))"
    "store_inv (0 + length set_expire) (sv_store sv1)"
    using handle_read_run [OF c b(1,3) s(1-4) b(2)] by blast
  have "homes sv1"
    using handle_read_homes [OF r(1) c _ s(1,2) sv(2) s(4)] b(3) by (simp add: stops_def)
  moreover have "sv_inv sv1 [1]"
    by (rule handle_read_inv [OF sv(1) r(1)]) (use c(1) in simp)
  moreover have "store_inv 2 (sv_store sv1)" "view (sv_store sv1) (c_db c1) = [[107] \<mapsto> (VStr [118], Some 17)]"
    using r(3,4) set_expire_ok sv(3,5) by (simp_all add: numeral_2_eq_2)
  ultimately show ?thesis
    using r(2) by (intro exI [of _ sv1] exI [of _ c1]) simp
qed

lemma unexpired_one: "unexpired now [k \<mapsto> (v, Some d)] = (if d < now then Map.empty else [k \<mapsto> (v, Some d)])"
  by (auto simp: unexpired_def fun_eq_iff)

lemma timers_expire_due_keys_witness:
  "\<exists>sv sv' c c'. sv_conn sv 1 = Some c \<and> view (sv_store sv) (c_db c) [107] = Some (VStr [118], Some 17)
    \<and> ttl_loop 100 0 sv = Some sv' \<and> sv_conn sv' 1 = Some c' \<and> view (sv_store sv') (c_db c') = Map.empty"
proof -
  obtain sv c where sv: "homes sv" "store_inv 2 (sv_store sv)" "sv_conn sv 1 = Some c"
    "view (sv_store sv) (c_db c) = [[107] \<mapsto> (VStr [118], Some 17)]"
    using armed_server by blast
  have "card (due_keys 100 (sv_store sv)) \<le> 2001"
    using due_keys_le [OF sv(2), of 100] by simp
  then obtain sv' where "ttl_loop 100 0 sv = Some sv'"
    "\<forall>o' c. sv_conn sv o' = Some c \<longrightarrow> (\<exists>db. sv_conn sv' o' = Some (c\<lparr>c_db := db\<rparr>)
         \<and> view (sv_store sv') db = unexpired 100 (view (sv_store sv) (c_db c)))"
    using timers_expire_due_keys [OF sv(1,2), of 100] by (auto simp: npos_def)
  moreover from this obtain db where "sv_conn sv' 1 = Some (c\<lparr>c_db := db\<rparr>)"
    "view (sv_store sv') db = unexpired 100 (view (sv_store sv) (c_db c))"
    using sv(3) by blast
  moreover from this have "view (sv_store sv') db = Map.empty"
    by (simp add: sv(4) unexpired_one)
  ultimately show ?thesis
    using sv(3,4) by (intro exI [of _ sv] exI [of _ sv'] exI [of _ c] exI [of _ "c\<lparr>c_db := db\<rparr>"]) simp
qed

lemma served_keys_expire_witness:
  "\<exists>sv sv1 sv2 c2. handle_read (\<lambda>_. 7) (ReadBytes (requests set_expire)) 1 sv = Some sv1 \<and> ttl_loop 100 0 sv1 = Some sv2
    \<and> sv_conn sv2 1 = Some c2 \<and> view (sv_store sv2) (c_db c2) = Map.empty"
proof -
  obtain sv c where sv: "homes sv" "sv_store sv = empty_store" "sv_conn sv = [1 \<mapsto> c]" "c_db c = empty_hmap" "c_incoming c = []"
    using fresh_server by blast
  let ?buf = "requests set_expire"
  have b: "?buf \<noteq> []" "set_expire \<noteq> []" "partial_msg []"
    by (simp_all add: requests_def set_expire_def frame_nonempty partial_msg_def)
  have c: "sv_conn sv 1 = Some c" "c_incoming c @ ?buf = requests set_expire @ []"
    using sv by simp_all
  have s: "store_inv 0 (sv_store sv)" "batch_ok (\<lambda>_. 7) 0 set_expire (view (sv_store sv) (c_db c))" "0 + length set_expire \<le> 2001"
    using sv set_expire_ok by simp_all
  have v: "view (sv_store sv) (c_db c) = Map.empty"
    using sv by simp
  show ?thesis
    using served_keys_expire [OF sv(1) s(1) c b s(2,3), of 100] by (auto simp: v set_expire_ok unexpired_one)
qed

text \<open>C32: When the connection that owns the earliest due entry is destroyed, the entry keeps its timer and its
  pointer to the freed \<open>Conn\<close>, and the next run of the timers dereferences it (undefined behaviour, the value \<open>None\<close>).\<close>

theorem destroyed_owner_dangles:
  assumes "sv_inv sv xs" "homes sv" "store_inv n (sv_store sv)" "sv_conn sv a = Some c"
    and "fst (s_timers (sv_store sv)) \<noteq> []" "hi_ref (fst (s_timers (sv_store sv)) ! 0) = Some ent" "ent \<in> objs (c_db c)"
      "hi_val (fst (s_timers (sv_store sv)) ! 0) < now"
  shows "\<exists>sv'. conn_destroy a sv = Some sv' \<and> ttl_loop now k sv' = None"
proof -
  have "sv_conn sv a \<noteq> None"
    using assms(4) by simp
  then obtain us vs where xs: "xs = us @ a # vs"
    using sv_inv_split [OF assms(1)] by blast
  obtain sv' where d: "conn_destroy a sv = Some sv'" "sv_store sv' = sv_store sv" "sv_conn sv' = (sv_conn sv)(a := None)"
    using conn_destroy_inv [OF assms(1) [unfolded xs] assms(4)] by blast
  obtain e where e: "snd (s_timers (sv_store sv)) ent = Some 0" "s_entry (sv_store sv) ent = Some e"
    using timer_root(2) [OF assms(3,5)] assms(6) by auto
  have "owned (sv_store sv) (c_db c) a"
    using assms(2,4) by (simp add: homes_def)
  then have "e_owner e = Some a"
    using assms(7) e(2) by (auto simp: owned_def)
  then have "ttl_loop now k sv' = None"
    using assms(5,6,8) e d(2,3) by (subst ttl_loop.simps) (simp add: Let_def npos_def)
  then show ?thesis
    using d(1) by blast
qed

lemma destroyed_owner_dangles_witness:
  "\<exists>sv sv'. sv_inv sv [1] \<and> conn_destroy 1 sv = Some sv' \<and> ttl_loop 100 0 sv' = None"
proof -
  obtain sv c where sv: "sv_inv sv [1]" "homes sv" "store_inv 2 (sv_store sv)" "sv_conn sv 1 = Some c"
    "view (sv_store sv) (c_db c) = [[107] \<mapsto> (VStr [118], Some 17)]"
    using armed_server by blast
  note db = homes_db [OF sv(2,4)]
  let ?s = "sv_store sv"
  have "view ?s (c_db c) [107] = Some (VStr [118], Some 17)"
    by (simp add: sv(5))
  then obtain b where "item ?s b = (VStr [118], Some 17)"
    unfolding view_Some [OF db] by blast
  then have ne: "fst (s_timers ?s) \<noteq> []"
    using deadline_empty [of "s_timers ?s" b] by (auto simp: item_def)
  obtain x where x: "hi_ref (fst (s_timers ?s) ! 0) = Some x" "deadline (s_timers ?s) x = Some (hi_val (fst (s_timers ?s) ! 0))"
    using timer_root(2) [OF sv(3) ne] by blast
  have "sv_conn sv = [1 \<mapsto> c]"
    using sv(1,4) by (auto simp: sv_inv_def fun_eq_iff)
  then have o: "x \<in> objs (c_db c)"
    using sv(2) x(2) by (auto simp: homes_def armed_in_def split: if_splits)
  then have "view ?s (c_db c) (ekey ?s x) = Some (item ?s x)"
    unfolding view_Some [OF db] by (auto simp: binds_iff)
  then have "hi_val (fst (s_timers ?s) ! 0) = 17"
    using x(2) by (auto simp: sv(5) item_def split: if_splits)
  then show ?thesis
    using destroyed_owner_dangles [OF sv(1-4) ne x(1) o, of 100 0] sv(1) by auto
qed

text \<open>C19: On a ring of connections in the order of their last activity, the idle part of \<open>process_timers\<close> ends and
  destroys exactly the connections that have been idle for more than a minute; the others, their ring and the
  store stay as they are.\<close>

theorem idle_timeout_exact:
  assumes "sv_inv sv xs" "idle_sorted sv xs"
  shows "\<exists>sv' ys. idle_loop now sv = Some sv' \<and> sv_inv sv' ys \<and> sv_store sv' = sv_store sv
    \<and> sv_conn sv' = sv_conn sv |` {a. unat now \<le> last_ms sv a + 60000} \<and> set ys = {a \<in> set xs. unat now \<le> last_ms sv a + 60000}"
proof -
  let ?late = "\<lambda>a. last_ms sv a + 60000 < unat now"
  have dom: "set xs = dom (sv_conn sv)"
    using assms(1) by (simp add: sv_inv_def)
  have ex: "idle_expired now sv a \<longleftrightarrow> ?late a" if a: "a \<in> set xs" for a
  proof -
    obtain c where "sv_conn sv a = Some c"
      using a dom by blast
    then show ?thesis
      using idle_expired_ms assms(2) a unfolding idle_sorted_def by (meson not_le)
  qed
  have "set (takeWhile (idle_expired now sv) xs) = {a \<in> set xs. idle_expired now sv a}"
    by (rule takeWhile_sorted [of "last_ms sv" _ _ "unat now - 60000"]) (use assms(2) ex in \<open>auto simp: idle_sorted_def\<close>)
  then have tw: "set (takeWhile (idle_expired now sv) xs) = {a \<in> set xs. ?late a}"
    using ex by auto
  obtain sv' where sv': "idle_loop now sv = Some sv'" "sv_inv sv' (dropWhile (idle_expired now sv) xs)" "sv_store sv' = sv_store sv"
    "sv_conn sv' = sv_conn sv |` (- {a \<in> set xs. ?late a})"
    using idle_loop_run [OF assms(1), of now] unfolding tw by blast
  have "sv_conn sv |` (- {a \<in> set xs. ?late a}) = sv_conn sv |` {a. unat now \<le> last_ms sv a + 60000}"
    using dom by (auto simp: restrict_map_def fun_eq_iff not_less)
  then show ?thesis
    using sv' dom by (intro exI [of _ sv'] exI [of _ "dropWhile (idle_expired now sv) xs"]) (auto simp: sv_inv_def)
qed

lemma idle_timeout_exact_witness: "\<exists>sv sv' c. sv_conn sv = [1 \<mapsto> c] \<and> idle_loop 60001 sv = Some sv' \<and> sv_conn sv' = Map.empty"
proof -
  obtain sv c where sv: "sv_inv sv [1]" "sv_conn sv = [1 \<mapsto> c]" "c_last_active_ms c = 0"
    using fresh_server by blast
  have "idle_sorted sv [1]"
    using sv(2,3) by (simp add: idle_sorted_def last_ms_def)
  from idle_timeout_exact [OF sv(1) this, of 60001] obtain sv' where sv': "idle_loop 60001 sv = Some sv'"
    "sv_conn sv' = sv_conn sv |` {a. 60001 \<le> last_ms sv a + 60000}"
    by auto
  have "sv_conn sv' = Map.empty"
    using sv(2,3) by (auto simp: sv'(2) last_ms_def restrict_map_def fun_eq_iff)
  then show ?thesis
    using sv(2) sv'(1) by blast
qed

text \<open>C20: Activity on a connection moves it to the end of the idle list with the current time, which keeps the list in the
  order of last activity (the order that \<open>process_timers\<close> and \<open>next_timer_ms\<close> rely on), with nobody lost.\<close>

theorem touch_keeps_order:
  assumes "sv_inv sv (us @ a # vs)" "idle_sorted sv (us @ a # vs)" "unat now + 60000 < 2 ^ 64"
    and "\<forall>b \<in> set (us @ vs). last_ms sv b \<le> unat now"
  shows "\<exists>sv'. touch now a sv = Some sv' \<and> sv_inv sv' (us @ vs @ [a]) \<and> idle_sorted sv' (us @ vs @ [a]) \<and> last_ms sv' a = unat now"
proof -
  have nin: "a \<notin> set (us @ vs)"
    using sv_inv_distinct [OF assms(1)] by auto
  obtain c where c: "sv_conn sv a = Some c"
    using assms(1) by (auto simp: sv_inv_def)
  obtain sv' where sv': "touch now a sv = Some sv'" "sv_inv sv' (us @ vs @ [a])"
    "sv_conn sv' = (sv_conn sv)(a \<mapsto> c\<lparr>c_last_active_ms := now\<rparr>)"
    using touch_inv [OF assms(1) c, of now] by blast
  have l: "last_ms sv' a = unat now" "\<And>b. b \<noteq> a \<Longrightarrow> last_ms sv' b = last_ms sv b"
    by (simp_all add: last_ms_def sv'(3))
  have "map (last_ms sv') (us @ vs) = map (last_ms sv) (us @ vs)"
    by (intro map_cong refl l(2)) (use nin in blast)
  then have m: "map (last_ms sv') (us @ vs @ [a]) = map (last_ms sv) (us @ vs) @ [unat now]"
    using l(1) by simp
  have "sorted (map (last_ms sv) (us @ vs))"
    using assms(2) by (auto simp: idle_sorted_def sorted_append)
  then have "sorted (map (last_ms sv') (us @ vs @ [a]))"
    unfolding m using assms(4) by (auto simp: sorted_append)
  moreover have "last_ms sv' b + 60000 < 2 ^ 64" if "b \<in> set (us @ vs @ [a])" for b
    using that assms(2,3) l by (cases "b = a") (auto simp: idle_sorted_def not_le)
  ultimately show ?thesis
    using sv'(1,2) l(1) assms(3) by (auto simp: idle_sorted_def not_le)
qed

lemma touch_keeps_order_witness: "\<exists>sv sv'. sv_inv sv [1] \<and> touch 9 1 sv = Some sv' \<and> last_ms sv' 1 = 9"
proof -
  obtain sv c where sv: "sv_inv sv [1]" "sv_conn sv = [1 \<mapsto> c]" "c_last_active_ms c = 0"
    using fresh_server by blast
  have "idle_sorted sv ([] @ 1 # [])"
    using sv(2,3) by (simp add: idle_sorted_def last_ms_def)
  then show ?thesis
    using touch_keeps_order [of sv "[]" 1 "[]" 9] sv(1) by auto
qed

text \<open>C21: With a live connection at the head of the idle list, \<open>next_timer_ms\<close> returns a time that poll may sleep without
  missing anything: at most a minute, never past the deadline of a key, never past the idle timeout of that
  connection, and 0 when a key is due already. No value is lost in the conversion to 32 bits.\<close>

theorem poll_wakes_in_time:
  assumes "sv_inv sv (a # xs)" "store_inv n (sv_store sv)" "sv_conn sv a = Some c"
    and "c_last_active_ms c \<le> now" "unat now + 60000 < 2 ^ 64 - 1"
  shows "\<exists>t. next_timer_ms now sv = Some t \<and> unat t \<le> unat (c_last_active_ms c) + 60000 - unat now
    \<and> (\<forall>b d. deadline (s_timers (sv_store sv)) b = Some d \<longrightarrow> unat t \<le> unat d - unat now)"
proof -
  let ?h = "fst (s_timers (sv_store sv))" and ?idle = "c_last_active_ms c + k_idle_timeout_ms"
  let ?next = "if ?h \<noteq> [] \<and> hi_val (?h ! 0) < ?idle then hi_val (?h ! 0) else ?idle"
  have r: "ring (sv_idle sv) idle_list (a # xs)"
    using assms(1) by (simp add: sv_inv_def)
  have now: "unat (c_last_active_ms c) \<le> unat now"
    using assms(4) by (simp add: word_le_nat_alt)
  then have idle: "unat ?idle = unat (c_last_active_ms c) + 60000"
    using assms(5) by (simp add: k_idle_timeout_ms_def unat_word_ariths)
  have le: "unat ?next \<le> unat (c_last_active_ms c) + 60000"
    using idle by (auto simp: word_less_nat_alt)
  have "?next \<noteq> - 1"
  proof
    assume "?next = - 1"
    then have "unat ?next = 2 ^ 64 - 1"
      by (simp add: unsigned_minus_1_eq_mask mask_eq_exp_minus_1)
    then show False
      using le now assms(5) by simp
  qed
  then have t: "next_timer_ms now sv = Some (if ?next \<le> now then 0 else ucast (?next - now))"
    using dlist_empty_ring [OF r] ring_first [OF r] assms(3) by (simp add: next_timer_ms_def Let_def)
  have u: "unat (if ?next \<le> now then 0 else ucast (?next - now) :: u32) = unat ?next - unat now"
  proof (cases "?next \<le> now")
    case True
    then show ?thesis
      by (simp add: word_le_nat_alt)
  next
    case False
    then have "unat (?next - now) = unat ?next - unat now"
      by (intro unat_sub) simp
    moreover have "unat ?next - unat now < 2 ^ 32"
      using le now by simp
    ultimately show ?thesis
      using False by (simp add: unsigned_ucast_eq take_bit_nat_eq_self)
  qed
  have "unat ?next \<le> unat d" if d: "deadline (s_timers (sv_store sv)) b = Some d" for b d
  proof -
    have ne: "?h \<noteq> []"
      using d by (metis deadline_empty option.distinct(1))
    have "\<not> d < hi_val (?h ! 0)"
    proof
      assume "d < hi_val (?h ! 0)"
      moreover obtain k where "hi_val (?h ! 0) = k" by simp
      ultimately have "due_keys (hi_val (?h ! 0)) (sv_store sv) \<noteq> {}"
        using d by (auto simp: due_keys_def)
      then show False
        using timer_root(1) [OF assms(2), of "hi_val (?h ! 0)"] by simp
    qed
    then show ?thesis
      using ne by (auto simp: word_le_nat_alt word_less_nat_alt)
  qed
  then show ?thesis
    using t u le by (intro exI [of _ "if ?next \<le> now then 0 else ucast (?next - now)"]) (simp add: diff_le_mono)
qed

lemma poll_wakes_in_time_witness: "\<exists>sv t. next_timer_ms 20 sv = Some t \<and> sv_inv sv [1] \<and> unat t \<le> 60000"
proof -
  obtain sv c where sv: "sv_inv sv [1]" "sv_store sv = empty_store" "sv_conn sv = [1 \<mapsto> c]" "c_last_active_ms c = 0"
    using fresh_server by blast
  have c: "sv_conn sv 1 = Some c" "store_inv 0 (sv_store sv)"
    using sv by simp_all
  obtain t where "next_timer_ms 20 sv = Some t" "unat t \<le> unat (c_last_active_ms c) + 60000 - unat (20 :: u64)"
    using poll_wakes_in_time [OF sv(1) c(2,1), of 20] sv(4) by auto
  moreover from this have "unat t \<le> 60000"
    using sv(4) by simp
  ultimately show ?thesis
    using sv(1) by blast
qed

section \<open>Properties: replies\<close>

text \<open>The bytes that a list of results of \<open>write\<close> accepts, and lists that do not claim more than there is and go on
  until the buffer is empty or \<open>write\<close> stops.\<close>

fun accepted :: "write_result list \<Rightarrow> nat" where
  "accepted (WriteSent n # ws) = (if n = 0 then 0 else n + accepted ws)"
| "accepted ws = 0"

fun honest :: "write_result list \<Rightarrow> nat \<Rightarrow> bool" where
  "honest ws 0 \<longleftrightarrow> True"
| "honest [] n \<longleftrightarrow> False"
| "honest (WriteSent k # ws) n \<longleftrightarrow> k \<le> n \<and> (k = 0 \<or> honest ws (n - k))"
| "honest (w # ws) n \<longleftrightarrow> True"

lemma handle_write_sends:
  "honest ws (length (c_outgoing c)) \<Longrightarrow> \<exists>c'. handle_write ws c = Some c' \<and> c_outgoing c' = drop (accepted ws) (c_outgoing c)
    \<and> c_incoming c' = c_incoming c \<and> c_db c' = c_db c
    \<and> (if c_outgoing c' = [] then c_want_close c' = c_want_close c \<and> c_want_read c' \<and> \<not> c_want_write c'
       else c_want_read c' = c_want_read c \<and> c_want_write c' = c_want_write c)"
proof (induction ws c rule: handle_write.induct)
  case (1 ws c)
  show ?case
  proof (cases "\<exists>n ws'. c_outgoing c \<noteq> [] \<and> ws = WriteSent n # ws' \<and> n \<noteq> 0")
    case False
    then show ?thesis
    proof (cases "c_outgoing c = [] \<or> ws = []")
      case True
      then have "c_outgoing c = []"
        using "1.prems" by (cases "c_outgoing c") auto
      then show ?thesis
        by (simp add: handle_write.simps [of ws c])
    next
      case go: False
      then obtain w ws' where w: "ws = w # ws'"
        by (cases ws) auto
      have "handle_write ws c = Some (if w = WriteAgain then c else c\<lparr>c_want_close := True\<rparr>) \<and> accepted ws = 0"
        using False go w by (cases w) (auto simp: handle_write.simps [of _ c])
      then show ?thesis
        using go by simp
    qed
  next
    case True
    then obtain n ws' where w: "c_outgoing c \<noteq> []" "ws = WriteSent n # ws'" "n \<noteq> 0"
      by blast
    let ?c = "c\<lparr>c_outgoing := drop n (c_outgoing c)\<rparr>"
    obtain m where "length (c_outgoing c) = Suc m"
      using w(1) by (cases "c_outgoing c") auto
    then have h: "n \<le> length (c_outgoing c)" "honest ws' (length (c_outgoing ?c))"
      using "1.prems" w(2,3) by simp_all
    have b: "buf_consume (c_outgoing c) n = Some (drop n (c_outgoing c))"
      using h(1) by (simp add: buf_consume_def)
    have "handle_write ws c = handle_write ws' ?c" "accepted ws = n + accepted ws'"
      using w b by (simp_all add: handle_write.simps [of "WriteSent n # ws'"])
    moreover obtain c' where "handle_write ws' ?c = Some c'" "c_outgoing c' = drop (accepted ws') (c_outgoing ?c)"
      "c_incoming c' = c_incoming ?c" "c_db c' = c_db ?c"
      "if c_outgoing c' = [] then c_want_close c' = c_want_close ?c \<and> c_want_read c' \<and> \<not> c_want_write c'
       else c_want_read c' = c_want_read ?c \<and> c_want_write c' = c_want_write ?c"
      using "1.IH" [OF w(1,2) refl w(3) b h(2)] by blast
    ultimately show ?thesis
      by (intro exI [of _ c']) (simp add: add.commute)
  qed
qed

text \<open>C22: \<open>handle_write\<close> ends, sends the bytes of the output buffer in order without dropping or repeating one whatever
  sizes \<open>write\<close> accepts, and goes back to reading exactly when all of the buffer is out.\<close>

theorem write_keeps_order:
  assumes "honest ws (length (c_outgoing c))"
  shows "\<exists>c'. handle_write ws c = Some c' \<and> take (accepted ws) (c_outgoing c) @ c_outgoing c' = c_outgoing c
    \<and> (if c_outgoing c' = [] then c_want_close c' = c_want_close c \<and> c_want_read c' \<and> \<not> c_want_write c'
       else c_want_read c' = c_want_read c \<and> c_want_write c' = c_want_write c)"
proof -
  obtain c' where "handle_write ws c = Some c'" "c_outgoing c' = drop (accepted ws) (c_outgoing c)"
    "if c_outgoing c' = [] then c_want_close c' = c_want_close c \<and> c_want_read c' \<and> \<not> c_want_write c'
     else c_want_read c' = c_want_read c \<and> c_want_write c' = c_want_write c"
    using handle_write_sends [OF assms] by blast
  then show ?thesis
    by (metis append_take_drop_id)
qed

lemma write_keeps_order_witness:
  "\<exists>c'. handle_write [WriteSent 2, WriteAgain] (conn0\<lparr>c_outgoing := [1, 2, 3]\<rparr>) = Some c' \<and> [1, 2] @ c_outgoing c' = [1, 2, 3]"
  using write_keeps_order [of "[WriteSent 2, WriteAgain]" "conn0\<lparr>c_outgoing := [1, 2, 3]\<rparr>"] by (auto simp: numeral_3_eq_3)

text \<open>C34: A bad request, when its last bytes arrive in an event that is not also writable: \<open>handle_read\<close> frames an error
  reply and leaves the store alone, but the same pass of the loop destroys the connection, so the reply is
  never written.\<close>

theorem bad_request_unanswered:
  assumes "sv_inv sv xs" "fd_lookup fd sv = Some a" "sv_conn sv a = Some c"
    and "ev_in ev" "\<not> ev_out ev" "ev_read ev = ReadBytes buf" "buf \<noteq> []" "bad_msg (c_incoming c @ buf)"
  shows "\<exists>sv1 sv2 c2 err sv3. touch (ev_now ev) a sv = Some sv1 \<and> handle_read (ev_clock ev) (ReadBytes buf) a sv1 = Some sv2
    \<and> sv_conn sv2 a = Some c2 \<and> c_outgoing c2 = c_outgoing c @ frame (encode (RErr ERR_BAD_REQ err)) \<and> c_want_write c2
    \<and> handle_conn fd ev sv = Some sv3 \<and> sv_conn sv3 a = None \<and> sv_store sv3 = sv_store sv"
proof -
  have "sv_conn sv a \<noteq> None"
    using assms(3) by simp
  then obtain us vs where xs: "xs = us @ a # vs"
    using sv_inv_split [OF assms(1)] by blast
  let ?c = "c\<lparr>c_last_active_ms := ev_now ev, c_incoming := c_incoming c @ buf\<rparr>"
  obtain sv1 where s1: "touch (ev_now ev) a sv = Some sv1" "sv_inv sv1 (us @ vs @ [a])" "sv_store sv1 = sv_store sv"
    "sv_conn sv1 = (sv_conn sv)(a \<mapsto> c\<lparr>c_last_active_ms := ev_now ev\<rparr>)"
    using touch_inv [OF assms(1) [unfolded xs] assms(3), of "ev_now ev"] by blast
  obtain err n where one: "try_one_request (ev_clock ev 0) a ?c (sv_store sv) = Some (?c\<lparr>c_outgoing := c_outgoing c @ frame (encode (RErr ERR_BAD_REQ err)),
     c_incoming := drop n (c_incoming ?c), c_want_read := False, c_want_write := True, c_want_close := True\<rparr>, sv_store sv, False)"
    using try_one_request_bad [of ?c "ev_clock ev 0" a "sv_store sv"] assms(8) by (auto simp: bad_msg_def)
  let ?c1 = "?c\<lparr>c_outgoing := c_outgoing c @ frame (encode (RErr ERR_BAD_REQ err)),
     c_incoming := drop n (c_incoming ?c), c_want_read := False, c_want_write := True, c_want_close := True\<rparr>"
  let ?c2 = "?c1\<lparr>c_want_read := False, c_want_write := True\<rparr>"
  let ?sv2 = "sv1\<lparr>sv_conn := (sv_conn sv1)(a \<mapsto> ?c2), sv_store := sv_store sv\<rparr>"
  have "try_requests (ev_clock ev) 0 a ?c (sv_store sv) = Some (?c1, sv_store sv)"
    using one by (subst try_requests.simps) simp
  then have rd: "handle_read (ev_clock ev) (ReadBytes buf) a sv1 = Some ?sv2"
    using assms(7) s1(3,4) by (simp add: handle_read_def buf_append_def Let_def frame_nonempty del: encode.simps)
  have "sv_inv ?sv2 ((us @ vs) @ a # [])"
    using sv_inv_upd [OF s1(2), of a "c\<lparr>c_last_active_ms := ev_now ev\<rparr>" ?c2 "sv_store sv"] s1(4) by simp
  then obtain sv3 where s3: "conn_destroy a ?sv2 = Some sv3" "sv_conn sv3 = (sv_conn ?sv2)(a := None)" "sv_store sv3 = sv_store sv"
    using conn_destroy_inv [of ?sv2 "us @ vs" a "[]" ?c2] by auto
  have "handle_conn fd ev sv = Some sv3"
    using assms(2,4-6) s1(1) rd s3(1) by (simp add: handle_conn_def)
  then show ?thesis
    using s1(1) rd s3(2,3) by (intro exI [of _ sv1] exI [of _ ?sv2] exI [of _ ?c2] exI [of _ err] exI [of _ sv3]) simp
qed

lemma bad_request_unanswered_witness:
  "\<exists>sv sv3. sv_inv sv [1] \<and> handle_conn 5 \<lparr>ev_in = True, ev_out = False, ev_err = False, ev_other = False, ev_now = 3, ev_clock = \<lambda>_. 3,
      ev_read = ReadBytes [255, 255, 255, 255], ev_write = []\<rparr> sv = Some sv3 \<and> sv_conn sv3 1 = None"
proof -
  let ?ev = "\<lparr>ev_in = True, ev_out = False, ev_err = False, ev_other = False, ev_now = 3, ev_clock = \<lambda>_. 3 :: u64,
      ev_read = ReadBytes [255, 255, 255, 255], ev_write = []\<rparr>"
  obtain sv c where sv: "sv_inv sv [1]" "sv_conn sv = [1 \<mapsto> c]" "c_incoming c = []" "c_fd c = 5"
    using fresh_server by blast
  let ?sv = "sv\<lparr>sv_fd2conn := (replicate 6 None)[5 := Some 1]\<rparr>"
  have inv: "sv_inv ?sv [1]"
    using sv by (auto simp: sv_inv_def fds_ok_def nth_list_update)
  have look: "fd_lookup 5 ?sv = Some 1"
    by (simp add: fd_lookup_def)
  have c: "sv_conn ?sv 1 = Some c"
    using sv(2) by simp
  have bad: "bad_msg (c_incoming c @ [255, 255, 255, 255])"
    by (simp add: sv(3) bad_msg_def rd32_def k_max_msg_def)
  show ?thesis
    using bad_request_unanswered [OF inv look c, of ?ev, OF _ _ _ _ bad] inv by auto
qed

end
