(* ===== verification/Safety.thy ===== *)
theory Safety
  imports LoopProps
begin

text \<open>
  The event loop of server.cpp as a whole: every iteration returns, with no access to a freed
  object and no failed assertion, whatever the clients do with their connections, and what it does
  to the keys is a sequence of actions of the abstract service. The one thing assumed of the
  clients, besides requests within the specification of \<open>ServerProps\<close>, is that a connection is not
  closed while one of its keys has a deadline (see \<open>destroyed_owner_dangles\<close> in \<open>LoopProps\<close>).
\<close>

section \<open>States between iterations\<close>

definition good :: "nat \<Rightarrow> server \<Rightarrow> addr list \<Rightarrow> bool" where
  "good n sv xs \<longleftrightarrow> sv_inv sv xs \<and> homes sv \<and> store_inv n (sv_store sv)"

lemma good_mono: "good n sv xs \<Longrightarrow> n \<le> n' \<Longrightarrow> good n' sv xs"
  using store_inv_mono by (auto simp: good_def)

lemma good_db: "good n sv xs \<Longrightarrow> sv_conn sv a = Some c \<Longrightarrow> db_inv (sv_store sv) (c_db c)"
  using homes_db by (auto simp: good_def)

text \<open>Connections may come, with empty hashtables, and go, when none of their keys has a deadline.\<close>

lemma homes_conns:
  assumes "homes sv" "sv_store sv' = sv_store sv"
    and new: "\<And>q d. sv_conn sv' q = Some d \<Longrightarrow> (\<exists>d0. sv_conn sv q = Some d0 \<and> c_db d0 = c_db d) \<or> c_db d = empty_hmap"
    and gone: "\<And>q d. sv_conn sv q = Some d \<Longrightarrow>
      (\<exists>d'. sv_conn sv' q = Some d' \<and> c_db d' = c_db d) \<or> calm (view (sv_store sv) (c_db d))"
  shows "homes sv'"
proof -
  let ?s = "sv_store sv"
  have own: "owned ?s (c_db d) q" if "sv_conn sv q = Some d" for q d
    using assms(1) that by (simp add: homes_def)
  have "owned ?s (c_db d) q" if "sv_conn sv' q = Some d" for q d
    using own [of q] new [OF that] by (auto simp: owned_def objs_def)
  moreover have "armed_in ?s (sv_conn sv')"
    unfolding armed_in_def
  proof (intro allI impI)
    fix x
    assume x: "deadline (s_timers ?s) x \<noteq> None"
    then obtain q d where q: "sv_conn sv q = Some d" "x \<in> objs (c_db d)"
      using assms(1) by (auto simp: homes_def armed_in_def)
    then have "\<not> calm (view ?s (c_db d))"
      using calm_objs [of ?s "c_db d" x] own [OF q(1)] x by (auto simp: owned_def)
    then show "\<exists>q d. sv_conn sv' q = Some d \<and> x \<in> objs (c_db d)"
      using gone [OF q(1)] q(2) by metis
  qed
  moreover have "detached ?s (sv_conn sv')"
  proof (rule detached_same)
    show "detached ?s (sv_conn sv)"
      using assms(1) by (simp add: homes_def)
    show "(\<exists>d0. sv_conn sv q = Some d0 \<and> c_db d0 = c_db d) \<or> objs (c_db d) = {}" if "sv_conn sv' q = Some d" for q d
      using new [OF that] by (auto simp: objs_def)
  qed simp_all
  ultimately show ?thesis
    by (simp add: homes_def assms(2))
qed

lemma goodI:
  assumes "good n sv xs" "sv_inv sv' xs'" "sv_store sv' = sv_store sv"
    and "\<And>q d. sv_conn sv' q = Some d \<Longrightarrow> (\<exists>d0. sv_conn sv q = Some d0 \<and> c_db d0 = c_db d) \<or> c_db d = empty_hmap"
    and "\<And>q d. sv_conn sv q = Some d \<Longrightarrow>
      (\<exists>d'. sv_conn sv' q = Some d' \<and> c_db d' = c_db d) \<or> calm (view (sv_store sv) (c_db d))"
  shows "good n sv' xs'"
  using assms homes_conns [of sv sv'] unfolding good_def by simp

text \<open>A change inside one connection that keeps its hashtable.\<close>

lemma good_same:
  assumes "good n sv xs" "sv_inv sv' xs'" "sv_store sv' = sv_store sv" "sv_conn sv' = (sv_conn sv)(a \<mapsto> c')" "sv_conn sv a = Some c"
    "c_db c' = c_db c"
  shows "good n sv' xs'" "contents sv' = contents sv"
proof -
  show "good n sv' xs'"
    by (rule goodI [OF assms(1-3)]) (use assms(4-6) in \<open>auto split: if_splits\<close>)
  show "contents sv' = contents sv"
    by (rule contents_same_db [OF assms(5,6,4,3)])
qed

lemma server0_good: "\<exists>sv. server0 = Some sv \<and> good 0 sv [] \<and> contents sv = Map.empty"
proof -
  obtain sv where sv: "server0 = Some sv" "sv_inv sv []" "sv_store sv = empty_store"
    using server0_inv by blast
  have c: "sv_conn sv = Map.empty"
    using sv(2) unfolding sv_inv_def by (metis dom_eq_empty_conv list.set(1))
  have "deadline (s_timers empty_store) x = None" "s_jobs empty_store = []" for x
    by (auto intro: deadline_empty simp: empty_store_def)
  then have "homes sv"
    using c sv(3) by (simp add: homes_def armed_in_def detached_def)
  moreover have "contents sv = Map.empty"
    using c by (simp add: contents_def fun_eq_iff)
  ultimately show ?thesis
    using sv by (auto simp: good_def)
qed

section \<open>One event\<close>

text \<open>A read completes the requests \<open>cmds\<close>, all within the specification, and may end in a partial or a malformed message.\<close>

definition read_ok :: "(nat \<Rightarrow> u64) \<Rightarrow> read_result \<Rightarrow> conn \<Rightarrow> store \<Rightarrow> bytes list list \<Rightarrow> bool" where
  "read_ok clock rv c s cmds \<longleftrightarrow>
     (case rv of
        ReadBytes buf \<Rightarrow>
          if buf = [] then cmds = []
          else (\<exists>rest. c_incoming c @ buf = requests cmds @ rest \<and> stops rest) \<and> batch_ok clock 0 cmds (view s (c_db c))
      | _ \<Rightarrow> cmds = [])"

lemma handle_read_good:
  assumes "good n sv xs" "sv_conn sv a = Some c" "read_ok clock rv c (sv_store sv) cmds" "n + length cmds \<le> 30000"
  shows "\<exists>sv' c'. handle_read clock rv a sv = Some sv' \<and> sv_conn sv' a = Some c' \<and> good (n + length cmds) sv' xs
    \<and> contents sv' = (contents sv)(a \<mapsto> (batch_end clock 0 cmds (view (sv_store sv) (c_db c))))"
proof -
  have g: "sv_inv sv xs" "homes sv" "store_inv n (sv_store sv)"
    using assms(1) by (simp_all add: good_def)
  have idle: "(contents sv)(a \<mapsto> (batch_end clock 0 [] (view (sv_store sv) (c_db c)))) = contents sv"
    using assms(2) by (auto simp: contents_def fun_eq_iff)
  have close: ?thesis if "handle_read clock rv a sv = upd_conn a (\<lambda>c. c\<lparr>c_want_close := True\<rparr>) sv" "cmds = []"
  proof -
    let ?sv = "sv\<lparr>sv_conn := (sv_conn sv)(a \<mapsto> c\<lparr>c_want_close := True\<rparr>)\<rparr>"
    have r: "handle_read clock rv a sv = Some ?sv"
      using that assms(2) by (simp add: upd_conn_def)
    have "sv_inv ?sv xs"
      using handle_read_inv [OF g(1) r] assms(2) by simp
    note gs = good_same [OF assms(1) this, of a "c\<lparr>c_want_close := True\<rparr>" c]
    have "good n ?sv xs" "contents ?sv = contents sv"
      using gs assms(2) by simp_all
    then show ?thesis
      using r idle that(2) by simp
  qed
  show ?thesis
  proof (cases rv)
    case ReadErr
    then show ?thesis
      using assms(3) by (intro close) (simp_all add: handle_read_def read_ok_def)
  next
    case ReadAgain
    then show ?thesis
      using assms idle by (simp add: handle_read_def read_ok_def)
  next
    case (ReadBytes buf)
    show ?thesis
    proof (cases "buf = []")
      case True
      then show ?thesis
        using ReadBytes assms(3) by (intro close) (simp_all add: handle_read_def read_ok_def)
    next
      case False
      obtain rest where b: "c_incoming c @ buf = requests cmds @ rest" "stops rest" "batch_ok clock 0 cmds (view (sv_store sv) (c_db c))"
        using assms(3) False ReadBytes by (auto simp: read_ok_def)
      let ?c = "c\<lparr>c_incoming := c_incoming c @ buf\<rparr>"
      obtain s1 db1 rs where t: "try_requests clock 0 a ?c (sv_store sv) = try_requests clock (length cmds) a
          (?c\<lparr>c_outgoing := last_reply rs (c_outgoing c), c_db := db1, c_incoming := rest\<rparr>) s1"
        "store_inv (n + length cmds) s1"
        using try_requests_batch [of ?c cmds rest clock 0 "sv_store sv" n a] b(1,3) g(3) good_db [OF assms(1,2)] assms(4) by auto
      let ?c1 = "?c\<lparr>c_outgoing := last_reply rs (c_outgoing c), c_db := db1, c_incoming := rest\<rparr>"
      obtain c2 where "try_one_request (clock (length cmds)) a ?c1 s1 = Some (c2, s1, False)"
        using try_one_request_stops [of ?c1 "clock (length cmds)" a s1] b(2) by auto
      then have "try_requests clock 0 a ?c (sv_store sv) = Some (c2, s1)"
        unfolding t(1) by (subst try_requests.simps) simp
      then obtain c3 where r: "handle_read clock rv a sv = Some (sv\<lparr>sv_conn := (sv_conn sv)(a \<mapsto> c3), sv_store := s1\<rparr>)"
        using assms(2) False ReadBytes by (auto simp: handle_read_def buf_append_def Let_def)
      let ?sv = "sv\<lparr>sv_conn := (sv_conn sv)(a \<mapsto> c3), sv_store := s1\<rparr>"
      note h = handle_read_homes [OF r [unfolded ReadBytes] assms(2) b g(3,2) assms(4)]
      have "sv_inv ?sv xs"
        using handle_read_inv [OF g(1) r] assms(2) by simp
      then have "good (n + length cmds) ?sv xs"
        using t(2) h(1) by (simp add: good_def)
      then show ?thesis
        using r h(2) [OF False] by (intro exI [of _ ?sv] exI [of _ c3]) simp
    qed
  qed
qed

lemma destroy_good:
  assumes "good n sv (us @ a # vs)" "sv_conn sv a = Some c"
  shows "\<exists>sv'. conn_destroy a sv = Some sv' \<and> sv_conn sv' a = None
    \<and> (calm (view (sv_store sv) (c_db c)) \<longrightarrow> good n sv' (us @ vs) \<and> contents sv' = (contents sv)(a := None))"
proof -
  have "sv_inv sv (us @ a # vs)"
    using assms(1) by (simp add: good_def)
  then obtain sv' where d: "conn_destroy a sv = Some sv'" "sv_inv sv' (us @ vs)" "sv_store sv' = sv_store sv"
    "sv_conn sv' = (sv_conn sv)(a := None)"
    using conn_destroy_inv [OF _ assms(2)] by blast
  have "good n sv' (us @ vs)" if "calm (view (sv_store sv) (c_db c))"
    by (rule goodI [OF assms(1) d(2,3)]) (use that assms(2) d(4) in \<open>auto split: if_splits\<close>)
  moreover have "contents sv' = (contents sv)(a := None)"
    using d(3,4) by (auto simp: contents_def fun_eq_iff)
  ultimately show ?thesis
    using d(1,4) by simp
qed

text \<open>What one event may bring: a read as above, results of \<open>write\<close> that go on until the output is out or
  \<open>write\<close> stops, and, when the connection ends in it, no key with a deadline at the end.\<close>

definition event_ok :: "int \<Rightarrow> event \<Rightarrow> bytes list list \<Rightarrow> server \<Rightarrow> bool" where
  "event_ok fd ev cmds sv \<longleftrightarrow>
     (case fd_lookup fd sv of
        None \<Rightarrow> cmds = []
      | Some a \<Rightarrow> \<forall>c. sv_conn sv a = Some c \<longrightarrow>
          (if ev_in ev then read_ok (ev_clock ev) (ev_read ev) c (sv_store sv) cmds else cmds = [])
          \<and> (ev_out ev \<longrightarrow> (\<forall>sv1 sv2 c2. touch (ev_now ev) a sv = Some sv1 \<longrightarrow>
               (if ev_in ev then handle_read (ev_clock ev) (ev_read ev) a sv1 else Some sv1) = Some sv2 \<longrightarrow>
               sv_conn sv2 a = Some c2 \<longrightarrow> honest (ev_write ev) (length (c_outgoing c2))))
          \<and> (\<forall>sv'. handle_conn fd ev sv = Some sv' \<longrightarrow> sv_conn sv' a = None \<longrightarrow>
               calm (batch_end (ev_clock ev) 0 cmds (view (sv_store sv) (c_db c)))))"

lemma handle_conn_good:
  assumes "good n sv xs" "event_ok fd ev cmds sv" "n + length cmds \<le> 30000"
  shows "\<exists>sv' xs' as. handle_conn fd ev sv = Some sv' \<and> good (n + length cmds) sv' xs'
    \<and> commands as = cmds \<and> expiry_clocks as = [] \<and> acts as (contents sv) = Some (contents sv')"
proof (cases "fd_lookup fd sv")
  case None
  then have "handle_conn fd ev sv = Some sv" "cmds = []"
    using assms(2) by (auto simp: handle_conn_def event_ok_def)
  then show ?thesis
    using assms(1) None by (intro exI [of _ sv] exI [of _ xs] exI [of _ "[]"]) simp
next
  case a: (Some a)
  have i: "sv_inv sv xs"
    using assms(1) by (simp add: good_def)
  obtain c where c: "sv_conn sv a = Some c"
    using fd_lookup_conn [OF i a] by blast
  have ok: "if ev_in ev then read_ok (ev_clock ev) (ev_read ev) c (sv_store sv) cmds else cmds = []"
    "\<And>sv1 sv2 c2. ev_out ev \<Longrightarrow> touch (ev_now ev) a sv = Some sv1 \<Longrightarrow>
       (if ev_in ev then handle_read (ev_clock ev) (ev_read ev) a sv1 else Some sv1) = Some sv2 \<Longrightarrow>
       sv_conn sv2 a = Some c2 \<Longrightarrow> honest (ev_write ev) (length (c_outgoing c2))"
    "\<And>sv'. handle_conn fd ev sv = Some sv' \<Longrightarrow> sv_conn sv' a = None \<Longrightarrow>
       calm (batch_end (ev_clock ev) 0 cmds (view (sv_store sv) (c_db c)))"
    using assms(2) a c by (auto simp: event_ok_def)
  let ?f = "(batch_end (ev_clock ev) 0 cmds (view (sv_store sv) (c_db c)))"
  have A: "acts (batch_acts a (ev_clock ev) 0 cmds) (contents sv) = Some ((contents sv)(a \<mapsto> ?f))"
    by (rule batch_acts_run) (rule contents_simp [OF c])
  show ?thesis
  proof (cases "\<not> ev_in ev \<and> \<not> ev_out ev \<and> \<not> ev_err ev \<and> \<not> ev_other ev")
    case True
    then have "handle_conn fd ev sv = Some sv" "cmds = []"
      using ok(1) by (auto simp: handle_conn_def)
    then show ?thesis
      using assms(1) a by (intro exI [of _ sv] exI [of _ xs] exI [of _ "[]"]) simp
  next
    case False
    have "sv_conn sv a \<noteq> None"
      using c by simp
    then obtain us vs where xs: "xs = us @ a # vs"
      using sv_inv_split [OF i] by blast
    let ?c = "c\<lparr>c_last_active_ms := ev_now ev\<rparr>"
    obtain sv1 where s1: "touch (ev_now ev) a sv = Some sv1" "sv_inv sv1 (us @ vs @ [a])" "sv_store sv1 = sv_store sv"
      "sv_conn sv1 = (sv_conn sv)(a \<mapsto> ?c)"
      using touch_inv [OF i [unfolded xs] c, of "ev_now ev"] by blast
    have c1: "sv_conn sv1 a = Some ?c" "c_db ?c = c_db c"
      by (simp_all add: s1(4))
    note g1 = good_same [OF assms(1) s1(2-4) c c1(2)]
    have rd: "ev_in ev \<Longrightarrow> read_ok (ev_clock ev) (ev_read ev) ?c (sv_store sv1) cmds"
      using ok(1) s1(3) by (auto simp: read_ok_def split: read_result.splits if_splits)
    obtain sv2 c2 where s2: "(if ev_in ev then handle_read (ev_clock ev) (ev_read ev) a sv1 else Some sv1) = Some sv2" "sv_conn sv2 a = Some c2"
      "good (n + length cmds) sv2 (us @ vs @ [a])" "contents sv2 = (contents sv)(a \<mapsto> ?f)"
    proof (cases "ev_in ev")
      case True
      from handle_read_good [OF g1(1) c1(1) rd [OF True] assms(3)] show thesis
        using that True g1(2) s1(3) c1(2) by auto
    next
      case False
      then have "cmds = []"
        using ok(1) by simp
      then show thesis
        using that [of sv1 ?c] False g1 c1(1) contents_simp [OF c] by (simp add: fun_upd_idem)
    qed
    obtain sv3 c3 where s3: "(if ev_out ev then do { c \<leftarrow> sv_conn sv2 a; c \<leftarrow> handle_write (ev_write ev) c; Some (sv2\<lparr>sv_conn := (sv_conn sv2)(a \<mapsto> c)\<rparr>) }
        else Some sv2) = Some sv3" "sv_conn sv3 a = Some c3" "good (n + length cmds) sv3 (us @ vs @ [a])" "contents sv3 = (contents sv)(a \<mapsto> ?f)"
    proof (cases "ev_out ev")
      case True
      then have "honest (ev_write ev) (length (c_outgoing c2))"
        using ok(2) s1(1) s2(1,2) by blast
      then obtain c3 where w: "handle_write (ev_write ev) c2 = Some c3" "c_db c3 = c_db c2"
        using handle_write_sends by blast
      let ?sv = "sv2\<lparr>sv_conn := (sv_conn sv2)(a \<mapsto> c3)\<rparr>"
      have "sv_inv ?sv (us @ vs @ [a])"
        using sv_inv_upd [of sv2 _ a c2 c3 "sv_store sv2"] s2(2,3) handle_write_run [OF w(1)] by (simp add: good_def)
      then have "good (n + length cmds) ?sv (us @ vs @ [a])" "contents ?sv = contents sv2"
        using good_same [OF s2(3) _ _ _ s2(2) w(2), of ?sv] by simp_all
      then show thesis
        using that [of ?sv c3] True s2(2,4) w(1) by simp
    next
      case False
      then show thesis
        using that s2 by simp
    qed
    have fin: "handle_conn fd ev sv = (if ev_err ev \<or> c_want_close c3 then conn_destroy a sv3 else Some sv3)"
    proof -
      have nz: "(\<not> ev_in ev \<and> \<not> ev_out ev \<and> \<not> ev_err ev \<and> \<not> ev_other ev) = False"
        using False by blast
      show ?thesis
        by (simp only: handle_conn_def nz if_False a option.case s1(1) s2(1) s3(1,2) bind.bind_lunit)
    qed
    have "good (n + length cmds) sv3 ((us @ vs) @ a # [])"
      using s3(3) by simp
    from destroy_good [OF this s3(2)] obtain sv4 where s4: "conn_destroy a sv3 = Some sv4" "sv_conn sv4 a = None"
      "calm (view (sv_store sv3) (c_db c3)) \<Longrightarrow> good (n + length cmds) sv4 ((us @ vs) @ []) \<and> contents sv4 = (contents sv3)(a := None)"
      by blast
    have v: "view (sv_store sv3) (c_db c3) = ?f"
      using s3(4) contents_simp [OF s3(2)] by simp
    show ?thesis
    proof (cases "ev_err ev \<or> c_want_close c3")
      case True
      then have h: "handle_conn fd ev sv = Some sv4"
        using fin s4(1) by simp
      note s4(3) [unfolded v, OF ok(3) [OF h s4(2)]]
      moreover have "acts (batch_acts a (ev_clock ev) 0 cmds @ [Close a]) (contents sv) = Some ((contents sv3)(a := None))"
        using A by (simp add: s3(4))
      ultimately show ?thesis
        using h a by (intro exI [of _ sv4] exI [of _ "us @ vs"] exI [of _ "batch_acts a (ev_clock ev) 0 cmds @ [Close a]"])
          simp
    next
      case False
      then show ?thesis
        using fin s3(3,4) a A by (intro exI [of _ sv3] exI [of _ "us @ vs @ [a]"] exI [of _ "batch_acts a (ev_clock ev) 0 cmds"])
          simp
    qed
  qed
qed

section \<open>A job of the thread pool\<close>

text \<open>A worker runs a job that was queued. Which of the jobs comes next is left open: there are four workers.\<close>

definition worker_job :: "addr \<Rightarrow> store \<Rightarrow> store option" where
  "worker_job job s = do {
     guard (job \<in> set (s_jobs s));
     s \<leftarrow> entry_del_func job s;
     Some (s\<lparr>s_jobs := remove1 job (s_jobs s)\<rparr>)
   }"

lemma worker_job_good:
  assumes "homes sv" "store_inv n (sv_store sv)" "a \<in> set (s_jobs (sv_store sv))"
  shows "\<exists>s'. worker_job a (sv_store sv) = Some s' \<and> homes (sv\<lparr>sv_store := s'\<rparr>) \<and> store_inv n s'
    \<and> contents (sv\<lparr>sv_store := s'\<rparr>) = contents sv \<and> s_entry s' = (s_entry (sv_store sv))(a := None)
    \<and> s_jobs s' = remove1 a (s_jobs (sv_store sv))"
proof -
  let ?s = "sv_store sv"
  have own: "owned ?s (c_db d) q" if "sv_conn sv q = Some d" for q d
    using assms(1) that by (simp add: homes_def)
  have det: "distinct (s_jobs ?s)" "\<And>x. x \<in> set (s_jobs ?s) \<Longrightarrow> s_entry ?s x \<noteq> None"
    "\<And>x q d. x \<in> set (s_jobs ?s) \<Longrightarrow> sv_conn sv q = Some d \<Longrightarrow> x \<notin> objs (c_db d)"
    using assms(1) by (auto simp: homes_def detached_def)
  have arm: "armed_in ?s (sv_conn sv)"
    using assms(1) by (simp add: homes_def)
  have dl: "deadline (s_timers ?s) a = None"
    using arm det(3) [OF assms(3)] unfolding armed_in_def by blast
  obtain e where e: "s_entry ?s a = Some e"
    using det(2) [OF assms(3)] by blast
  obtain s1 where s1: "entry_del_sync a ?s = Some s1" "store_inv n s1" "keeps ?s s1 {a}" "s_entry s1 = (s_entry ?s)(a := None)"
    "s_jobs s1 = s_jobs ?s"
    using entry_del_sync_ok [OF assms(2) e dl] by blast
  let ?s1 = "s1\<lparr>s_jobs := remove1 a (s_jobs s1)\<rparr>"
  have run: "worker_job a ?s = Some ?s1"
    using assms(3) s1(1) by (simp add: worker_job_def entry_del_func_def)
  have "value_of ?s1 b = value_of s1 b" for b
    by (simp add: value_of_def split: option.split)
  then have k: "keeps ?s ?s1 {a}"
    using s1(3) by (simp add: keeps_def item_def ekey_def)
  have inv: "store_inv n ?s1"
    using s1(2) by (simp add: store_inv_def)
  have keep: "owned ?s1 (c_db d) q" "view ?s1 (c_db d) = view ?s (c_db d)" if "sv_conn sv q = Some d" for q d
    using owned_keep [OF own [OF that] k det(3) [OF assms(3) that]] s1(4) by simp_all
  have "armed_in ?s1 (sv_conn sv)"
    unfolding armed_in_def
  proof (intro allI impI)
    fix x
    assume x: "deadline (s_timers ?s1) x \<noteq> None"
    have "snd (s_timers s1) a = None"
      using s1(2,4) unfolding store_inv_def by (metis domIff fun_upd_same)
    then have "x \<noteq> a"
      using x by (auto simp: deadline_def split_beta)
    then have "deadline (s_timers ?s) x \<noteq> None"
      using x k by (auto simp: keeps_def item_def)
    then show "\<exists>q d. sv_conn sv q = Some d \<and> x \<in> objs (c_db d)"
      using arm by (simp add: armed_in_def)
  qed
  moreover have "detached ?s1 (sv_conn sv)"
    using det s1(4,5) by (simp add: detached_def)
  ultimately have "homes (sv\<lparr>sv_store := ?s1\<rparr>)"
    using keep(1) by (simp add: homes_def)
  moreover have "contents (sv\<lparr>sv_store := ?s1\<rparr>) q = contents sv q" for q
    using keep(2) by (cases "sv_conn sv q") (simp_all add: contents_def)
  ultimately show ?thesis
    using run inv s1(4,5) by (intro exI [of _ ?s1]) (simp add: fun_eq_iff)
qed

section \<open>One iteration\<close>

text \<open>The descriptors polled with their events and the requests these complete, each in the state it is handled in.\<close>

fun events_ok :: "(int \<times> event \<times> bytes list list) list \<Rightarrow> server \<Rightarrow> bool" where
  "events_ok [] sv \<longleftrightarrow> True"
| "events_ok ((fd, ev, cmds) # es) sv \<longleftrightarrow>
     event_ok fd ev cmds sv \<and> (\<forall>sv'. handle_conn fd ev sv = Some sv' \<longrightarrow> events_ok es sv')"

definition work :: "(int \<times> event \<times> bytes list list) list \<Rightarrow> nat" where
  "work es = sum_list (map (\<lambda>(fd, ev, cmds). length cmds) es)"

lemma handle_conns_good:
  "good n sv xs \<Longrightarrow> events_ok es sv \<Longrightarrow> n + work es \<le> 30000 \<Longrightarrow>
    \<exists>sv' xs' as. handle_conns (map (\<lambda>(fd, ev, cmds). (fd, ev)) es) sv = Some sv' \<and> good (n + work es) sv' xs'
      \<and> acts as (contents sv) = Some (contents sv') \<and> commands as = concat (map (\<lambda>(fd, ev, cmds). cmds) es) \<and> expiry_clocks as = []"
proof (induction es sv arbitrary: n xs rule: events_ok.induct)
  case (2 fd ev cmds es sv)
  have len: "n + length cmds \<le> 30000" "n + length cmds + work es \<le> 30000"
    using "2.prems"(3) by (simp_all add: work_def)
  have ev: "event_ok fd ev cmds sv"
    using "2.prems"(2) by simp
  obtain sv1 xs1 as1 where s1: "handle_conn fd ev sv = Some sv1" "good (n + length cmds) sv1 xs1"
    "commands as1 = cmds" "expiry_clocks as1 = []" "acts as1 (contents sv) = Some (contents sv1)"
    using handle_conn_good [OF "2.prems"(1) ev len(1)] by blast
  have "events_ok es sv1"
    using "2.prems"(2) s1(1) by simp
  from "2.IH" [OF s1(1) s1(2) this len(2)] obtain sv' xs' as2 where
    "handle_conns (map (\<lambda>(fd, ev, cmds). (fd, ev)) es) sv1 = Some sv'" "good (n + length cmds + work es) sv' xs'"
    "acts as2 (contents sv1) = Some (contents sv')" "commands as2 = concat (map (\<lambda>(fd, ev, cmds). cmds) es)" "expiry_clocks as2 = []"
    by blast
  then show ?case
    using s1 by (intro exI [of _ sv'] exI [of _ xs'] exI [of _ "as1 @ as2"]) (simp add: work_def add.assoc)
next
  case (1 sv)
  then show ?case
    by (intro exI [of _ sv] exI [of _ xs] exI [of _ "[]"]) (simp add: work_def)
qed

lemma accept_good:
  assumes "good n sv xs" "\<And>t fd. acc = Some (t, fd) \<Longrightarrow> 0 \<le> fd \<Longrightarrow> fd_lookup fd sv = None"
  shows "\<exists>sv' xs' as. accept_conn acc sv = Some sv' \<and> good n sv' xs'
    \<and> acts as (contents sv) = Some (contents sv') \<and> commands as = [] \<and> expiry_clocks as = []"
proof (cases "\<exists>now fd. acc = Some (now, fd) \<and> 0 \<le> fd")
  case False
  then have "accept_conn acc sv = Some sv"
    by (auto simp: accept_conn_def handle_accept_def split: option.splits)
  then show ?thesis
    using assms(1) by (intro exI [of _ sv] exI [of _ xs] exI [of _ "[]"]) simp
next
  case True
  then obtain now fd where acc: "acc = Some (now, fd)" "0 \<le> fd"
    by blast
  have i: "sv_inv sv xs"
    using assms(1) by (simp add: good_def)
  obtain sv1 c where s1: "handle_accept now fd sv = Some (sv1, Some (sv_next sv))" "sv_store sv1 = sv_store sv"
    "sv_conn sv1 = (sv_conn sv)(sv_next sv \<mapsto> c)" "c_db c = empty_hmap"
    using handle_accept_inv [OF i acc(2), of now] by blast
  obtain sv2 where s2: "accept_conn acc sv = Some sv2" "sv_store sv2 = sv_store sv" "sv_conn sv2 = sv_conn sv1"
    using acc s1 by (auto simp: accept_conn_def Let_def)
  obtain xs2 where x: "sv_inv sv2 xs2"
    using accept_conn_inv [OF i s2(1)] assms(2) by blast
  have new: "sv_conn sv (sv_next sv) = None"
    using i by (auto simp: sv_inv_def)
  have "good n sv2 xs2"
    by (rule goodI [OF assms(1) x s2(2)]) (use new s1(3,4) s2(3) in \<open>auto split: if_splits\<close>)
  moreover have "acts [Connect (sv_next sv)] (contents sv) = Some (contents sv2)"
    using new s1(3,4) s2(2,3) by (auto simp: contents_def fun_eq_iff)
  ultimately show ?thesis
    using s2(1) by (intro exI [of _ sv2] exI [of _ xs2] exI [of _ "[Connect (sv_next sv)]"]) simp
qed

text \<open>The connections that \<open>process_timers\<close> closes for being idle have no key with a deadline.\<close>

definition idle_calm :: "u64 \<Rightarrow> server \<Rightarrow> bool" where
  "idle_calm now sv \<longleftrightarrow> (\<forall>a c. idle_expired now sv a \<longrightarrow> sv_conn sv a = Some c \<longrightarrow> calm (view (sv_store sv) (c_db c)))"

lemma close_acts:
  "distinct ys \<Longrightarrow> set ys \<subseteq> dom A \<Longrightarrow> acts (map Close ys) A = Some (A |` (- set ys)) \<and> commands (map Close ys) = [] \<and> expiry_clocks (map Close ys) = []"
proof (induction ys arbitrary: A)
  case (Cons y ys)
  have "acts (map Close ys) (A(y := None)) = Some (A(y := None) |` (- set ys)) \<and> commands (map Close ys) = []
      \<and> expiry_clocks (map Close ys) = []"
    by (rule Cons.IH) (use Cons.prems in auto)
  moreover have "A(y := None) |` (- set ys) = A |` (- set (y # ys))"
    by (auto simp: restrict_map_def fun_eq_iff)
  moreover have "act (Close y) A = Some (A(y := None))"
    using Cons.prems by auto
  ultimately show ?case
    by (simp only: list.map acts.simps simp_thms bind.bind_lunit commands.simps expiry_clocks.simps)
qed (simp add: restrict_map_def)

lemma timers_good:
  assumes "good n sv xs" "idle_calm now sv" "n \<le> 30000"
  shows "\<exists>sv' xs' as. process_timers now sv = Some sv' \<and> good n sv' xs'
    \<and> acts as (contents sv) = Some (contents sv') \<and> commands as = [] \<and> set (expiry_clocks as) \<subseteq> {now}"
proof -
  have i: "sv_inv sv xs"
    using assms(1) by (simp add: good_def)
  let ?ys = "takeWhile (idle_expired now sv) xs"
  obtain sv1 xs1 where s: "idle_loop now sv = Some sv1" "sv_inv sv1 xs1" "sv_store sv1 = sv_store sv"
    "sv_conn sv1 = sv_conn sv |` (- set ?ys)"
    using idle_loop_run [OF i, of now] by blast
  have g: "good n sv1 xs1"
  proof (rule goodI [OF assms(1) s(2,3)])
    show "(\<exists>d0. sv_conn sv q = Some d0 \<and> c_db d0 = c_db d) \<or> c_db d = empty_hmap" if "sv_conn sv1 q = Some d" for q d
      using that by (auto simp: s(4) restrict_map_def split: if_splits)
    show "(\<exists>d'. sv_conn sv1 q = Some d' \<and> c_db d' = c_db d) \<or> calm (view (sv_store sv) (c_db d))" if "sv_conn sv q = Some d" for q d
      using that assms(2) set_takeWhileD [of q "idle_expired now sv" xs]
      by (cases "q \<in> set ?ys") (auto simp: s(4) idle_calm_def)
  qed
  have "set ?ys \<subseteq> dom (contents sv)"
    using i by (auto simp: sv_inv_def contents_def dest: set_takeWhileD)
  moreover have "distinct ?ys"
    using sv_inv_distinct [OF i] by simp
  moreover have "contents sv1 = contents sv |` (- set ?ys)"
    by (rule ext) (simp add: contents_def s(3,4) restrict_map_def)
  ultimately have closes: "acts (map Close ?ys) (contents sv) = Some (contents sv1)" "commands (map Close ?ys) = []"
    "expiry_clocks (map Close ?ys) = []"
    using close_acts by simp_all
  have "n + 1 < npos"
    using assms(3) by (simp add: npos_def)
  then obtain sv' as where l: "ttl_loop now 0 sv1 = Some sv'" "store_inv n (sv_store sv')" "homes sv'"
    "acts as (contents sv1) = Some (contents sv')" "commands as = []" "set (expiry_clocks as) \<subseteq> {now}"
    using ttl_loop_acts [of n sv1 now 0] g by (auto simp: good_def)
  have "good n sv' xs1"
    using l(2,3) ttl_loop_inv [OF l(1) s(2)] by (simp add: good_def)
  then show ?thesis
    using s(1) l closes by (intro exI [of _ sv'] exI [of _ xs1] exI [of _ "map Close ?ys @ as"]) (simp add: process_timers_def)
qed

lemma poll_args_run:
  "(\<And>a. Some a \<in> set ps \<Longrightarrow> conns a \<noteq> None) \<Longrightarrow> \<exists>args. poll_args conns ps = Some args"
proof (induction conns ps rule: poll_args.induct)
  case (3 conns a ps)
  obtain c where c: "conns a = Some c"
    using 3(2) [of a] by auto
  have "\<exists>args. poll_args conns ps = Some args"
    by (rule 3(1) [OF c]) (use 3(2) in auto)
  then show ?case
    using c by auto
qed auto

lemma poll_args_good:
  assumes "good n sv xs"
  shows "\<exists>args. poll_args (sv_conn sv) (sv_fd2conn sv) = Some args"
proof (rule poll_args_run)
  fix a
  assume "Some a \<in> set (sv_fd2conn sv)"
  then obtain i where "i < length (sv_fd2conn sv)" "sv_fd2conn sv ! i = Some a"
    by (auto simp: in_set_conv_nth)
  moreover have "fds_ok sv"
    using assms by (simp add: good_def sv_inv_def)
  ultimately show "sv_conn sv a \<noteq> None"
    unfolding fds_ok_def by fastforce
qed

lemma next_timer_good:
  assumes "good n sv xs"
  shows "\<exists>t. next_timer_ms now sv = Some t"
proof -
  have r: "ring (sv_idle sv) idle_list xs" and d: "set xs = dom (sv_conn sv)"
    using assms by (auto simp: good_def sv_inv_def)
  show ?thesis
  proof (cases xs)
    case Nil
    then show ?thesis
      using dlist_empty_ring [OF r] by (simp add: next_timer_ms_def Let_def)
  next
    case (Cons a ys)
    then obtain c where "sv_conn sv a = Some c"
      using d by auto
    then show ?thesis
      using dlist_empty_ring [OF r] ring_first [OF r [unfolded Cons]] Cons by (simp add: next_timer_ms_def Let_def)
  qed
qed

text \<open>
  What \<open>poll\<close> and the calls after it may answer in the state \<open>sv\<close>, with an event for every descriptor polled;
  \<open>cmdss\<close> are the requests that each event completes.
\<close>

definition orderly :: "u64 \<Rightarrow> (u64 \<times> int) option \<Rightarrow> event list \<Rightarrow> bytes list list list \<Rightarrow> server \<Rightarrow> bool" where
  "orderly tnow acc evs cmdss sv \<longleftrightarrow> fresh_fd (PollReady acc evs) sv \<and> length cmdss = length evs \<and>
     (\<forall>args sv1. poll_args (sv_conn sv) (sv_fd2conn sv) = Some args \<longrightarrow> accept_conn acc sv = Some sv1 \<longrightarrow>
        length evs = length args \<and> events_ok (zip (map p_fd args) (zip evs cmdss)) sv1 \<and>
        (\<forall>sv2. handle_conns (zip (map p_fd args) evs) sv1 = Some sv2 \<longrightarrow> idle_calm tnow sv2))"

lemma zip_events: "length cmdss = length evs \<Longrightarrow> map (\<lambda>(fd, ev, cmds). (fd, ev)) (zip fds (zip evs cmdss)) = zip fds evs"
proof (induction fds arbitrary: evs cmdss)
  case (Cons fd fds)
  then show ?case
    by (cases evs; cases cmdss) auto
qed simp

lemma zip_work:
  "length fds = length evs \<Longrightarrow> length cmdss = length evs \<Longrightarrow> work (zip fds (zip evs cmdss)) = sum_list (map length cmdss)
    \<and> concat (map (\<lambda>(fd, ev, cmds). cmds) (zip fds (zip evs cmdss))) = concat cmdss"
proof (induction fds evs arbitrary: cmdss rule: list_induct2)
  case (Cons fd fds ev evs)
  then show ?case
    by (cases cmdss) (simp_all add: work_def)
qed (simp add: work_def)

lemma loop_once_good:
  assumes "good n sv xs" "orderly tnow acc evs cmdss sv" "n + sum_list (map length cmdss) \<le> 30000"
  shows "\<exists>t sv' xs' as. loop_once now (PollReady acc evs) tnow sv = Some (t, sv') \<and> good (n + sum_list (map length cmdss)) sv' xs'
    \<and> acts as (contents sv) = Some (contents sv') \<and> commands as = concat cmdss \<and> set (expiry_clocks as) \<subseteq> {tnow}"
proof -
  obtain args where args: "poll_args (sv_conn sv) (sv_fd2conn sv) = Some args"
    using poll_args_good [OF assms(1)] by blast
  obtain t where t: "next_timer_ms now sv = Some t"
    using next_timer_good [OF assms(1)] by blast
  have fresh: "fd_lookup fd sv = None" if "acc = Some (u, fd)" "0 \<le> fd" for u fd
    using assms(2) that by (simp add: orderly_def fresh_fd_def)
  obtain sv1 xs1 as1 where s1: "accept_conn acc sv = Some sv1" "good n sv1 xs1"
    "acts as1 (contents sv) = Some (contents sv1)" "commands as1 = []" "expiry_clocks as1 = []"
    using accept_good [OF assms(1)] fresh by blast
  let ?es = "zip (map p_fd args) (zip evs cmdss)"
  have ok: "events_ok ?es sv1" and len: "length cmdss = length evs" "length (map p_fd args) = length evs"
    and calm: "\<And>sv2. handle_conns (zip (map p_fd args) evs) sv1 = Some sv2 \<Longrightarrow> idle_calm tnow sv2"
    using assms(2) args s1(1) by (simp_all add: orderly_def)
  note w = zip_work [OF len(2,1)]
  have le: "n + work ?es \<le> 30000"
    using assms(3) w by simp
  obtain sv2 xs2 as2 where s2: "handle_conns (zip (map p_fd args) evs) sv1 = Some sv2" "good (n + work ?es) sv2 xs2"
    "acts as2 (contents sv1) = Some (contents sv2)" "commands as2 = concat cmdss" "expiry_clocks as2 = []"
    using handle_conns_good [OF s1(2) ok le] w unfolding zip_events [OF len(1)] by auto
  obtain sv3 xs3 as3 where s3: "process_timers tnow sv2 = Some sv3" "good (n + work ?es) sv3 xs3"
    "acts as3 (contents sv2) = Some (contents sv3)" "commands as3 = []" "set (expiry_clocks as3) \<subseteq> {tnow}"
    using timers_good [OF s2(2) calm [OF s2(1)] le] by blast
  have "loop_once now (PollReady acc evs) tnow sv = Some (sint t, sv3)"
    using args t s1(1) s2(1) s3(1) by (simp add: loop_once_def)
  then show ?thesis
    using s1 s2 s3 w by (intro exI [of _ "sint t"] exI [of _ sv3] exI [of _ xs3] exI [of _ "as1 @ as2 @ as3"]) simp
qed

text \<open>The states that orderly iterations and the jobs of the thread pool get to, with the number of requests so far.\<close>

inductive orderly_reach :: "nat \<Rightarrow> server \<Rightarrow> bool" where
  boot: "server0 = Some sv \<Longrightarrow> orderly_reach 0 sv"
| interrupted: "orderly_reach n sv \<Longrightarrow> loop_once now PollIntr tnow sv = Some (t, sv') \<Longrightarrow> orderly_reach n sv'"
| served: "orderly_reach n sv \<Longrightarrow> orderly tnow acc evs cmdss sv \<Longrightarrow> n + sum_list (map length cmdss) \<le> 30000 \<Longrightarrow>
    loop_once now (PollReady acc evs) tnow sv = Some (t, sv') \<Longrightarrow> orderly_reach (n + sum_list (map length cmdss)) sv'"
| freed: "orderly_reach n sv \<Longrightarrow> worker_job a (sv_store sv) = Some s \<Longrightarrow> orderly_reach n (sv\<lparr>sv_store := s\<rparr>)"

lemma orderly_reach_good: "orderly_reach n sv \<Longrightarrow> \<exists>xs. good n sv xs"
proof (induction rule: orderly_reach.induct)
  case (boot sv)
  then show ?case
    using server0_good by (metis option.inject)
next
  case (interrupted n sv now tnow t sv')
  then show ?case
    by (auto simp: loop_once_def split: bind_splits)
next
  case (served n sv tnow acc evs cmdss now t sv')
  then obtain xs where "good n sv xs"
    by blast
  from loop_once_good [OF this served(2,3), of now] show ?case
    using served(4) by auto
next
  case (freed n sv a s)
  then obtain xs where g: "good n sv xs"
    by blast
  have "a \<in> set (s_jobs (sv_store sv))"
    using freed(2) by (auto simp: worker_job_def split: bind_splits)
  then show ?case
    using worker_job_good [of sv n a] freed(2) g sv_inv_store [where sv = sv and s = s and xs = xs] by (auto simp: good_def)
qed

section \<open>Properties\<close>

text \<open>C4: The server never gets stuck: from every state reached by iterations of the event loop in which the requests are
  within the specification and no connection ends while one of its keys has a deadline, the next such iteration
  returns again, through any mixture of new connections, expiring keys, jobs of the thread pool, partial and
  malformed messages, partial writes, errors, closed and timed-out connections: it dereferences no freed
  connection, entry or node, and no assertion fails.\<close>

theorem loop_never_stuck:
  assumes "orderly_reach n sv" "orderly tnow acc evs cmdss sv" "n + sum_list (map length cmdss) \<le> 30000"
  shows "\<exists>t sv'. loop_once now (PollReady acc evs) tnow sv = Some (t, sv') \<and> orderly_reach (n + sum_list (map length cmdss)) sv'"
proof -
  obtain xs where "good n sv xs"
    using orderly_reach_good [OF assms(1)] by blast
  from loop_once_good [OF this assms(2,3), of now] show ?thesis
    using orderly_reach.served [OF assms] by blast
qed

definition conn5 :: conn where
  "conn5 = \<lparr>c_fd = 5, c_want_read = True, c_want_write = False, c_want_close = False, c_incoming = [],
     c_outgoing = [], c_last_active_ms = 0, c_db = empty_hmap\<rparr>"

lemma boot_accept:
  "\<exists>sv t sv'. server0 = Some sv \<and> fd_lookup 5 sv = None \<and> sv_fd2conn sv = [] \<and> loop_once 0 (PollReady (Some (0, 5)) []) 0 sv = Some (t, sv') \<and>
    sv_fd2conn sv' = [None, None, None, None, None, Some 1] \<and> sv_store sv' = empty_store \<and> sv_conn sv' = [1 \<mapsto> conn5]"
  by (simp add: conn5_def fd_lookup_def server0_def loop_once_def accept_conn_def handle_accept_def Let_def dlist_init_def dlist_insert_before_def
      process_timers_def idle_loop.simps ttl_loop.simps dlist_empty_def d_simps next_timer_ms_def idle_list_def
      empty_store_def eval_nat_numeral)

definition read_event :: "bytes \<Rightarrow> event" where
  "read_event buf = \<lparr>ev_in = True, ev_out = False, ev_err = False, ev_other = False, ev_now = 0, ev_clock = (\<lambda>_. 0),
     ev_read = ReadBytes buf, ev_write = []\<rparr>"

lemma idle_calm_0: "idle_calm 0 sv"
  by (simp add: idle_calm_def idle_expired_def)

text \<open>In the first iteration a client connects.\<close>

lemma connected:
  "\<exists>sv t sv1. server0 = Some sv \<and> loop_once 0 (PollReady (Some (0, 5)) []) 0 sv = Some (t, sv1) \<and> orderly_reach 0 sv1
    \<and> sv_fd2conn sv1 = [None, None, None, None, None, Some 1] \<and> sv_store sv1 = empty_store \<and> sv_conn sv1 = [1 \<mapsto> conn5]"
proof -
  obtain sv t sv1 where sv: "server0 = Some sv" "fd_lookup 5 sv = None" "sv_fd2conn sv = []"
    "loop_once 0 (PollReady (Some (0, 5)) []) 0 sv = Some (t, sv1)"
    "sv_fd2conn sv1 = [None, None, None, None, None, Some 1]" "sv_store sv1 = empty_store" "sv_conn sv1 = [1 \<mapsto> conn5]"
    using boot_accept by blast
  have "orderly 0 (Some (0, 5)) [] [] sv"
    using sv(2,3) idle_calm_0 by (simp add: orderly_def fresh_fd_def)
  from orderly_reach.served [OF orderly_reach.boot [OF sv(1)] this _ sv(4)]
  have "orderly_reach 0 sv1"
    by simp
  then show ?thesis
    using sv by blast
qed

text \<open>In the second one a SET and a GET arrive in one read, with the head of a third request.\<close>

lemma set_get_orderly:
  assumes "sv_fd2conn sv = [None, None, None, None, None, Some 1]" "sv_store sv = empty_store" "sv_conn sv = [1 \<mapsto> conn5]"
  shows "orderly 0 None [read_event (requests set_get @ [1, 0])] [set_get] sv"
proof -
  let ?ev = "read_event (requests set_get @ [1, 0])"
  have st: "stops [1, 0]"
    by (simp add: stops_def partial_msg_def)
  have "calm (batch_end (\<lambda>_. 0) 0 set_get Map.empty)"
    by (simp add: set_get_def is_cmd_def lit_def effect_def spec_def spec_set_def spec_get_def calm_def)
  moreover have "requests set_get @ [1, 0] \<noteq> []"
    by simp
  ultimately have "event_ok 5 ?ev set_get sv"
    using st set_get_ok by (auto simp: event_ok_def read_ok_def read_event_def fd_lookup_def assms conn5_def eval_nat_numeral)
  then show ?thesis
    using assms idle_calm_0 by (simp add: orderly_def fresh_fd_def accept_conn_def conn5_def)
qed

lemma loop_never_stuck_witness:
  "\<exists>sv t1 sv1 t2 sv2. server0 = Some sv \<and> loop_once 0 (PollReady (Some (0, 5)) []) 0 sv = Some (t1, sv1)
    \<and> loop_once 0 (PollReady None [read_event (requests set_get @ [1, 0])]) 0 sv1 = Some (t2, sv2) \<and> orderly_reach 2 sv2"
proof -
  obtain sv t sv1 where sv: "server0 = Some sv" "loop_once 0 (PollReady (Some (0, 5)) []) 0 sv = Some (t, sv1)" "orderly_reach 0 sv1"
    and o': "orderly 0 None [read_event (requests set_get @ [1, 0])] [set_get] sv1"
    using connected set_get_orderly by blast
  from loop_never_stuck [OF sv(3) o', of 0] show ?thesis
    using sv(1,2) set_get_size by (simp add: numeral_2_eq_2) blast
qed

text \<open>C6: The server refines the service: what an orderly iteration does to the keys of the connections is a sequence of actions
  of the abstract service, in which the requests are exactly the ones received, in the order of the events,
  and every expiry removes a key whose deadline lies before the clock of the timers.\<close>

theorem loop_refines_service:
  assumes "orderly_reach n sv" "orderly tnow acc evs cmdss sv" "n + sum_list (map length cmdss) \<le> 30000"
    and "loop_once now (PollReady acc evs) tnow sv = Some (t, sv')"
  shows "\<exists>xs. acts xs (contents sv) = Some (contents sv') \<and> commands xs = concat cmdss \<and> set (expiry_clocks xs) \<subseteq> {tnow}"
proof -
  obtain xs where "good n sv xs"
    using orderly_reach_good [OF assms(1)] by blast
  from loop_once_good [OF this assms(2,3), of now] show ?thesis
    using assms(4) by auto
qed

lemma loop_refines_service_witness:
  "\<exists>sv t sv' xs. orderly_reach 0 sv \<and> loop_once 0 (PollReady None [read_event (requests set_get @ [1, 0])]) 0 sv = Some (t, sv')
    \<and> acts xs [1 \<mapsto> Map.empty] = Some (contents sv') \<and> commands xs = set_get"
proof -
  obtain sv where sv: "orderly_reach 0 sv" "sv_fd2conn sv = [None, None, None, None, None, Some 1]" "sv_store sv = empty_store"
    "sv_conn sv = [1 \<mapsto> conn5]"
    using connected by blast
  note o' = set_get_orderly [OF sv(2-4)]
  have "contents sv = [1 \<mapsto> Map.empty]"
    using sv(3,4) by (auto simp: contents_def conn5_def fun_eq_iff)
  moreover obtain xs0 where g: "good 0 sv xs0"
    using orderly_reach_good [OF sv(1)] by blast
  obtain t sv' where r: "loop_once 0 (PollReady None [read_event (requests set_get @ [1, 0])]) 0 sv = Some (t, sv')"
    using loop_once_good [OF g o', of 0] set_get_size by auto
  ultimately show ?thesis
    using loop_refines_service [OF sv(1) o' _ r] set_get_size sv(1) by auto
qed

text \<open>C18: A job of the thread pool can run at any time: a worker that frees an entry queued by DEL or by an expiry returns, frees
  exactly that entry, and no connection sees a difference in its keys, values and deadlines. The timers hold
  nothing of it, and the links between entries and connections stay as they have to be.\<close>

theorem worker_job_invisible:
  assumes "homes sv" "store_inv n (sv_store sv)" "a \<in> set (s_jobs (sv_store sv))"
  shows "\<exists>s'. worker_job a (sv_store sv) = Some s' \<and> homes (sv\<lparr>sv_store := s'\<rparr>) \<and> store_inv n s'
    \<and> contents (sv\<lparr>sv_store := s'\<rparr>) = contents sv \<and> s_entry s' = (s_entry (sv_store sv))(a := None)
    \<and> s_jobs s' = remove1 a (s_jobs (sv_store sv))"
  by (rule worker_job_good [OF assms])

text \<open>A server without connections whose thread pool still holds a sorted set \<open>{a: 1}\<close>.\<close>

lemma worker_job_invisible_witness:
  "\<exists>sv s'. s_jobs (sv_store sv) = [0] \<and> worker_job 0 (sv_store sv) = Some s' \<and> s_entry s' = Map.empty \<and> s_jobs s' = []
    \<and> contents sv = Map.empty \<and> contents (sv\<lparr>sv_store := s'\<rparr>) = Map.empty"
proof -
  obtain m zs t where z: "zset_insert zmem0 empty_zset [97] 1 = Some (m, zs, True)" "zset_inv m zs t" "unused m" "size t = 1" "hle 4 t"
    using one_member by blast
  let ?s = "(one_set m zs)\<lparr>s_jobs := [0]\<rparr>"
  have "budget 1 m zs t"
    using z by (simp add: budget_def)
  then have inv: "store_inv 1 ?s"
    using z(3) by (auto simp: store_inv_def one_set_def entry_ok_def timers_ok_def heap_ord_def idx_ok_def npos_def blank_entry_def)
  obtain sv0 where sv0: "server0 = Some sv0" "contents sv0 = Map.empty"
    using server0_good by blast
  let ?sv = "sv0\<lparr>sv_store := ?s\<rparr>"
  have c: "sv_conn ?sv = Map.empty"
    using sv0(2) contents_dom [of sv0] by (auto simp: fun_eq_iff)
  have "deadline (s_timers ?s) x = None" for x
    by (rule deadline_empty) (simp add: one_set_def)
  then have h: "homes ?sv"
    using c by (simp add: homes_def armed_in_def detached_def one_set_def)
  have j: "0 \<in> set (s_jobs (sv_store ?sv))"
    by simp
  have "contents ?sv = Map.empty"
    using c by (simp add: contents_def fun_eq_iff)
  moreover have "(s_entry ?s)(0 := None) = Map.empty"
    by (simp add: one_set_def fun_eq_iff)
  ultimately show ?thesis
    using worker_job_invisible [OF h _ j] inv by (intro exI [of _ ?sv]) auto
qed

end
