(* ===== verification/ServerMain.thy ===== *)
theory ServerMain
  imports Process Safety
begin

text \<open>
  \<open>main\<close> of server.cpp as a whole: the start, and rounds of the event loop until a call of the system
  fails that the server does not survive.
\<close>

section \<open>Rounds\<close>

text \<open>
  One round with the answers of the system in it: a failing \<open>poll\<close>, or the clock, the results of \<open>fcntl\<close> for an
  accepted socket, what \<open>poll\<close> and the calls after it give, and the clock of the timers.
\<close>

datatype round = PollFailed u64 | Round u64 "call \<Rightarrow> int" poll_result u64

text \<open>\<open>handle_accept\<close> makes the new socket non-blocking before there is a connection for it.\<close>

definition accept_nb :: "(call \<Rightarrow> int) \<Rightarrow> poll_result \<Rightarrow> unit outcome" where
  "accept_nb os polled =
     (case polled of
        PollReady (Some (now, connfd)) evs \<Rightarrow> if connfd < 0 then Went () else fst (run_state (fd_set_nb os connfd) [])
      | _ \<Rightarrow> Went ())"

definition main_round :: "round \<Rightarrow> server \<Rightarrow> server outcome option" where
  "main_round r sv =
     (case r of
        PollFailed now \<Rightarrow> do {
          args \<leftarrow> poll_args (sv_conn sv) (sv_fd2conn sv);
          timeout_ms \<leftarrow> next_timer_ms now sv;
          Some (Died ''poll() failed'')
        }
      | Round now os polled timers_now \<Rightarrow>
          (case accept_nb os polled of
             Died msg \<Rightarrow> do {
               args \<leftarrow> poll_args (sv_conn sv) (sv_fd2conn sv);
               timeout_ms \<leftarrow> next_timer_ms now sv;
               Some (Died msg)
             }
           | Went _ \<Rightarrow> do {
               (timeout_ms, sv) \<leftarrow> loop_once now polled timers_now sv;
               Some (Went sv)
             }))"

fun main_loop :: "round list \<Rightarrow> server \<Rightarrow> server outcome option" where
  "main_loop [] sv = Some (Went sv)"
| "main_loop (r # rs) sv = do {
     x \<leftarrow> main_round r sv;
     (case x of
        Died msg \<Rightarrow> Some (Died msg)
      | Went sv \<Rightarrow> main_loop rs sv)
   }"

definition server_main :: "(call \<Rightarrow> int) \<Rightarrow> round list \<Rightarrow> server outcome option" where
  "server_main os rounds = do {
     (r, calls) \<leftarrow> server_start os;
     (case r of
        Died msg \<Rightarrow> Some (Died msg)
      | Went (fd, sv, pool) \<Rightarrow> main_loop rounds sv)
   }"

section \<open>Which call ends the server\<close>

text \<open>The message of the first of some calls that is checked and fails.\<close>

definition failing :: "(call \<Rightarrow> int) \<Rightarrow> call list \<Rightarrow> string option" where
  "failing os cs = map_option (\<lambda>c. the (start_error c)) (find (\<lambda>c. start_error c \<noteq> None \<and> os c < 0) cs)"

text \<open>What a round calls for a socket that it accepted.\<close>

definition accept_calls :: "(call \<Rightarrow> int) \<Rightarrow> poll_result \<Rightarrow> call list" where
  "accept_calls os polled =
     (case polled of
        PollReady (Some (now, connfd)) evs \<Rightarrow>
          if connfd < 0 then [] else [GetFlags connfd, SetFlags connfd (of_int (os (GetFlags connfd)) OR O_NONBLOCK)]
      | _ \<Rightarrow> [])"

fun round_error :: "round \<Rightarrow> string option" where
  "round_error (PollFailed now) = Some ''poll() failed''"
| "round_error (Round now os polled tnow) = failing os (accept_calls os polled)"

fun rounds_error :: "round list \<Rightarrow> string option" where
  "rounds_error [] = None"
| "rounds_error (r # rs) = (case round_error r of None \<Rightarrow> rounds_error rs | Some msg \<Rightarrow> Some msg)"

definition first_error :: "(call \<Rightarrow> int) \<Rightarrow> round list \<Rightarrow> string option" where
  "first_error os rounds = (case failing os (start_calls os) of None \<Rightarrow> rounds_error rounds | Some msg \<Rightarrow> Some msg)"

lemma accept_nb_run:
  "accept_nb os polled = (case failing os (accept_calls os polled) of None \<Rightarrow> Went () | Some msg \<Rightarrow> Died msg)"
  by (simp add: accept_nb_def accept_calls_def failing_def fd_set_nb_def run_simps split: poll_result.split option.split)

lemma server_start_error:
  "\<exists>sv pool trace. server0 = Some sv \<and>
    server_start os = Some (case failing os (start_calls os) of None \<Rightarrow> Went (os Socket, sv, pool) | Some msg \<Rightarrow> Died msg, trace)"
proof -
  let ?bad = "find (\<lambda>c. start_error c \<noteq> None \<and> os c < 0) (start_calls os)"
  obtain sv pool where s: "server0 = Some sv" "server_start os =
    Some (case ?bad of
            None \<Rightarrow> (Went (os Socket, sv, pool), start_calls os)
          | Some c \<Rightarrow> (Died (the (start_error c)), takeWhile (\<lambda>d. d \<noteq> c) (start_calls os) @ [c]))"
    using server_start_run [of os] by blast
  show ?thesis
    by (cases ?bad) (use s in \<open>auto simp only: failing_def option.map option.case\<close>)
qed

section \<open>What the rounds do\<close>

text \<open>Every round comes with the requests that each of its events completes.\<close>

fun orderly_rounds :: "nat \<Rightarrow> (round \<times> bytes list list list) list \<Rightarrow> server \<Rightarrow> bool" where
  "orderly_rounds n [] sv \<longleftrightarrow> True"
| "orderly_rounds n ((PollFailed now, cmdss) # rs) sv \<longleftrightarrow> True"
| "orderly_rounds n ((Round now os PollIntr tnow, cmdss) # rs) sv \<longleftrightarrow> cmdss = [] \<and> orderly_rounds n rs sv"
| "orderly_rounds n ((Round now os (PollReady acc evs) tnow, cmdss) # rs) sv \<longleftrightarrow>
     orderly tnow acc evs cmdss sv \<and> n + sum_list (map length cmdss) \<le> 30000 \<and>
     (\<forall>t sv'. loop_once now (PollReady acc evs) tnow sv = Some (t, sv') \<longrightarrow>
        orderly_rounds (n + sum_list (map length cmdss)) rs sv')"

definition received :: "(round \<times> bytes list list list) list \<Rightarrow> bytes list list" where
  "received rounds = concat (map (\<lambda>(r, cmdss). concat cmdss) rounds)"

fun timer_clock :: "round \<Rightarrow> u64 list" where
  "timer_clock (PollFailed now) = []"
| "timer_clock (Round now os polled tnow) = [tnow]"

definition timer_clocks :: "(round \<times> bytes list list list) list \<Rightarrow> u64 list" where
  "timer_clocks rounds = concat (map (\<lambda>(r, cmdss). timer_clock r) rounds)"

lemma rounds_Cons:
  "received ((r, cmdss) # rs) = concat cmdss @ received rs" "timer_clocks ((r, cmdss) # rs) = timer_clock r @ timer_clocks rs"
  by (simp_all add: received_def timer_clocks_def)

lemma main_loop_run:
  "orderly_reach n sv \<Longrightarrow> orderly_rounds n rounds sv \<Longrightarrow>
    (case rounds_error (map fst rounds) of
       Some msg \<Rightarrow> main_loop (map fst rounds) sv = Some (Died msg)
     | None \<Rightarrow> \<exists>sv' xs. main_loop (map fst rounds) sv = Some (Went sv') \<and> orderly_reach (n + length (received rounds)) sv'
         \<and> acts xs (contents sv) = Some (contents sv') \<and> commands xs = received rounds \<and> set (expiry_clocks xs) \<subseteq> set (timer_clocks rounds))"
proof (induction n rounds sv rule: orderly_rounds.induct)
  case (1 n sv)
  then show ?case
    by (auto simp: received_def intro!: exI [of _ "[]"])
next
  case (2 n now cmdss rs sv)
  then obtain xs where g: "good n sv xs"
    using orderly_reach_good by blast
  then show ?case
    using poll_args_good [OF g] next_timer_good [OF g, of now] by (auto simp: main_round_def)
next
  case (3 n now os tnow cmdss rs sv)
  then obtain xs where g: "good n sv xs"
    using orderly_reach_good by blast
  then obtain t where "loop_once now PollIntr tnow sv = Some (t, sv)"
    using poll_args_good [OF g] next_timer_good [OF g, of now] by (auto simp: loop_once_def)
  then have r: "main_round (Round now os PollIntr tnow) sv = Some (Went sv)" "round_error (Round now os PollIntr tnow) = None"
    by (simp_all add: main_round_def accept_nb_def accept_calls_def failing_def)
  show ?case
    using 3 r by (fastforce simp: rounds_Cons split: option.splits)
next
  case (4 n now os acc evs tnow cmdss rs sv)
  let ?r = "Round now os (PollReady acc evs) tnow" and ?k = "sum_list (map length cmdss)"
  obtain xs where g: "good n sv xs"
    using 4 orderly_reach_good by blast
  note nb = accept_nb_run [of os "PollReady acc evs"]
  show ?case
  proof (cases "round_error ?r")
    case (Some msg)
    then have "main_round ?r sv = Some (Died msg)"
      using poll_args_good [OF g] next_timer_good [OF g, of now] nb by (auto simp: main_round_def)
    then show ?thesis
      using Some by simp
  next
    case None
    have o: "orderly tnow acc evs cmdss sv" "n + ?k \<le> 30000"
      using "4.prems"(2) by simp_all
    obtain t sv1 as where l: "loop_once now (PollReady acc evs) tnow sv = Some (t, sv1)" "acts as (contents sv) = Some (contents sv1)"
      "commands as = concat cmdss" "set (expiry_clocks as) \<subseteq> {tnow}"
      using loop_once_good [OF g o] by blast
    have r: "main_round ?r sv = Some (Went sv1)"
      using l(1) None nb by (simp add: main_round_def)
    have "orderly_reach (n + ?k) sv1" "orderly_rounds (n + ?k) rs sv1"
      using orderly_reach.served [OF "4.prems"(1) o l(1)] "4.prems"(2) l(1) by auto
    note IH = "4.IH" [OF l(1) this]
    show ?thesis
    proof (cases "rounds_error (map fst rs)")
      case (Some msg)
      then show ?thesis
        using IH r None by simp
    next
      case end_ok: None
      then obtain sv' ys where y: "main_loop (map fst rs) sv1 = Some (Went sv')" "orderly_reach (n + ?k + length (received rs)) sv'"
        "acts ys (contents sv1) = Some (contents sv')" "commands ys = received rs" "set (expiry_clocks ys) \<subseteq> set (timer_clocks rs)"
        using IH by auto
      have "orderly_reach (n + length (received ((?r, cmdss) # rs))) sv'"
        using y(2) by (simp add: rounds_Cons length_concat add.assoc)
      moreover have "acts (as @ ys) (contents sv) = Some (contents sv')" "commands (as @ ys) = received ((?r, cmdss) # rs)"
        "set (expiry_clocks (as @ ys)) \<subseteq> set (timer_clocks ((?r, cmdss) # rs))"
        using l(2-4) y(3-5) by (auto simp: rounds_Cons)
      ultimately show ?thesis
        using y(1) r None end_ok by (auto intro!: exI [of _ "as @ ys"])
    qed
  qed
qed

section \<open>Properties\<close>

text \<open>C5: The server as a whole, when what its clients send is orderly: \<open>main\<close> ends exactly at the first checked call that fails, one of
  \<open>socket\<close>, \<open>bind\<close>, \<open>fcntl\<close> and \<open>listen\<close> at the start, or \<open>fcntl\<close> for an accepted socket or \<open>poll\<close> in a round, and it dies
  with the message of that call. When none fails it has run all its rounds, and what it holds is what the abstract
  service makes of the requests received, in their order, and of expiries at the clocks of the timers.\<close>

theorem server_main_lives:
  assumes "\<forall>sv. server0 = Some sv \<longrightarrow> orderly_rounds 0 rounds sv"
  shows "case first_error os (map fst rounds) of
      Some msg \<Rightarrow> server_main os (map fst rounds) = Some (Died msg)
    | None \<Rightarrow> \<exists>sv xs. server_main os (map fst rounds) = Some (Went sv) \<and> orderly_reach (length (received rounds)) sv
        \<and> acts xs Map.empty = Some (contents sv) \<and> commands xs = received rounds \<and> set (expiry_clocks xs) \<subseteq> set (timer_clocks rounds)"
proof -
  obtain sv pool trace where sv: "server0 = Some sv"
    "server_start os = Some (case failing os (start_calls os) of None \<Rightarrow> Went (os Socket, sv, pool) | Some msg \<Rightarrow> Died msg, trace)"
    using server_start_error by blast
  have c: "contents sv = Map.empty"
    using server0_good sv(1) by (metis option.inject)
  have o: "orderly_rounds 0 rounds sv"
    using assms sv(1) by blast
  show ?thesis
    using main_loop_run [OF orderly_reach.boot [OF sv(1)] o] sv(2) c
    by (simp add: server_main_def first_error_def split: option.splits)
qed

text \<open>A client connects, sets a key and reads it; then \<open>poll\<close> fails.\<close>

definition short_life :: "(round \<times> bytes list list list) list" where
  "short_life = [(Round 0 (\<lambda>_. 3) (PollReady (Some (0, 5)) []) 0, []),
     (Round 0 (\<lambda>_. 3) (PollReady None [read_event (requests set_get @ [1, 0])]) 0, [set_get]), (PollFailed 0, [])]"

lemma short_life_orderly: "server0 = Some sv \<Longrightarrow> orderly_rounds 0 short_life sv \<and> orderly_rounds 0 (take 2 short_life) sv"
proof -
  assume s: "server0 = Some sv"
  obtain sv0 t1 sv1 where b: "server0 = Some sv0" "fd_lookup 5 sv0 = None" "sv_fd2conn sv0 = []"
    "loop_once 0 (PollReady (Some (0, 5)) []) 0 sv0 = Some (t1, sv1)"
    "sv_fd2conn sv1 = [None, None, None, None, None, Some 1]" "sv_store sv1 = empty_store" "sv_conn sv1 = [1 \<mapsto> conn5]"
    using boot_accept by blast
  have "orderly 0 (Some (0, 5)) [] [] sv0"
    using b(2,3) idle_calm_0 by (simp add: orderly_def fresh_fd_def)
  moreover have "orderly 0 None [read_event (requests set_get @ [1, 0])] [set_get] sv1"
    by (rule set_get_orderly [OF b(5-7)])
  moreover have "sv0 = sv"
    using s b(1) by (metis option.inject)
  ultimately show ?thesis
    using b(4) set_get_size by (simp add: short_life_def numeral_2_eq_2)
qed

text \<open>Two of these rounds run, the third ends the server, and a server whose \<open>bind\<close> fails does not get to them.\<close>

lemma server_main_lives_witness:
  "server_main (\<lambda>_. 3) (map fst short_life) = Some (Died ''poll() failed'')
   \<and> server_main (\<lambda>c. case c of Bind fd port ip \<Rightarrow> - 1 | _ \<Rightarrow> 3) (map fst short_life) = Some (Died ''bind() failed'')
   \<and> (\<exists>sv. server_main (\<lambda>_. 3) (map fst (take 2 short_life)) = Some (Went sv) \<and> orderly_reach 2 sv)"
proof -
  have o: "\<forall>sv. server0 = Some sv \<longrightarrow> orderly_rounds 0 short_life sv" "\<forall>sv. server0 = Some sv \<longrightarrow> orderly_rounds 0 (take 2 short_life) sv"
    using short_life_orderly by blast+
  have e: "first_error (\<lambda>_. 3) (map fst short_life) = Some ''poll() failed''" "first_error (\<lambda>_. 3) (map fst (take 2 short_life)) = None"
    "first_error (\<lambda>c. case c of Bind fd port ip \<Rightarrow> - 1 | _ \<Rightarrow> 3) (map fst short_life) = Some ''bind() failed''"
    by (simp_all add: first_error_def failing_def start_calls_def accept_calls_def short_life_def numeral_2_eq_2 Let_def)
  have "length (received (take 2 short_life)) = 2"
    using set_get_size by (simp add: short_life_def received_def numeral_2_eq_2)
  then show ?thesis
    using server_main_lives [OF o(1), of "\<lambda>_. 3"] server_main_lives [OF o(2), of "\<lambda>_. 3"]
      server_main_lives [OF o(1), of "\<lambda>c. case c of Bind fd port ip \<Rightarrow> - 1 | _ \<Rightarrow> 3"] unfolding e by auto
qed

end
