(* ===== verification/Conversation.thy ===== *)
theory Conversation
  imports Safety Process
begin

text \<open>
  A user at the client, talking to the server: \<open>client_loop\<close> of \<open>Process\<close> runs against the answers that the
  handlers of the server and the network give to its calls. The network may cut the bytes at any place in
  both directions: every \<open>write\<close> and every \<open>read\<close> handles some of them.
\<close>

section \<open>The network\<close>

lemma handle_write_pieces:
  "[] \<notin> set ps \<Longrightarrow> c_outgoing c = concat ps \<Longrightarrow>
    handle_write (map (\<lambda>p. WriteSent (length p)) ps) c = Some (c\<lparr>c_outgoing := [], c_want_write := False, c_want_read := True\<rparr>)"
proof (induction ps arbitrary: c)
  case Nil
  then have "c\<lparr>c_outgoing := []\<rparr> = c"
    by simp
  then show ?case
    using Nil by (simp add: handle_write.simps [of "[]"])
next
  case (Cons p ps)
  then show ?case
    by (auto simp: handle_write.simps [of "_ # _"] buf_consume_def)
qed

text \<open>How one exchange is cut: the writes of the client, the reads and writes of the server, and the reads of the
  client for the header and for the body of the reply.\<close>

record network =
  n_send :: "nat list"
  n_arrive :: "nat list"
  n_reply :: "nat list"
  n_head :: "nat list"
  n_body :: "nat list"

section \<open>One exchange\<close>

text \<open>The server reads the pieces as they arrive, in successive calls of \<open>handle_read\<close>.\<close>

fun arrive :: "u64 \<Rightarrow> addr \<Rightarrow> bytes list \<Rightarrow> server \<Rightarrow> server option" where
  "arrive now a [] sv = Some sv"
| "arrive now a (p # ps) sv = do {
     sv \<leftarrow> handle_read (\<lambda>_. now) (ReadBytes p) a sv;
     arrive now a ps sv
   }"

text \<open>What the client sends reaches the server, which answers: the next state of the server, and the results of
  the client's \<open>write\<close> and \<open>read\<close> calls.\<close>

definition exchange :: "u64 \<Rightarrow> network \<Rightarrow> addr \<Rightarrow> bytes list \<Rightarrow> server \<Rightarrow> (server \<times> sock_write list \<times> sock_read list) option" where
  "exchange now net a cmd sv = do {
     let ws = map (\<lambda>p. Sent (length p)) (chop (n_send net) (frame (req_body cmd)));
     (rv, sent) \<leftarrow> send_request ws cmd;
     sv \<leftarrow> arrive now a (chop (n_arrive net) sent) sv;
     c \<leftarrow> sv_conn sv a;
     let reply = c_outgoing c;
     c \<leftarrow> handle_write (map (\<lambda>p. WriteSent (length p)) (chop (n_reply net) reply)) c;
     Some (sv\<lparr>sv_conn := (sv_conn sv)(a \<mapsto> c)\<rparr>, ws,
       map Recv (chop (n_head net) (take 4 reply)) @ map Recv (chop (n_body net) (drop 4 reply)))
   }"

lemma frame_prefix_partial:
  assumes "frame b = x @ y" "y \<noteq> []" "length b \<le> k_max_msg"
  shows "partial_msg x"
proof (cases "length x < 4")
  case False
  then have "take 4 x = take 4 (frame b)"
    by (simp add: assms(1))
  then have "rd32 (take 4 x) = of_nat (length b)"
    unfolding frame_def by (simp only: c32.dec_prefix)
  moreover have "unat (of_nat (length b) :: u32) = length b"
    using assms(3) by (intro unat_of_nat_u32) (simp add: k_max_msg_def)
  moreover have "length x + length y = 4 + length b"
    using arg_cong [OF assms(1), of length] by (simp add: frame_def)
  ultimately show ?thesis
    using assms(2,3) by (cases y) (auto simp: partial_msg_def)
qed (simp add: partial_msg_def)

text \<open>A state in which the connection waits for a request.\<close>

definition waiting :: "nat \<Rightarrow> server \<Rightarrow> addr \<Rightarrow> kv \<Rightarrow> bool" where
  "waiting n sv a f \<longleftrightarrow> homes sv \<and> store_inv n (sv_store sv)
     \<and> (\<exists>c. sv_conn sv a = Some c \<and> c_incoming c = [] \<and> c_outgoing c = [] \<and> view (sv_store sv) (c_db c) = f)"

lemma arrive_part:
  assumes "sv_conn sv a = Some c" "c_outgoing c = []" "p \<noteq> []" "partial_msg (c_incoming c @ p)"
  shows "handle_read clock (ReadBytes p) a sv = Some (sv\<lparr>sv_conn := (sv_conn sv)(a \<mapsto> c\<lparr>c_incoming := c_incoming c @ p\<rparr>)\<rparr>)"
proof -
  let ?c = "c\<lparr>c_incoming := c_incoming c @ p\<rparr>"
  have "try_requests clock 0 a ?c (sv_store sv) = Some (?c, sv_store sv)"
    using try_one_request_partial [of ?c "clock 0" a "sv_store sv"] assms(4) by (simp add: try_requests.simps)
  then show ?thesis
    using assms by (simp add: handle_read_def buf_append_def Let_def)
qed

lemma arrive_run:
  assumes "sv_conn sv a = Some c" "c_outgoing c = []" "c_incoming c @ concat ps = frame (req_body cmd)" "[] \<notin> set ps" "ps \<noteq> []"
    and "sendable cmd" "in_spec cmd (view (sv_store sv) (c_db c))" "homes sv" "store_inv n (sv_store sv)" "n < 30000"
  shows "\<exists>sv' c' r. arrive now a ps sv = Some sv' \<and> sv_conn sv' a = Some c' \<and> c_incoming c' = []
    \<and> answer now cmd (view (sv_store sv) (c_db c)) r \<and> c_outgoing c' = framed r \<and> homes sv' \<and> store_inv (Suc n) (sv_store sv')
    \<and> contents sv' = (contents sv)(a \<mapsto> effect now cmd (view (sv_store sv) (c_db c)))"
  using assms
proof (induction ps arbitrary: sv c)
  case (Cons p ps)
  let ?v = "view (sv_store sv) (c_db c)"
  have p: "p \<noteq> []"
    using Cons.prems(4) by auto
  show ?case
  proof (cases "ps = []")
    case True
    have b: "c_incoming c @ p = requests [cmd] @ []" "batch_ok (\<lambda>_. now) 0 [cmd] ?v" "n + length [cmd] \<le> 30000"
      "partial_msg []" "stops []"
      using Cons.prems(3,6,7,10) True by (simp_all add: requests_def partial_msg_def stops_def)
    have d: "db_inv (sv_store sv) (c_db c)"
      using homes_db [OF Cons.prems(8,1)] .
    from handle_read_run [OF Cons.prems(1) b(1) p b(4,2) Cons.prems(9) d b(3)] obtain sv' c' r where
      r: "handle_read (\<lambda>_. now) (ReadBytes p) a sv = Some sv'" "sv_conn sv' a = Some c'" "answer now cmd ?v r"
      "c_outgoing c' = framed r" "c_incoming c' = []" "store_inv (Suc n) (sv_store sv')"
      by (fastforce split: list.splits)
    note h = handle_read_homes [OF r(1) Cons.prems(1) b(1,5,2) Cons.prems(9,8) b(3)]
    show ?thesis
      using r h(1) h(2) [OF p] True by (auto simp del: fun_upd_apply)
  next
    case False
    let ?c = "c\<lparr>c_incoming := c_incoming c @ p\<rparr>"
    let ?sv = "sv\<lparr>sv_conn := (sv_conn sv)(a \<mapsto> ?c)\<rparr>"
    have "concat ps \<noteq> []"
      using False Cons.prems(4) by (cases ps) auto
    then have "partial_msg (c_incoming c @ p)"
      using Cons.prems(3,6) by (intro frame_prefix_partial [of "req_body cmd" _ "concat ps"]) (simp_all add: sendable_def)
    then have r: "handle_read (\<lambda>_. now) (ReadBytes p) a sv = Some ?sv"
      using arrive_part [OF Cons.prems(1,2) p] by simp
    have h: "homes ?sv" "contents ?sv = contents sv"
      using homes_same_db [OF Cons.prems(8,1), of ?c ?sv] contents_same_db [OF Cons.prems(1), of ?c ?sv] by simp_all
    show ?thesis
      using Cons.IH [of ?sv ?c] Cons.prems False r h by (auto simp del: fun_upd_apply simp: fun_upd_same)
  qed
qed simp

section \<open>The exchange runs\<close>

definition quits :: "bytes list \<Rightarrow> bool" where
  "quits cmd \<longleftrightarrow> cmd = [lit ''quit'']"

text \<open>What the client gets: a reply over 32 MB is replaced by an error.\<close>

definition delivered :: "reply \<Rightarrow> reply" where
  "delivered r = (if length (encode r) > k_max_msg then RErr ERR_TOO_BIG (lit ''response is too big'') else r)"

lemma framed_delivered: "framed r = frame (encode (delivered r))" "length (encode (delivered r)) \<le> k_max_msg"
  using length_too_big by (simp_all add: framed_def delivered_def too_big_def del: encode.simps)

lemma exchange_run:
  assumes "waiting n sv a f" "sendable cmd" "in_spec cmd f" "n < 30000"
  shows "\<exists>sv' ws rs r. exchange now net a cmd sv = Some (sv', ws, rs)
    \<and> query ws rs cmd = Some (if quits cmd then Exited else Returned (int (length (encode (delivered r)))),
        frame (req_body cmd), shown (delivered r))
    \<and> answer now cmd f r \<and> waiting (Suc n) sv' a (effect now cmd f) \<and> contents sv' = (contents sv)(a \<mapsto> effect now cmd f)"
proof -
  obtain c where c: "sv_conn sv a = Some c" "c_incoming c = []" "c_outgoing c = []" "view (sv_store sv) (c_db c) = f"
    "homes sv" "store_inv n (sv_store sv)"
    using assms(1) by (auto simp: waiting_def)
  let ?f = "frame (req_body cmd)"
  let ?ws = "map (\<lambda>p. Sent (length p)) (chop (n_send net) ?f)" and ?ps = "chop (n_arrive net) ?f"
  have len: "length (req_body cmd) \<le> k_max_msg"
    using assms(2) by (simp add: sendable_def)
  have send: "send_request ?ws cmd = Some (0, ?f)"
    using write_all_pieces [OF chop_pieces(2), of "n_send net" ?f] by (simp add: send_request_run [OF len] chop_pieces(1))
  have "concat ?ps \<noteq> []"
    by (simp add: chop_pieces(1) frame_nonempty)
  then have "?ps \<noteq> []"
    by auto
  then obtain sv1 c1 r where s1: "arrive now a ?ps sv = Some sv1" "sv_conn sv1 a = Some c1" "c_incoming c1 = []" "c_outgoing c1 = framed r"
    "homes sv1" "store_inv (Suc n) (sv_store sv1)" "contents sv1 = (contents sv)(a \<mapsto> effect now cmd f)" "answer now cmd f r"
    using arrive_run [OF c(1,3), of ?ps cmd n now] chop_pieces c(2,4-6) assms(2-4) by auto
  let ?r = "delivered r"
  let ?rs = "map Recv (chop (n_head net) (take 4 (framed r))) @ map Recv (chop (n_body net) (drop 4 (framed r)))"
  let ?c = "c1\<lparr>c_outgoing := [], c_want_write := False, c_want_read := True\<rparr>"
  let ?sv = "sv1\<lparr>sv_conn := (sv_conn sv1)(a \<mapsto> ?c)\<rparr>"
  have wr: "handle_write (map (\<lambda>p. WriteSent (length p)) (chop (n_reply net) (framed r))) c1 = Some ?c"
    by (rule handle_write_pieces) (simp_all add: chop_pieces s1(4))
  have fr: "take 4 (framed r) = le32 (of_nat (length (encode ?r)))" "drop 4 (framed r) = encode ?r"
    by (simp_all add: framed_delivered(1) frame_def)
  have "read_response ?rs = Some (int (length (encode ?r)), shown ?r)"
    by (rule read_response_pieces) (simp_all add: chop_pieces fr framed_delivered(2))
  then have q: "query ?ws ?rs cmd = Some (if quits cmd then Exited else Returned (int (length (encode ?r))), ?f, shown ?r)"
    using send by (auto simp: query_def quits_def length_Suc_conv)
  have run: "exchange now net a cmd sv = Some (?sv, ?ws, ?rs)"
    using send s1(1,2,4) wr by (simp add: exchange_def Let_def)
  have h: "homes ?sv" "contents ?sv = contents sv1"
    using homes_same_db [OF s1(5,2), of ?c ?sv] contents_same_db [OF s1(2), of ?c ?sv] by simp_all
  have "view (sv_store sv1) (c_db c1) = effect now cmd f"
    using contents_simp [OF s1(2)] s1(7) by simp
  then have "waiting (Suc n) ?sv a (effect now cmd f)"
    using h(1) s1(3,6) by (simp add: waiting_def)
  then show ?thesis
    using run q h(2) s1(7,8) by metis
qed

section \<open>Conversations\<close>

text \<open>
  Every line comes with the way the network cuts its exchange. The result is the state of the server and
  the log of the client: each line it took, with the results of its calls.
\<close>

fun dialogue :: "(nat \<Rightarrow> u64) \<Rightarrow> nat \<Rightarrow> addr \<Rightarrow> (network \<times> bytes) list \<Rightarrow> server \<Rightarrow>
    (server \<times> (bytes \<times> sock_write list \<times> sock_read list) list) option" where
  "dialogue clock i a [] sv = Some (sv, [])"
| "dialogue clock i a ((net, line) # lines) sv = do {
     cmd \<leftarrow> tokenize line 0 [];
     (sv, ws, rs) \<leftarrow> exchange (clock i) net a cmd sv;
     (end, sent, out) \<leftarrow> query ws rs cmd;
     (sv, log) \<leftarrow> (case end of Exited \<Rightarrow> Some (sv, []) | Returned _ \<Rightarrow> dialogue clock (i + 1) a lines sv);
     Some (sv, (line, ws, rs) # log)
   }"

text \<open>The commands that the lines mean, up to the first \<open>quit\<close>.\<close>

fun typed_commands :: "bytes list \<Rightarrow> bytes list list option" where
  "typed_commands [] = Some []"
| "typed_commands (line # lines) = do {
     cmd \<leftarrow> words line;
     if quits cmd then Some [cmd]
     else do { cmds \<leftarrow> typed_commands lines; Some (cmd # cmds) }
   }"

lemma tokenize_line: "length line < npos \<Longrightarrow> tokenize line 0 [] = words line"
  using tokenize_words [of "[]" line "[]"] by (cases "words line") simp_all

lemma dialogue_run:
  assumes "waiting n sv a f" "n + length cmds \<le> 30000" "list_all (\<lambda>line. length line < npos) (map snd talk)"
    and "typed_commands (map snd talk) = Some cmds" "batch_ok clock i cmds f"
  shows "\<exists>sv' log rs. dialogue clock i a talk sv = Some (sv', log)
    \<and> client_loop log = Some (map (frame \<circ> req_body) cmds, map (shown \<circ> delivered) rs, cmds \<noteq> [] \<and> quits (last cmds))
    \<and> batch_answers clock i cmds f rs \<and> contents sv' = (contents sv)(a \<mapsto> batch_end clock i cmds f)"
  using assms
proof (induction talk arbitrary: n sv f i cmds)
  case Nil
  then have "contents sv a = Some f"
    by (auto simp: waiting_def contents_def)
  then show ?case
    using Nil.prems(4) by (simp add: fun_upd_idem)
next
  case (Cons x talk)
  obtain net line where x: "x = (net, line)"
    by (cases x)
  obtain cmd cmds' where w: "words line = Some cmd" "cmds = cmd # cmds'"
    using Cons.prems(4) by (auto simp: x split: bind_splits if_splits)
  let ?f = "effect (clock i) cmd f"
  have ok: "sendable cmd" "in_spec cmd f" "n < 30000"
    using Cons.prems(2,5) w(2) by simp_all
  obtain sv1 ws rs r where s1: "exchange (clock i) net a cmd sv = Some (sv1, ws, rs)"
    "query ws rs cmd = Some (if quits cmd then Exited else Returned (int (length (encode (delivered r)))), frame (req_body cmd), shown (delivered r))"
    "answer (clock i) cmd f r" "waiting (Suc n) sv1 a ?f" "contents sv1 = (contents sv)(a \<mapsto> ?f)"
    using exchange_run [OF Cons.prems(1) ok] by blast
  have t: "tokenize line 0 [] = Some cmd"
    using Cons.prems(3) w(1) tokenize_line [of line] by (simp add: x)
  show ?case
  proof (cases "quits cmd")
    case True
    then have "cmds' = []"
      using Cons.prems(4) w by (simp add: x)
    then show ?thesis
      using t s1(1-3,5) True w(2) by (intro exI [of _ sv1] exI [of _ "[(line, ws, rs)]"] exI [of _ "[r]"]) (simp add: x del: fun_upd_apply)
  next
    case False
    have "batch_ok clock (i + 1) cmds' ?f" "Suc n + length cmds' \<le> 30000" "list_all (\<lambda>line. length line < npos) (map snd talk)"
      "typed_commands (map snd talk) = Some cmds'"
      using Cons.prems(2-5) False w by (simp_all add: x split: bind_splits)
    from Cons.IH [OF s1(4) this(2,3,4,1)] obtain sv2 log rs' where
      "dialogue clock (i + 1) a talk sv1 = Some (sv2, log)"
      "client_loop log = Some (map (frame \<circ> req_body) cmds', map (shown \<circ> delivered) rs', cmds' \<noteq> [] \<and> quits (last cmds'))"
      "batch_answers clock (i + 1) cmds' ?f rs'" "contents sv2 = (contents sv1)(a \<mapsto> batch_end clock (i + 1) cmds' ?f)"
      by blast
    then show ?thesis
      using t s1(1-3,5) False w(2)
      by (intro exI [of _ sv2] exI [of _ "(line, ws, rs) # log"] exI [of _ "r # rs'"]) (simp add: x del: fun_upd_apply)
  qed
qed

end
